(* ===== verification/Prelude.thy ===== *)
theory Prelude
  imports "HOL-Library.Word" "HOL-Library.Code_Target_Numeral" "HOL-Library.Char_ord"
     "HOL-Library.List_Lexorder" "HOL-Library.Sublist"
begin

unbundle bit_operations_syntax

text \<open>
  Shared vocabulary of the development: the machine types of the C++ code, the
  \<^verbatim>\<open>std::string\<close> and C library routines it calls on strings, the ordered
  \<^verbatim>\<open>std::map\<close>, and the two interfaces (an ordered table, a system with an
  invariant) that several components rely on.
\<close>

section \<open>Machine types and proof collections\<close>

type_synonym u8 = "8 word"
type_synonym u16 = "16 word"
type_synonym u32 = "32 word"
type_synonym u64 = "64 word"

named_theorems str_simps "searching, cutting and converting strings"
named_theorems map_simps "the ordered map of the standard library"

text \<open>
  A signed 64-bit value is an \<^typ>\<open>int\<close>; \<open>s64\<close> is what remains of a mathematical
  result once it is stored in 64 bits (two's complement).
\<close>

definition s64 :: "int \<Rightarrow> int" where
  "s64 x = sint (word_of_int x :: u64)"

lemma s64_id: "- (2 ^ 63) \<le> x \<Longrightarrow> x < 2 ^ 63 \<Longrightarrow> s64 x = x"
  by (simp add: s64_def sint_sbintrunc' signed_take_bit_int_eq_self)

section \<open>Strings\<close>

subsection \<open>Searching and cutting\<close>

text \<open>
  \<^verbatim>\<open>find\<close> returns \<^const>\<open>None\<close> for \<^verbatim>\<open>std::string::npos\<close>.
\<close>

fun find_char :: "char \<Rightarrow> string \<Rightarrow> nat option" where
  "find_char c [] = None"
| "find_char c (x # xs) = (if x = c then Some 0 else map_option Suc (find_char c xs))"

definition find_char_from :: "char \<Rightarrow> string \<Rightarrow> nat \<Rightarrow> nat option" where
  "find_char_from c s start = map_option (\<lambda>i. start + i) (find_char c (drop start s))"

fun find_str :: "string \<Rightarrow> string \<Rightarrow> nat option" where
  "find_str pat [] = (if pat = [] then Some 0 else None)"
| "find_str pat (x # xs) =
     (if take (length pat) (x # xs) = pat then Some 0 else map_option Suc (find_str pat xs))"

definition find_str_from :: "string \<Rightarrow> string \<Rightarrow> nat \<Rightarrow> nat option" where
  "find_str_from pat s start =
     (if start \<le> length s then map_option (\<lambda>i. start + i) (find_str pat (drop start s)) else None)"

definition substr :: "string \<Rightarrow> nat \<Rightarrow> nat \<Rightarrow> string" where
  "substr s pos n = take n (drop pos s)"

lemma find_char_None_iff [str_simps]: "find_char c s = None \<longleftrightarrow> c \<notin> set s"
  by (induction s) auto

lemma find_char_append [str_simps]:
  "c \<notin> set a \<Longrightarrow> find_char c (a @ c # b) = Some (length a)"
  by (induction a) auto

lemma find_char_append_notin:
  "c \<notin> set a \<Longrightarrow> find_char c (a @ b) = map_option (\<lambda>i. length a + i) (find_char c b)"
  by (cases "find_char c b"; induction a) auto

lemma find_char_SomeD:
  "find_char c s = Some i \<Longrightarrow>
     i < length s \<and> s ! i = c \<and> c \<notin> set (take i s) \<and> s = take i s @ c # drop (Suc i) s"
proof (induction s arbitrary: i)
  case Nil
  then show ?case by simp
next
  case (Cons x xs)
  then show ?case by (cases i) (auto split: if_splits)
qed

lemma find_char_less: "find_char c s = Some i \<Longrightarrow> i < length s"
  by (simp add: find_char_SomeD)

lemma find_str_prefix: "find_str pat (pat @ s) = Some 0"
  by (cases "pat @ s") (auto, metis append_eq_conv_conj)

subsection \<open>Splitting and trimming\<close>

fun split_on :: "char \<Rightarrow> string \<Rightarrow> string list" where
  "split_on c [] = [[]]"
| "split_on c (x # xs) =
     (if x = c then [] # split_on c xs
      else (case split_on c xs of [] \<Rightarrow> [[x]] | p # ps \<Rightarrow> (x # p) # ps))"

text \<open>The lines \<^verbatim>\<open>std::getline\<close> returns one after another for a stream's contents.\<close>

definition getlines :: "string \<Rightarrow> string list" where
  "getlines s =
     (let ls = split_on CHR 0x0A s in if last ls = [] then butlast ls else ls)"

fun find_first_not_of :: "char set \<Rightarrow> string \<Rightarrow> nat option" where
  "find_first_not_of cs [] = None"
| "find_first_not_of cs (x # xs) =
     (if x \<in> cs then map_option Suc (find_first_not_of cs xs) else Some 0)"

definition find_last_not_of :: "char set \<Rightarrow> string \<Rightarrow> nat option" where
  "find_last_not_of cs s =
     map_option (\<lambda>i. length s - 1 - i) (find_first_not_of cs (rev s))"

lemma split_on_not_Nil [simp]: "split_on c s \<noteq> []"
  by (induction s) (auto split: list.splits)

lemma split_on_notin [str_simps]: "c \<notin> set s \<Longrightarrow> split_on c s = [s]"
  by (induction s) auto

lemma split_on_append [str_simps]: "split_on c (a @ c # b) = split_on c a @ split_on c b"
  by (induction a) (auto split: list.splits)

lemma split_on_parts: "p \<in> set (split_on c s) \<Longrightarrow> c \<notin> set p"
proof (induction s arbitrary: p)
  case Nil
  then show ?case by simp
next
  case (Cons x xs)
  obtain q qs where q: "split_on c xs = q # qs" by (cases "split_on c xs") simp_all
  with Cons show ?case by (auto split: if_splits)
qed

lemma find_first_not_of_eq:
  "find_first_not_of cs s =
     (if set s \<subseteq> cs then None else Some (length (takeWhile (\<lambda>c. c \<in> cs) s)))"
  by (induction s) auto

lemma find_first_not_of_Some_less: "find_first_not_of cs s = Some i \<Longrightarrow> i < length s"
  by (induction s arbitrary: i) (auto split: if_splits)

subsection \<open>Characters\<close>

definition is_digit :: "char \<Rightarrow> bool" where
  "is_digit c \<longleftrightarrow> CHR ''0'' \<le> c \<and> c \<le> CHR ''9''"

definition is_space :: "char \<Rightarrow> bool" where
  "is_space c \<longleftrightarrow> c = CHR '' '' \<or> (9 \<le> (of_char c :: nat) \<and> (of_char c :: nat) \<le> 13)"

definition to_lower :: "char \<Rightarrow> char" where
  "to_lower c = (if CHR ''A'' \<le> c \<and> c \<le> CHR ''Z'' then char_of ((of_char c :: nat) + 32) else c)"

definition digit_val :: "char \<Rightarrow> nat" where
  "digit_val c = of_char c - 48"

definition digit_char :: "nat \<Rightarrow> char" where
  "digit_char d = char_of (48 + d)"

lemma is_digit_iff: "is_digit c \<longleftrightarrow> 48 \<le> (of_char c :: nat) \<and> (of_char c :: nat) \<le> 57"
  by (simp add: is_digit_def less_eq_char_def)

lemma digit_char_lemmas [str_simps]:
  assumes "d < 10"
  shows "is_digit (digit_char d)" and "digit_val (digit_char d) = d"
  using assms by (simp_all add: is_digit_iff digit_val_def digit_char_def)

lemma is_digit_simps [simp]:
  "is_digit CHR ''0''" "\<not> is_digit CHR ''/''" "\<not> is_digit CHR '' ''" "\<not> is_digit CHR '':''"
  "\<not> is_digit CHR ''-''" "\<not> is_digit CHR ''+''" "\<not> is_digit CHR ''_''"
  by (simp_all add: is_digit_iff)

lemma is_digit_not_space: "is_digit c \<Longrightarrow> \<not> is_space c"
  by (auto simp: is_digit_iff is_space_def)

subsection \<open>Decimal numbers\<close>

text \<open>
  \<open>dec_value\<close> reads a string of digits, \<open>dec_of_nat\<close> and \<open>dec_of_int\<close> are
  \<^verbatim>\<open>std::to_string\<close>. \<open>c_strtoul\<close> is \<^verbatim>\<open>strtoul(s, nullptr, 10)\<close> on a platform
  with a 64-bit \<^verbatim>\<open>unsigned long\<close> (also \<^verbatim>\<open>strtoull\<close>), with the \<^verbatim>\<open>ERANGE\<close> flag as
  its second component; \<open>c_atoi\<close> is \<^verbatim>\<open>atoi\<close>, i.e. \<^verbatim>\<open>strtol\<close> cast to \<^verbatim>\<open>int\<close>.
\<close>

definition dec_value :: "string \<Rightarrow> nat" where
  "dec_value s = foldl (\<lambda>n c. 10 * n + digit_val c) 0 s"

fun dec_of_nat :: "nat \<Rightarrow> string" where
  "dec_of_nat n =
     (if n < 10 then [digit_char n] else dec_of_nat (n div 10) @ [digit_char (n mod 10)])"

declare dec_of_nat.simps [simp del]

definition dec_of_int :: "int \<Rightarrow> string" where
  "dec_of_int i = (if i < 0 then CHR ''-'' # dec_of_nat (nat (- i)) else dec_of_nat (nat i))"

text \<open>The optional sign in front of the digits: whether it is a minus, and the rest.\<close>

fun split_sign :: "string \<Rightarrow> bool \<times> string" where
  "split_sign [] = (False, [])"
| "split_sign (c # cs) =
     (if c = CHR ''-'' then (True, cs) else if c = CHR ''+'' then (False, cs) else (False, c # cs))"

definition c_strtoul :: "string \<Rightarrow> u64 \<times> bool" where
  "c_strtoul s =
     (let (neg, t) = split_sign (dropWhile is_space s);
          v = dec_value (takeWhile is_digit t)
      in if 2 ^ 64 \<le> v then (- 1, True)
         else ((if neg then - of_nat v else of_nat v), False))"

definition c_atoi :: "string \<Rightarrow> int" where
  "c_atoi s =
     (let (neg, t) = split_sign (dropWhile is_space s);
          v = int (dec_value (takeWhile is_digit t));
          l = (if neg then max (- v) (- (2 ^ 63)) else min v (2 ^ 63 - 1))
      in sint (word_of_int l :: u32))"

lemma dec_value_Nil [simp]: "dec_value [] = 0"
  by (simp add: dec_value_def)

lemma dec_value_snoc [simp]: "dec_value (s @ [c]) = 10 * dec_value s + digit_val c"
  by (simp add: dec_value_def)

lemma dec_value_Cons [str_simps]: "dec_value (c # s) = digit_val c * 10 ^ length s + dec_value s"
  by (induction s rule: rev_induct)
    (simp_all add: dec_value_def algebra_simps flip: append_Cons)

lemma dec_value_dec_of_nat [simp]: "dec_value (dec_of_nat n) = n"
proof (induction n rule: dec_of_nat.induct)
  case (1 n)
  show ?case
  proof (cases "n < 10")
    case True
    then show ?thesis
      by (simp add: dec_of_nat.simps [of n] dec_value_def digit_char_lemmas)
  next
    case False
    with 1 show ?thesis by (simp add: dec_of_nat.simps [of n] digit_char_lemmas)
  qed
qed

lemma dec_of_nat_digits [simp]: "\<forall>c \<in> set (dec_of_nat n). is_digit c"
proof (induction n rule: dec_of_nat.induct)
  case (1 n)
  then show ?case
    by (cases "n < 10") (simp_all add: dec_of_nat.simps [of n] digit_char_lemmas)
qed

lemma dec_of_nat_not_Nil [simp]: "dec_of_nat n \<noteq> []"
  by (simp add: dec_of_nat.simps [of n])

lemma dec_of_nat_set: "c \<in> set (dec_of_nat n) \<Longrightarrow> is_digit c"
  using dec_of_nat_digits [of n] by blast

lemma dec_of_nat_notin [simp]: "\<not> is_digit c \<Longrightarrow> c \<notin> set (dec_of_nat n)"
  using dec_of_nat_set by blast

lemma takeWhile_all_digits: "\<forall>c \<in> set s. is_digit c \<Longrightarrow> takeWhile is_digit s = s"
  by (simp add: takeWhile_eq_all_conv)

lemma takeWhile_digits:
  "\<forall>c \<in> set s. is_digit c \<Longrightarrow> \<not> is_digit c \<Longrightarrow> takeWhile is_digit (s @ c # t) = s"
  by (simp add: takeWhile_tail)

lemma dropWhile_space_digits:
  "\<forall>c \<in> set s. is_digit c \<Longrightarrow> s \<noteq> [] \<Longrightarrow> dropWhile is_space (s @ t) = s @ t"
  by (cases s) (auto simp: is_digit_not_space)

lemma split_sign_digits:
  "\<forall>c \<in> set s. is_digit c \<Longrightarrow> s \<noteq> [] \<Longrightarrow> split_sign (s @ t) = (False, s @ t)"
  by (cases s) auto

text \<open>On a nonempty string of digits, \<^verbatim>\<open>strtoul\<close> is the decimal value or \<^verbatim>\<open>ERANGE\<close>.\<close>

lemma c_strtoul_digits [str_simps]:
  assumes "\<forall>c \<in> set s. is_digit c" and "s \<noteq> []"
  shows "c_strtoul s =
    (if 2 ^ 64 \<le> dec_value s then (- 1, True) else (of_nat (dec_value s), False))"
  using assms dropWhile_space_digits [OF assms, of "[]"] split_sign_digits [OF assms, of "[]"]
  by (simp add: c_strtoul_def takeWhile_all_digits Let_def)

lemma c_strtoul_digits_then [str_simps]:
  assumes "\<forall>c \<in> set s. is_digit c" and "s \<noteq> []" and "\<not> is_digit c"
  shows "c_strtoul (s @ c # t) =
    (if 2 ^ 64 \<le> dec_value s then (- 1, True) else (of_nat (dec_value s), False))"
  using assms dropWhile_space_digits [OF assms(1,2)] split_sign_digits [OF assms(1,2)]
  by (simp add: c_strtoul_def takeWhile_digits Let_def)

lemma sint_small_u32: "0 \<le> l \<Longrightarrow> l < 2 ^ 31 \<Longrightarrow> sint (word_of_int l :: u32) = l"
  by (simp add: sint_sbintrunc' signed_take_bit_int_eq_self)

lemma c_atoi_digits [str_simps]:
  assumes "\<forall>c \<in> set s. is_digit c" and "s \<noteq> []" and "dec_value s < 2 ^ 31"
  shows "c_atoi s = int (dec_value s)"
  using assms dropWhile_space_digits [OF assms(1,2), of "[]"]
    split_sign_digits [OF assms(1,2), of "[]"] sint_small_u32 [of "int (dec_value s)"]
  by (simp add: c_atoi_def takeWhile_all_digits Let_def min_def)

lemma c_atoi_digits_then [str_simps]:
  assumes "\<forall>c \<in> set s. is_digit c" and "s \<noteq> []" and "dec_value s < 2 ^ 31" and "\<not> is_digit c"
  shows "c_atoi (s @ c # t) = int (dec_value s)"
  using assms dropWhile_space_digits [OF assms(1,2)] split_sign_digits [OF assms(1,2)]
    sint_small_u32 [of "int (dec_value s)"]
  by (simp add: c_atoi_def takeWhile_digits Let_def min_def)

section \<open>The ordered map\<close>

text \<open>
  \<^verbatim>\<open>std::map\<close> iterates in key order, which the code relies on (the order in which
  components are added, the order of the fields of a parsed JSON object), so it is an
  association list kept strictly sorted by key. \<^verbatim>\<open>std::less<std::string>\<close> is the
  lexicographic order by character code, as \<^verbatim>\<open>List_Lexorder\<close> over \<^verbatim>\<open>Char_ord\<close>.
\<close>

type_synonym ('k, 'v) std_map = "('k \<times> 'v) list"

fun map_set :: "'k::linorder \<Rightarrow> 'v \<Rightarrow> ('k, 'v) std_map \<Rightarrow> ('k, 'v) std_map" where
  "map_set k v [] = [(k, v)]"
| "map_set k v ((k', v') # m) =
     (if k < k' then (k, v) # (k', v') # m
      else if k = k' then (k, v) # m
      else (k', v') # map_set k v m)"

definition map_erase :: "'k::linorder \<Rightarrow> ('k, 'v) std_map \<Rightarrow> ('k, 'v) std_map" where
  "map_erase k m = filter (\<lambda>(k', _). k' \<noteq> k) m"

abbreviation map_find :: "('k, 'v) std_map \<Rightarrow> 'k \<Rightarrow> 'v option" where
  "map_find \<equiv> map_of"

definition map_keys :: "('k, 'v) std_map \<Rightarrow> 'k list" where
  "map_keys m = map fst m"

definition map_ok :: "('k::linorder, 'v) std_map \<Rightarrow> bool" where
  "map_ok m \<longleftrightarrow> sorted_wrt (<) (map_keys m)"

lemma map_find_set [map_simps]: "map_find (map_set k v m) = (map_find m)(k \<mapsto> v)"
  by (induction m) auto

lemma map_find_erase [map_simps]: "map_find (map_erase k m) = (map_find m)(k := None)"
  by (induction m) (auto simp: map_erase_def)

lemma set_map_keys [map_simps]: "set (map_keys m) = dom (map_find m)"
  by (simp add: map_keys_def dom_map_of_conv_image_fst)

lemma map_set_keys: "set (map_keys (map_set k v m)) = insert k (set (map_keys m))"
  by (simp add: map_simps)

lemma map_ok_Nil [simp]: "map_ok []"
  by (simp add: map_ok_def map_keys_def)

lemma map_ok_set [intro]: "map_ok m \<Longrightarrow> map_ok (map_set k v m)"
proof (induction m)
  case Nil
  then show ?case by (simp add: map_ok_def map_keys_def)
next
  case (Cons p m)
  obtain k' v' where p: "p = (k', v')" by (cases p)
  from Cons.prems p have ok: "map_ok m" and lt: "\<forall>x \<in> set (map_keys m). k' < x"
    by (simp_all add: map_ok_def map_keys_def)
  with Cons.IH have "map_ok (map_set k v m)" by simp
  moreover have "\<forall>x \<in> set (map_keys (map_set k v m)). k' < x" if "k' < k"
    using lt that by (simp add: map_set_keys)
  ultimately show ?case
    using ok lt p by (auto simp: map_ok_def map_keys_def)
qed

lemma map_ok_erase [intro]: "map_ok m \<Longrightarrow> map_ok (map_erase k m)"
  by (simp add: map_ok_def map_keys_def map_erase_def sorted_wrt_map sorted_wrt_filter)

lemma map_ok_distinct: "map_ok m \<Longrightarrow> distinct (map_keys m)"
  by (simp add: map_ok_def strict_sorted_iff)

lemma map_ok_filter [intro]: "map_ok m \<Longrightarrow> map_ok (filter P m)"
  by (simp add: map_ok_def map_keys_def sorted_wrt_map sorted_wrt_filter)

lemma map_ok_in_set: "map_ok m \<Longrightarrow> (k, v) \<in> set m \<longleftrightarrow> map_find m k = Some v"
  by (simp add: map_ok_distinct [unfolded map_keys_def])

lemma map_find_filter:
  assumes "map_ok m"
  shows "map_find (filter Q m) k = Some v \<longleftrightarrow> map_find m k = Some v \<and> Q (k, v)"
  by (simp flip: map_ok_in_set [OF assms] map_ok_in_set [OF map_ok_filter [OF assms]])

text \<open>
  The interface the components rely on: a table with lookup, insertion and erasure,
  an iteration order that lists each key once, and (extended) sorted.
\<close>

locale table =
  fixes find :: "'m \<Rightarrow> 'k \<Rightarrow> 'v option"
    and put :: "'k \<Rightarrow> 'v \<Rightarrow> 'm \<Rightarrow> 'm"
    and erase :: "'k \<Rightarrow> 'm \<Rightarrow> 'm"
    and keys :: "'m \<Rightarrow> 'k list"
    and ok :: "'m \<Rightarrow> bool"
  assumes find_put: "find (put k v m) = (find m)(k \<mapsto> v)"
    and find_erase: "find (erase k m) = (find m)(k := None)"
    and set_keys: "set (keys m) = dom (find m)"
    and keys_distinct: "ok m \<Longrightarrow> distinct (keys m)"
    and ok_put: "ok m \<Longrightarrow> ok (put k v m)"
    and ok_erase: "ok m \<Longrightarrow> ok (erase k m)"
begin

lemma find_put_same [simp]: "find (put k v m) k = Some v"
  by (simp add: find_put)

lemma find_put_other [simp]: "k' \<noteq> k \<Longrightarrow> find (put k v m) k' = find m k'"
  by (simp add: find_put)

lemma erase_put_fresh: "find m k = None \<Longrightarrow> find (erase k (put k v m)) = find m"
  by (simp add: find_put find_erase fun_eq_iff)

lemma erase_absent: "find m k = None \<Longrightarrow> find (erase k m) = find m"
  by (auto simp: find_erase)

lemma keys_put: "set (keys (put k v m)) = insert k (set (keys m))"
  by (simp add: set_keys find_put)

lemma keys_erase: "set (keys (erase k m)) = set (keys m) - {k}"
  by (simp add: set_keys find_erase)

lemma finite_dom: "finite (dom (find m))"
  by (simp flip: set_keys)

lemma find_fold_put:
  "find (fold (\<lambda>(k, v) m. put k v m) kvs m) = find m ++ map_of (rev kvs)"
  by (induction kvs arbitrary: m) (auto simp: find_put)

lemma ok_fold_put: "ok m \<Longrightarrow> ok (fold (\<lambda>(k, v) m. put k v m) kvs m)"
  by (induction kvs arbitrary: m) (auto simp: ok_put)

end

locale ordered_table = table find put erase keys ok
  for find :: "'m \<Rightarrow> 'k::linorder \<Rightarrow> 'v option" and put erase keys ok +
  assumes keys_sorted: "ok m \<Longrightarrow> sorted (keys m)"
begin

text \<open>Iteration order is a function of the contents alone.\<close>

lemma keys_canonical: "ok m \<Longrightarrow> ok m' \<Longrightarrow> dom (find m) = dom (find m') \<Longrightarrow> keys m = keys m'"
  by (metis keys_distinct keys_sorted set_keys sorted_distinct_set_unique)

end

interpretation smap: ordered_table map_find map_set map_erase map_keys map_ok
  by unfold_locales
    (auto simp: map_simps map_ok_distinct map_ok_set map_ok_erase,
      simp add: map_ok_def strict_sorted_iff)

section \<open>Threading a state through a list\<close>

fun thread_list :: "('a \<Rightarrow> 's \<Rightarrow> 'b \<times> 's) \<Rightarrow> 'a list \<Rightarrow> 's \<Rightarrow> 'b list \<times> 's" where
  "thread_list f [] s = ([], s)"
| "thread_list f (x # xs) s =
     (let (y, s') = f x s; (ys, s'') = thread_list f xs s' in (y # ys, s''))"

lemma thread_list_Cons [simp]:
  "fst (thread_list f (x # xs) s) = fst (f x s) # fst (thread_list f xs (snd (f x s)))"
  "snd (thread_list f (x # xs) s) = snd (thread_list f xs (snd (f x s)))"
  by (simp_all split: prod.split)

declare thread_list.simps(2) [simp del]

lemma thread_list_append:
  "fst (thread_list f (xs @ ys) s) =
     fst (thread_list f xs s) @ fst (thread_list f ys (snd (thread_list f xs s)))"
  "snd (thread_list f (xs @ ys) s) = snd (thread_list f ys (snd (thread_list f xs s)))"
  by (induction xs arbitrary: s) simp_all

section \<open>Systems with an invariant\<close>

text \<open>
  The contract between a step relation and the properties of its runs: an invariant that
  holds at the start and that every step keeps holds in every state a run reaches.
\<close>

locale invariant_system =
  fixes init :: "'s \<Rightarrow> bool"
    and step :: "'s \<Rightarrow> 's \<Rightarrow> bool"
    and inv :: "'s \<Rightarrow> bool"
  assumes init_inv: "init s \<Longrightarrow> inv s"
    and step_inv: "inv s \<Longrightarrow> step s t \<Longrightarrow> inv t"
begin

lemma run_inv: "step\<^sup>*\<^sup>* s t \<Longrightarrow> inv s \<Longrightarrow> inv t"
  by (induction rule: rtranclp_induct) (auto intro: step_inv)

lemma reachable_inv: "init s \<Longrightarrow> step\<^sup>*\<^sup>* s t \<Longrightarrow> inv t"
  by (blast intro: init_inv run_inv)

end

end
