(* ===== verification/Config.thy ===== *)
theory Config
  imports Prelude
begin

text \<open>
  \<^verbatim>\<open>core/config/config.h\<close> and \<^verbatim>\<open>config.cpp\<close>: string-valued component settings with typed
  getters, the node's configuration, and the difference between two configurations that a
  reload can apply to a running daemon.
\<close>

section \<open>Component settings\<close>

type_synonym component_config = "(string, string) std_map"

definition cc_set :: "string \<Rightarrow> string \<Rightarrow> component_config \<Rightarrow> component_config" where
  "cc_set key v c = map_set key v c"

definition cc_has :: "component_config \<Rightarrow> string \<Rightarrow> bool" where
  "cc_has c key \<longleftrightarrow> map_find c key \<noteq> None"

definition cc_get :: "component_config \<Rightarrow> string \<Rightarrow> string \<Rightarrow> string" where
  "cc_get c key fallback = (case map_find c key of None \<Rightarrow> fallback | Some v \<Rightarrow> v)"

definition get_bool :: "component_config \<Rightarrow> string \<Rightarrow> bool \<Rightarrow> bool" where
  "get_bool c key fallback =
     (case map_find c key of
        None \<Rightarrow> fallback
      | Some s \<Rightarrow>
          (let v = map to_lower s in
           if v = ''true'' \<or> v = ''yes'' \<or> v = ''1'' \<or> v = ''on'' then True
           else if v = ''false'' \<or> v = ''no'' \<or> v = ''0'' \<or> v = ''off'' then False
           else fallback))"

definition get_uint :: "component_config \<Rightarrow> string \<Rightarrow> u64 \<Rightarrow> u64" where
  "get_uint c key fallback =
     (case map_find c key of
        None \<Rightarrow> fallback
      | Some s \<Rightarrow>
          if s = [] then fallback
          else if \<not> list_all is_digit s then fallback
          else (let (v, erange) = c_strtoul s in if erange then fallback else v))"

text \<open>
  \<^verbatim>\<open>std::chrono::milliseconds\<close> counts in a signed 64-bit integer; the constructor casts the
  parsed \<^verbatim>\<open>unsigned long long\<close> to it, and a coarser unit is then scaled in that type.
\<close>

definition chrono_ms :: "u64 \<Rightarrow> int \<Rightarrow> int" where
  "chrono_ms v k = s64 (s64 (uint v) * k)"

definition parse_duration_ms :: "string \<Rightarrow> int option" where
  "parse_duration_ms text =
     (if text = [] then None
      else let i = length (takeWhile is_digit text) in
        if i = 0 then None
        else let (v, erange) = c_strtoul (take i text); unit = drop i text in
          if erange then None
          else if unit = [] \<or> unit = ''ms'' then Some (chrono_ms v 1)
          else if unit = ''s'' then Some (chrono_ms v 1000)
          else if unit = ''m'' then Some (chrono_ms v 60000)
          else if unit = ''h'' then Some (chrono_ms v 3600000)
          else None)"

definition get_duration :: "component_config \<Rightarrow> string \<Rightarrow> int \<Rightarrow> int" where
  "get_duration c key fallback =
     (case map_find c key of
        None \<Rightarrow> fallback
      | Some s \<Rightarrow> (case parse_duration_ms s of None \<Rightarrow> fallback | Some parsed \<Rightarrow> parsed))"

definition plugin_of :: "string \<Rightarrow> component_config \<Rightarrow> string" where
  "plugin_of ident c = cc_get c ''plugin'' ident"

section \<open>The node's configuration\<close>

record config =
  cfg_cluster :: string
  cfg_node :: string
  cfg_cgroup_root :: string
  cfg_plugin_dir :: string
  cfg_batch_size :: u64
  cfg_flush_interval :: int
  cfg_verbose :: bool
  cfg_probes :: "(string, component_config) std_map"
  cfg_sinks :: "(string, component_config) std_map"

definition default_config :: config where
  "default_config =
     \<lparr>cfg_cluster = ''local'', cfg_node = [], cfg_cgroup_root = [], cfg_plugin_dir = [],
      cfg_batch_size = 64, cfg_flush_interval = 1000, cfg_verbose = False,
      cfg_probes = [], cfg_sinks = []\<rparr>"

definition config_ok :: "config \<Rightarrow> bool" where
  "config_ok c \<longleftrightarrow> map_ok (cfg_probes c) \<and> map_ok (cfg_sinks c)"

record config_diff =
  added_probes :: "string list"
  removed_probes :: "string list"
  added_sinks :: "string list"
  removed_sinks :: "string list"

text \<open>
  The two loops of \<^verbatim>\<open>diff_components\<close> are one scan each way: the ids of \<open>xs\<close> that \<open>ys\<close>
  does not have, or has with another plugin.
\<close>

definition changed_ids ::
  "(string, component_config) std_map \<Rightarrow> (string, component_config) std_map \<Rightarrow> string list" where
  "changed_ids xs ys =
     [ident. (ident, c) \<leftarrow> xs,
        (case map_find ys ident of None \<Rightarrow> True | Some c' \<Rightarrow> plugin_of ident c \<noteq> plugin_of ident c')]"

text \<open>The pair is \<open>(removed, added)\<close>.\<close>

definition diff_components ::
  "(string, component_config) std_map \<Rightarrow> (string, component_config) std_map \<Rightarrow>
     string list \<times> string list" where
  "diff_components current next = (changed_ids current next, changed_ids next current)"

definition diff_for_reload :: "config \<Rightarrow> config \<Rightarrow> config_diff option" where
  "diff_for_reload current next =
     (if cfg_cluster next \<noteq> cfg_cluster current \<or> cfg_node next \<noteq> cfg_node current
         \<or> cfg_cgroup_root next \<noteq> cfg_cgroup_root current
         \<or> cfg_plugin_dir next \<noteq> cfg_plugin_dir current
         \<or> cfg_batch_size next \<noteq> cfg_batch_size current
         \<or> cfg_flush_interval next \<noteq> cfg_flush_interval current
         \<or> cfg_verbose next \<noteq> cfg_verbose current
      then None
      else let (rp, ap) = diff_components (cfg_probes current) (cfg_probes next);
               (rs, as) = diff_components (cfg_sinks current) (cfg_sinks next)
           in Some \<lparr>added_probes = ap, removed_probes = rp, added_sinks = as, removed_sinks = rs\<rparr>)"

section \<open>Settings\<close>

text \<open>
  Unknown settings are inert: setting one key changes no getter for another, whatever
  its type, so one file can be pushed to nodes running different builds.
\<close>

lemma settings_independent:
  assumes "key' \<noteq> key"
  shows "cc_has (cc_set key' v c) key = cc_has c key
    \<and> cc_get (cc_set key' v c) key s = cc_get c key s
    \<and> get_bool (cc_set key' v c) key b = get_bool c key b
    \<and> get_uint (cc_set key' v c) key n = get_uint c key n
    \<and> get_duration (cc_set key' v c) key d = get_duration c key d"
  using assms
  by (simp add: cc_has_def cc_get_def get_bool_def get_uint_def get_duration_def cc_set_def)

lemma settings_independent_witness:
  "get_uint (cc_set ''x'' ''junk'' [(''n'', ''12'')]) ''n'' 0 = get_uint [(''n'', ''12'')] ''n'' 0"
  using settings_independent [of "''x''" "''n''" "''junk''"] by simp

text \<open>
  The milliseconds of one unit; a bare number counts milliseconds.
\<close>

definition unit_ms :: "string \<Rightarrow> int option" where
  "unit_ms u =
     (if u = [] \<or> u = ''ms'' then Some 1 else if u = ''s'' then Some 1000
      else if u = ''m'' then Some 60000 else if u = ''h'' then Some 3600000 else None)"

lemma unit_ms_no_digit: "unit_ms (c # u) = Some k \<Longrightarrow> \<not> is_digit c"
  by (auto simp: unit_ms_def is_digit_iff split: if_splits)

lemma takeWhile_digits_unit:
  "\<forall>c \<in> set ds. is_digit c \<Longrightarrow> unit_ms u \<noteq> None \<Longrightarrow> takeWhile is_digit (ds @ u) = ds"
  by (cases u) (auto simp: takeWhile_all_digits takeWhile_digits dest: unit_ms_no_digit)

lemma parse_duration_unit:
  assumes "\<forall>c \<in> set ds. is_digit c" and "ds \<noteq> []" and "unit_ms u = Some k"
  shows "parse_duration_ms (ds @ u) =
    (if dec_value ds < 2 ^ 64 then Some (s64 (s64 (int (dec_value ds)) * k)) else None)"
proof -
  have "takeWhile is_digit (ds @ u) = ds" using assms by (intro takeWhile_digits_unit) auto
  moreover have "uint (of_nat (dec_value ds) :: u64) = int (dec_value ds)" if "dec_value ds < 2 ^ 64"
    using that unfolding unsigned_of_nat by (simp add: take_bit_nat_eq_self)
  ultimately show ?thesis
    using assms
    by (auto simp: parse_duration_ms_def c_strtoul_digits chrono_ms_def unit_ms_def Let_def
        split: if_splits)
qed

lemma parse_duration_Some:
  assumes "parse_duration_ms text = Some d"
  shows "\<exists>ds u k. text = ds @ u \<and> ds \<noteq> [] \<and> (\<forall>c \<in> set ds. is_digit c) \<and> unit_ms u = Some k"
proof -
  let ?ds = "takeWhile is_digit text" and ?u = "drop (length (takeWhile is_digit text)) text"
  have "text = ?ds @ ?u" by (simp flip: dropWhile_eq_drop)
  moreover have "?ds \<noteq> []" and "unit_ms ?u \<noteq> None"
    using assms by (auto simp: parse_duration_ms_def unit_ms_def Let_def split: if_splits prod.splits)
  moreover have "\<forall>c \<in> set ?ds. is_digit c" by (auto dest: set_takeWhileD)
  ultimately show ?thesis by blast
qed

text \<open>
  Durations: a text is accepted exactly when it is a number of at most 64 bits and a
  known unit, and the value is the number of milliseconds stored in a signed 64-bit count.
\<close>

lemma parse_duration_iff:
  "parse_duration_ms text = Some d \<longleftrightarrow>
     (\<exists>ds u k. text = ds @ u \<and> ds \<noteq> [] \<and> (\<forall>c \<in> set ds. is_digit c) \<and> dec_value ds < 2 ^ 64
        \<and> unit_ms u = Some k \<and> d = s64 (s64 (int (dec_value ds)) * k))"
proof
  assume some: "parse_duration_ms text = Some d"
  from parse_duration_Some [OF some] obtain ds u k where
    t: "text = ds @ u" "ds \<noteq> []" "\<forall>c \<in> set ds. is_digit c" "unit_ms u = Some k" by blast
  with some parse_duration_unit [OF t(3,2,4)] show "\<exists>ds u k. text = ds @ u \<and> ds \<noteq> []
      \<and> (\<forall>c \<in> set ds. is_digit c) \<and> dec_value ds < 2 ^ 64
      \<and> unit_ms u = Some k \<and> d = s64 (s64 (int (dec_value ds)) * k)"
    by (metis option.distinct(1) option.inject)
qed (auto simp: parse_duration_unit)

text \<open>
  Below \<open>2 ^ 63\<close> milliseconds the value is exact; the text \<^verbatim>\<open>10s\<close> means ten seconds.
\<close>

lemma parse_duration_exact:
  assumes "unit_ms u = Some k" and "int n * k < 2 ^ 63"
  shows "parse_duration_ms (dec_of_nat n @ u) = Some (int n * k)"
proof -
  have k: "1 \<le> k" using assms(1) by (auto simp: unit_ms_def split: if_splits)
  then have "int n * 1 \<le> int n * k" by (intro mult_left_mono) simp_all
  with assms(2) have "int n < 2 ^ 63" by simp
  moreover have "0 \<le> int n * k" using k by simp
  ultimately show ?thesis
    using assms parse_duration_unit [of "dec_of_nat n" u k] by (simp add: s64_id)
qed

lemma parse_duration_exact_witness: "parse_duration_ms ''10s'' = Some 10000"
proof -
  have "dec_of_nat 10 = ''10''" by code_simp
  with parse_duration_exact [of "''s''" 1000 10] show ?thesis by (simp add: unit_ms_def)
qed

text \<open>
  Above that bound the count wraps: a huge interval is read as a negative one instead of
  being refused, although its digits pass the range check.
\<close>

lemma parse_duration_negative: "parse_duration_ms ''18446744073709551615'' = Some (- 1)"
  by code_simp

section \<open>The reload difference\<close>

text \<open>Whether two tables run the same plugin under an id.\<close>

definition same_plugin ::
  "(string, component_config) std_map \<Rightarrow> (string, component_config) std_map \<Rightarrow> string \<Rightarrow> bool" where
  "same_plugin xs ys ident \<longleftrightarrow>
     (case (map_find xs ident, map_find ys ident) of
        (Some c, Some c') \<Rightarrow> plugin_of ident c = plugin_of ident c'
      | _ \<Rightarrow> False)"

lemma changed_ids_filter:
  "changed_ids xs ys = map fst (filter (\<lambda>(ident, c). case map_find ys ident of None \<Rightarrow> True
     | Some c' \<Rightarrow> plugin_of ident c \<noteq> plugin_of ident c') xs)"
  unfolding changed_ids_def by (induction xs) (auto split: option.split)

lemma changed_ids_sorted: "map_ok xs \<Longrightarrow> sorted_wrt (<) (changed_ids xs ys)"
  using map_ok_filter [of xs "\<lambda>(ident, c). case map_find ys ident of None \<Rightarrow> True
     | Some c' \<Rightarrow> plugin_of ident c \<noteq> plugin_of ident c'"]
  by (simp add: changed_ids_filter map_ok_def map_keys_def)

lemma set_changed_ids:
  "map_ok xs \<Longrightarrow>
     set (changed_ids xs ys) = {ident \<in> set (map_keys xs). \<not> same_plugin xs ys ident}"
  by (auto simp: changed_ids_filter map_simps same_plugin_def map_ok_in_set image_iff
      split: option.splits)

text \<open>
  What it means that removing one list of ids and then adding another takes one table to
  the other.
\<close>

definition diff_sound ::
  "(string, component_config) std_map \<Rightarrow> (string, component_config) std_map \<Rightarrow>
     string list \<Rightarrow> string list \<Rightarrow> bool" where
  "diff_sound current next removed added \<longleftrightarrow>
     distinct removed \<and> distinct added
     \<and> set removed \<subseteq> set (map_keys current)
     \<and> set (map_keys next) = (set (map_keys current) - set removed) \<union> set added
     \<and> (set (map_keys current) - set removed) \<inter> set added = {}
     \<and> set (map_keys current) - set removed = {ident. same_plugin current next ident}"

lemma diff_components_sound:
  assumes "map_ok current" and "map_ok next" and "diff_components current next = (removed, added)"
  shows "diff_sound current next removed added"
proof -
  have r: "removed = changed_ids current next" and a: "added = changed_ids next current"
    using assms(3) by (simp_all add: diff_components_def)
  have "same_plugin current next ident \<longleftrightarrow> same_plugin next current ident" for ident
    by (auto simp: same_plugin_def split: option.split)
  moreover have "same_plugin current next ident \<Longrightarrow>
      ident \<in> set (map_keys current) \<inter> set (map_keys next)" for ident
    by (auto simp: same_plugin_def map_simps split: option.splits)
  ultimately show ?thesis
    using changed_ids_sorted [OF assms(1)] changed_ids_sorted [OF assms(2)]
    by (auto simp: diff_sound_def r a set_changed_ids assms(1,2) strict_sorted_iff)
qed

lemma reload_diff_sound:
  assumes "diff_for_reload current next = Some d" and "config_ok current" and "config_ok next"
  shows "diff_sound (cfg_probes current) (cfg_probes next) (removed_probes d) (added_probes d)"
    and "diff_sound (cfg_sinks current) (cfg_sinks next) (removed_sinks d) (added_sinks d)"
  using assms
  by (auto simp: diff_for_reload_def config_ok_def diff_components_sound split: if_splits prod.splits)

text \<open>What is added, in the order of the new table.\<close>

lemma changed_ids_keys:
  "map_ok xs \<Longrightarrow> changed_ids xs ys = [i \<leftarrow> map_keys xs. \<not> same_plugin ys xs i]"
proof -
  assume ok: "map_ok xs"
  then have "map_find xs i = Some c" if "(i, c) \<in> set xs" for i c
    using that by (simp add: map_ok_in_set)
  then show ?thesis
    unfolding changed_ids_filter map_keys_def filter_map comp_def
    by (intro arg_cong [of _ _ "map fst"] filter_cong) (auto simp: same_plugin_def split: option.split)
qed

lemma reload_added:
  assumes "diff_for_reload current next = Some d" and "config_ok current" and "config_ok next"
  shows "added_sinks d = [i \<leftarrow> map_keys (cfg_sinks next). \<not> same_plugin (cfg_sinks current) (cfg_sinks next) i]"
    and "added_probes d = [i \<leftarrow> map_keys (cfg_probes next). \<not> same_plugin (cfg_probes current) (cfg_probes next) i]"
  using assms
  by (auto simp: diff_for_reload_def config_ok_def diff_components_def changed_ids_keys
      split: if_splits prod.splits)

text \<open>
  The reload difference is sound and minimal: removing and adding the listed ids takes
  the running set to the new configuration, an id in both configurations is left alone
  exactly when its plugin is the same, and no id is listed twice.
\<close>

lemma diff_for_reload_sound:
  assumes "diff_for_reload current next = Some d" and "config_ok current" and "config_ok next"
  shows "diff_sound (cfg_probes current) (cfg_probes next) (removed_probes d) (added_probes d)
    \<and> diff_sound (cfg_sinks current) (cfg_sinks next) (removed_sinks d) (added_sinks d)"
  using reload_diff_sound [OF assms] by blast

lemma diff_for_reload_sound_witness:
  "set (added_sinks (the (diff_for_reload
      (default_config\<lparr>cfg_sinks := [(''a'', []), (''b'', [])]\<rparr>)
      (default_config\<lparr>cfg_sinks := [(''a'', [(''plugin'', ''null'')]), (''c'', [])]\<rparr>))))
   = {''a'', ''c''}"
proof -
  let ?cur = "default_config\<lparr>cfg_sinks := [(''a'', []), (''b'', [])]\<rparr> :: config"
  let ?next = "default_config\<lparr>cfg_sinks := [(''a'', [(''plugin'', ''null'')]), (''c'', [])]\<rparr> :: config"
  have d: "diff_for_reload ?cur ?next =
      Some \<lparr>added_probes = [], removed_probes = [], added_sinks = [''a'', ''c''], removed_sinks = [''a'', ''b'']\<rparr>"
    by code_simp
  have ok: "config_ok ?cur" "config_ok ?next"
    by (simp_all add: config_ok_def default_config_def map_ok_def map_keys_def)
  show ?thesis using diff_for_reload_sound [OF d ok] d by simp
qed

definition live_settings :: "config \<Rightarrow> config \<Rightarrow> bool" where
  "live_settings current next \<longleftrightarrow>
     next\<lparr>cfg_probes := cfg_probes current, cfg_sinks := cfg_sinks current\<rparr> = current"

lemma diff_for_reload_None: "diff_for_reload current next = None \<longleftrightarrow> \<not> live_settings current next"
  by (cases current; cases "next") (auto simp: diff_for_reload_def live_settings_def split: prod.split)

lemma changed_ids_Nil:
  "map_ok xs \<Longrightarrow> changed_ids xs ys = [] \<longleftrightarrow> (\<forall>ident \<in> set (map_keys xs). same_plugin xs ys ident)"
  using set_changed_ids [of xs ys] by (auto simp flip: set_empty)

definition same_components ::
  "(string, component_config) std_map \<Rightarrow> (string, component_config) std_map \<Rightarrow> bool" where
  "same_components xs ys \<longleftrightarrow>
     set (map_keys xs) = set (map_keys ys) \<and> list_all (same_plugin xs ys) (map_keys xs)"

lemma same_plugin_sym: "same_plugin xs ys ident \<longleftrightarrow> same_plugin ys xs ident"
  by (auto simp: same_plugin_def split: option.split)

lemma diff_components_Nil:
  assumes "map_ok xs" and "map_ok ys"
  shows "diff_components xs ys = ([], []) \<longleftrightarrow> same_components xs ys"
proof -
  have "same_plugin xs ys ident \<Longrightarrow> ident \<in> set (map_keys xs) \<inter> set (map_keys ys)" for ident
    by (auto simp: same_plugin_def map_simps split: option.splits)
  then show ?thesis
    by (auto simp: diff_components_def changed_ids_Nil [OF assms(1)] changed_ids_Nil [OF assms(2)]
        same_components_def list_all_iff same_plugin_sym [of ys xs])
qed

text \<open>
  Settings alone never disturb a running component: the difference is empty exactly
  when both configurations have the same ids with the same plugins, and it is refused
  exactly when a setting without a live path changed.
\<close>

lemma diff_for_reload_quiet:
  assumes "config_ok current" and "config_ok next"
  shows "diff_for_reload current next =
      Some \<lparr>added_probes = [], removed_probes = [], added_sinks = [], removed_sinks = []\<rparr> \<longleftrightarrow>
    live_settings current next \<and> same_components (cfg_probes current) (cfg_probes next)
      \<and> same_components (cfg_sinks current) (cfg_sinks next)"
proof -
  have "live_settings current next \<Longrightarrow> diff_for_reload current next =
    (let (rp, ap) = diff_components (cfg_probes current) (cfg_probes next);
         (rs, as) = diff_components (cfg_sinks current) (cfg_sinks next)
     in Some \<lparr>added_probes = ap, removed_probes = rp, added_sinks = as, removed_sinks = rs\<rparr>)"
    using diff_for_reload_None [of current "next"] by (auto simp: diff_for_reload_def)
  then show ?thesis
    using assms diff_for_reload_None [of current "next"]
      diff_components_Nil [of "cfg_probes current" "cfg_probes next"]
      diff_components_Nil [of "cfg_sinks current" "cfg_sinks next"]
    by (cases "live_settings current next") (auto simp: config_ok_def split: prod.splits)
qed

lemma diff_for_reload_quiet_witness:
  "diff_for_reload (default_config\<lparr>cfg_sinks := [(''a'', [])]\<rparr>)
     (default_config\<lparr>cfg_sinks := [(''a'', [(''timeout'', ''9s'')])]\<rparr>) =
   Some \<lparr>added_probes = [], removed_probes = [], added_sinks = [], removed_sinks = []\<rparr>"
proof -
  let ?cur = "default_config\<lparr>cfg_sinks := [(''a'', [])]\<rparr> :: config"
  let ?next = "default_config\<lparr>cfg_sinks := [(''a'', [(''timeout'', ''9s'')])]\<rparr> :: config"
  have "config_ok ?cur" "config_ok ?next"
    by (simp_all add: config_ok_def default_config_def map_ok_def map_keys_def)
  moreover have "live_settings ?cur ?next" by (simp add: live_settings_def default_config_def)
  moreover have "same_components (cfg_sinks ?cur) (cfg_sinks ?next)"
    by (simp add: same_components_def same_plugin_def map_keys_def plugin_of_def cc_get_def)
  ultimately show ?thesis
    using diff_for_reload_quiet [of ?cur ?next]
    by (simp add: same_components_def map_keys_def default_config_def)
qed

end
