(* ===== verification/PluginLoader.thy ===== *)
theory PluginLoader
  imports Config
begin

text \<open>
  \<^verbatim>\<open>core/registry.h\<close> and \<^verbatim>\<open>core/plugin_loader.cpp\<close>. The shared objects on disk are an argument:
  for a path, whether \<^verbatim>\<open>dlopen\<close> succeeds and which of the two entry points the object
  exports. \<^verbatim>\<open>dlopen\<close> of one file always gives the same handle (here: its path) and counts
  references; \<^verbatim>\<open>dlclose\<close> gives one back, and the object is unmapped when none is left.
\<close>

section \<open>The registry\<close>

type_synonym 'c factory = "component_config \<Rightarrow> 'c option"
type_synonym 'c registry = "(string, 'c factory) std_map"

definition registry_contains :: "string \<Rightarrow> 'c registry \<Rightarrow> bool" where
  "registry_contains name r \<longleftrightarrow> map_find r name \<noteq> None"

text \<open>\<^verbatim>\<open>emplace\<close>: an existing entry stays.\<close>

definition registry_add :: "string \<Rightarrow> 'c factory \<Rightarrow> 'c registry \<Rightarrow> 'c registry" where
  "registry_add name factory r =
     (if registry_contains name r then r else map_set name factory r)"

definition registry_create :: "string \<Rightarrow> component_config \<Rightarrow> 'c registry \<Rightarrow> 'c option" where
  "registry_create name config r =
     (case map_find r name of None \<Rightarrow> None | Some factory \<Rightarrow> factory config)"

definition registry_names :: "'c registry \<Rightarrow> string list" where
  "registry_names r = map_keys r"

lemma registry_add_find [map_simps]:
  "map_find (registry_add name f r) =
     (if map_find r name = None then (map_find r)(name \<mapsto> f) else map_find r)"
  by (simp add: registry_add_def registry_contains_def smap.find_put)

section \<open>The loader\<close>

record ('p, 's) shared_object =
  so_register_probe :: "('p registry \<Rightarrow> 'p registry) option"
  so_register_sink :: "('s registry \<Rightarrow> 's registry) option"

text \<open>\<open>ld_refs\<close> is the dynamic linker's reference count per object.\<close>

record loader =
  ld_plugin_dir :: string
  ld_probe_handles :: "(string, string) std_map"
  ld_sink_handles :: "(string, string) std_map"
  ld_refs :: "string \<Rightarrow> nat"

definition new_loader :: "string \<Rightarrow> loader" where
  "new_loader plugin_dir =
     \<lparr>ld_plugin_dir = plugin_dir, ld_probe_handles = [], ld_sink_handles = [], ld_refs = (\<lambda>_. 0)\<rparr>"

definition dl_open :: "string \<Rightarrow> (string \<Rightarrow> nat) \<Rightarrow> string \<Rightarrow> nat" where
  "dl_open h refs = refs(h := refs h + 1)"

definition dl_close :: "string \<Rightarrow> (string \<Rightarrow> nat) \<Rightarrow> string \<Rightarrow> nat" where
  "dl_close h refs = refs(h := refs h - 1)"

definition plugin_path :: "string \<Rightarrow> string \<Rightarrow> string \<Rightarrow> string" where
  "plugin_path dir kind name =
     dir @ ''/'' @ kind @ ''s/libst_'' @ kind @ ''_'' @ name @ ''.so''"

definition open_plugin ::
  "'o option \<Rightarrow> ('o \<Rightarrow> ('c registry \<Rightarrow> 'c registry) option) \<Rightarrow> string \<Rightarrow> string \<Rightarrow> component_config
     \<Rightarrow> (string \<Rightarrow> nat) \<Rightarrow> ('c \<times> string) option \<times> (string \<Rightarrow> nat)" where
  "open_plugin object dlsym path plugin config refs =
     (case object of
        None \<Rightarrow> (None, refs)
      | Some so \<Rightarrow>
          (let handle = path; refs1 = dl_open handle refs in
           case dlsym so of
             None \<Rightarrow> (None, dl_close handle refs1)
           | Some entry \<Rightarrow>
               (let registry = entry [];
                    registered = registry_contains plugin registry;
                    component = (if registered then registry_create plugin config registry else None)
                in if \<not> registered then (None, dl_close handle refs1)
                   else case component of
                     None \<Rightarrow> (None, dl_close handle refs1)
                   | Some c \<Rightarrow> (Some (c, handle), refs1))))"

definition load_probe ::
  "(string \<Rightarrow> ('p, 's) shared_object option) \<Rightarrow> string \<Rightarrow> string \<Rightarrow> component_config \<Rightarrow> loader
     \<Rightarrow> 'p option \<times> loader" where
  "load_probe disk ident plugin config l =
     (let path = plugin_path (ld_plugin_dir l) ''probe'' plugin in
      case open_plugin (disk path) so_register_probe path plugin config (ld_refs l) of
        (None, refs) \<Rightarrow> (None, l\<lparr>ld_refs := refs\<rparr>)
      | (Some (c, handle), refs) \<Rightarrow>
          (Some c, l\<lparr>ld_probe_handles := map_set ident handle (ld_probe_handles l), ld_refs := refs\<rparr>))"

definition load_sink ::
  "(string \<Rightarrow> ('p, 's) shared_object option) \<Rightarrow> string \<Rightarrow> string \<Rightarrow> component_config \<Rightarrow> loader
     \<Rightarrow> 's option \<times> loader" where
  "load_sink disk ident plugin config l =
     (let path = plugin_path (ld_plugin_dir l) ''sink'' plugin in
      case open_plugin (disk path) so_register_sink path plugin config (ld_refs l) of
        (None, refs) \<Rightarrow> (None, l\<lparr>ld_refs := refs\<rparr>)
      | (Some (c, handle), refs) \<Rightarrow>
          (Some c, l\<lparr>ld_sink_handles := map_set ident handle (ld_sink_handles l), ld_refs := refs\<rparr>))"

definition close_handle ::
  "(string, string) std_map \<Rightarrow> string \<Rightarrow> (string \<Rightarrow> nat) \<Rightarrow> (string, string) std_map \<times> (string \<Rightarrow> nat)" where
  "close_handle handles ident refs =
     (case map_find handles ident of
        None \<Rightarrow> (handles, refs)
      | Some handle \<Rightarrow> (map_erase ident handles, dl_close handle refs))"

definition unload_probe :: "string \<Rightarrow> loader \<Rightarrow> loader" where
  "unload_probe ident l =
     (let (handles, refs) = close_handle (ld_probe_handles l) ident (ld_refs l) in
      l\<lparr>ld_probe_handles := handles, ld_refs := refs\<rparr>)"

definition unload_sink :: "string \<Rightarrow> loader \<Rightarrow> loader" where
  "unload_sink ident l =
     (let (handles, refs) = close_handle (ld_sink_handles l) ident (ld_refs l) in
      l\<lparr>ld_sink_handles := handles, ld_refs := refs\<rparr>)"

section \<open>References are balanced\<close>

text \<open>How many entries of a handle map hold a handle.\<close>

definition holders :: "string \<Rightarrow> (string, string) std_map \<Rightarrow> nat" where
  "holders h m = length (filter (\<lambda>p. snd p = h) m)"

definition loader_inv :: "loader \<Rightarrow> bool" where
  "loader_inv l \<longleftrightarrow>
     map_ok (ld_probe_handles l) \<and> map_ok (ld_sink_handles l)
     \<and> (\<forall>h. ld_refs l h = holders h (ld_probe_handles l) + holders h (ld_sink_handles l))"

lemma holders_set:
  "map_find m k = None \<Longrightarrow> holders h (map_set k v m) = holders h m + of_bool (v = h)"
  by (induction m) (auto simp: holders_def split: if_splits)

lemma holders_erase:
  assumes "map_ok m" and "map_find m k = Some v"
  shows "holders h m = holders h (map_erase k m) + of_bool (v = h)"
  using assms
proof (induction m)
  case (Cons p m)
  obtain k' v' where p: "p = (k', v')" by (cases p)
  have ok: "map_ok m" and notin: "k' \<notin> set (map_keys m)"
    using Cons.prems(1) p by (auto simp: map_ok_def map_keys_def)
  show ?case
  proof (cases "k' = k")
    case True
    with notin have "map_erase k m = m"
      by (auto simp: map_erase_def map_keys_def filter_id_conv rev_image_eqI)
    with True Cons.prems(2) p show ?thesis by (simp add: holders_def map_erase_def)
  next
    case False
    with Cons.IH [OF ok] Cons.prems(2) p show ?thesis by (simp add: holders_def map_erase_def)
  qed
qed simp

lemma open_plugin_refs:
  "snd (open_plugin object dlsym path plugin config refs) =
     (case fst (open_plugin object dlsym path plugin config refs) of
        None \<Rightarrow> refs | Some (c, h) \<Rightarrow> refs(h := refs h + 1))"
  by (auto simp: open_plugin_def Let_def dl_open_def dl_close_def split: option.splits)

lemma open_plugin_Some:
  "fst (open_plugin object dlsym path plugin config refs) = Some (c, h) \<longleftrightarrow>
     h = path \<and> (\<exists>so entry. object = Some so \<and> dlsym so = Some entry
        \<and> registry_create plugin config (entry []) = Some c)"
  by (auto simp: open_plugin_def Let_def registry_create_def registry_contains_def split: option.splits)

lemma loader_inv_load_probe:
  "loader_inv l \<Longrightarrow> map_find (ld_probe_handles l) ident = None
     \<Longrightarrow> loader_inv (snd (load_probe disk ident plugin config l))"
  using open_plugin_refs [of "disk (plugin_path (ld_plugin_dir l) ''probe'' plugin)" so_register_probe
      "plugin_path (ld_plugin_dir l) ''probe'' plugin" plugin config "ld_refs l"]
  by (auto simp: load_probe_def Let_def loader_inv_def holders_set split: prod.splits option.splits)

lemma loader_inv_load_sink:
  "loader_inv l \<Longrightarrow> map_find (ld_sink_handles l) ident = None
     \<Longrightarrow> loader_inv (snd (load_sink disk ident plugin config l))"
  using open_plugin_refs [of "disk (plugin_path (ld_plugin_dir l) ''sink'' plugin)" so_register_sink
      "plugin_path (ld_plugin_dir l) ''sink'' plugin" plugin config "ld_refs l"]
  by (auto simp: load_sink_def Let_def loader_inv_def holders_set split: prod.splits option.splits)

lemma loader_inv_unload:
  assumes "loader_inv l"
  shows "loader_inv (unload_probe ident l)" and "loader_inv (unload_sink ident l)"
  using assms holders_erase [of "ld_probe_handles l" ident] holders_erase [of "ld_sink_handles l" ident]
  by (auto simp: unload_probe_def unload_sink_def close_handle_def loader_inv_def dl_close_def
      split: option.splits)

section \<open>What the daemon relies on\<close>

text \<open>
  The contract for one kind of component: loading adds the instance exactly when it
  succeeds, unloading removes it, and the accounts stay balanced.
\<close>

locale component_loader =
  fixes load :: "string \<Rightarrow> string \<Rightarrow> component_config \<Rightarrow> 'l \<Rightarrow> 'c option \<times> 'l"
    and unload :: "string \<Rightarrow> 'l \<Rightarrow> 'l"
    and held :: "'l \<Rightarrow> string set"
    and good :: "'l \<Rightarrow> bool"
  assumes load_good: "good l \<Longrightarrow> i \<notin> held l \<Longrightarrow> good (snd (load i p c l))"
    and load_held: "held (snd (load i p c l)) = (if fst (load i p c l) = None then held l else insert i (held l))"
    and unload_good: "good l \<Longrightarrow> good (unload i l)"
    and unload_held: "held (unload i l) = held l - {i}"
begin

lemma load_unload_held: "i \<notin> held l \<Longrightarrow> held (unload i (snd (load i p c l))) = held l"
  by (auto simp: load_held unload_held)

lemma load_unload_good: "good l \<Longrightarrow> i \<notin> held l \<Longrightarrow> good (unload i (snd (load i p c l)))"
  by (simp add: load_good unload_good)

lemma load_SomeD: "load i p c l = (Some x, l') \<Longrightarrow> held l' = insert i (held l)"
  using load_held [of i p c l] by simp

lemma load_NoneD: "load i p c l = (None, l') \<Longrightarrow> held l' = held l"
  using load_held [of i p c l] by simp

end

interpretation probe_loader: component_loader "load_probe disk" unload_probe
    "\<lambda>l. dom (map_find (ld_probe_handles l))" loader_inv
  for disk :: "string \<Rightarrow> ('p, 's) shared_object option"
proof
  fix l :: loader and i p :: string and c :: component_config
  show "loader_inv l \<Longrightarrow> i \<notin> dom (map_find (ld_probe_handles l))
      \<Longrightarrow> loader_inv (snd (load_probe disk i p c l))"
    by (rule loader_inv_load_probe) auto
  show "dom (map_find (ld_probe_handles (snd (load_probe disk i p c l)))) =
     (if fst (load_probe disk i p c l) = None then dom (map_find (ld_probe_handles l))
      else insert i (dom (map_find (ld_probe_handles l))))"
    by (auto simp: load_probe_def Let_def smap.find_put split: prod.splits option.splits if_splits)
  show "loader_inv l \<Longrightarrow> loader_inv (unload_probe i l)" by (rule loader_inv_unload)
  show "dom (map_find (ld_probe_handles (unload_probe i l))) = dom (map_find (ld_probe_handles l)) - {i}"
    by (auto simp: unload_probe_def close_handle_def smap.find_erase split: option.splits)
qed

interpretation sink_loader: component_loader "load_sink disk" unload_sink
    "\<lambda>l. dom (map_find (ld_sink_handles l))" loader_inv
  for disk :: "string \<Rightarrow> ('p, 's) shared_object option"
proof
  fix l :: loader and i p :: string and c :: component_config
  show "loader_inv l \<Longrightarrow> i \<notin> dom (map_find (ld_sink_handles l))
      \<Longrightarrow> loader_inv (snd (load_sink disk i p c l))"
    by (rule loader_inv_load_sink) auto
  show "dom (map_find (ld_sink_handles (snd (load_sink disk i p c l)))) =
     (if fst (load_sink disk i p c l) = None then dom (map_find (ld_sink_handles l))
      else insert i (dom (map_find (ld_sink_handles l))))"
    by (auto simp: load_sink_def Let_def smap.find_put split: prod.splits option.splits if_splits)
  show "loader_inv l \<Longrightarrow> loader_inv (unload_sink i l)" by (rule loader_inv_unload)
  show "dom (map_find (ld_sink_handles (unload_sink i l))) = dom (map_find (ld_sink_handles l)) - {i}"
    by (auto simp: unload_sink_def close_handle_def smap.find_erase split: option.splits)
qed

lemma loader_frame [simp]:
  "ld_sink_handles (snd (load_probe disk i p c l)) = ld_sink_handles l"
  "ld_probe_handles (snd (load_sink disk i p c l)) = ld_probe_handles l"
  "ld_sink_handles (unload_probe i l) = ld_sink_handles l"
  "ld_probe_handles (unload_sink i l) = ld_probe_handles l"
  by (auto simp: load_probe_def load_sink_def unload_probe_def unload_sink_def Let_def
      split: prod.splits option.splits)

text \<open>
  What a caller does: load an instance that is not loaded, or unload one.
\<close>

inductive loader_step ::
  "(string \<Rightarrow> ('p, 's) shared_object option) \<Rightarrow> loader \<Rightarrow> loader \<Rightarrow> bool" for disk where
  loads_probe: "map_find (ld_probe_handles l) i = None
     \<Longrightarrow> loader_step disk l (snd (load_probe disk i p c l))"
| loads_sink: "map_find (ld_sink_handles l) i = None
     \<Longrightarrow> loader_step disk l (snd (load_sink disk i p c l))"
| unloads_probe: "loader_step disk l (unload_probe i l)"
| unloads_sink: "loader_step disk l (unload_sink i l)"

interpretation loader_sys: invariant_system "\<lambda>l. l = new_loader dir" "loader_step disk" loader_inv
  for dir and disk :: "string \<Rightarrow> ('p, 's) shared_object option"
proof
  fix l l'
  show "l = new_loader dir \<Longrightarrow> loader_inv l"
    by (simp add: loader_inv_def new_loader_def holders_def)
  show "loader_inv l \<Longrightarrow> loader_step disk l l' \<Longrightarrow> loader_inv l'"
    by (erule loader_step.cases)
      (auto intro: loader_inv_load_probe loader_inv_load_sink loader_inv_unload)
qed

section \<open>Properties\<close>

text \<open>
  A load succeeds exactly when the object is there, exports its entry point, registers
  the plugin under its name and the factory accepts the settings; a load that fails leaves
  the loader as it was, with its reference given back.
\<close>

lemma load_probe_outcome:
  "case load_probe disk ident plugin config l of (result, l') \<Rightarrow>
     (case result of
        None \<Rightarrow> l' = l
      | Some c \<Rightarrow>
          (\<exists>so entry. disk (plugin_path (ld_plugin_dir l) ''probe'' plugin) = Some so
             \<and> so_register_probe so = Some entry
             \<and> registry_create plugin config (entry []) = Some c)
          \<and> map_find (ld_probe_handles l') ident
              = Some (plugin_path (ld_plugin_dir l) ''probe'' plugin))
     \<and> (result = None \<longleftrightarrow>
          (case disk (plugin_path (ld_plugin_dir l) ''probe'' plugin) of
             None \<Rightarrow> True
           | Some so \<Rightarrow> (case so_register_probe so of
               None \<Rightarrow> True | Some entry \<Rightarrow> registry_create plugin config (entry []) = None)))"
proof -
  let ?path = "plugin_path (ld_plugin_dir l) ''probe'' plugin"
  obtain res refs where o: "open_plugin (disk ?path) so_register_probe ?path plugin config (ld_refs l) = (res, refs)"
    by (metis prod.exhaust)
  show ?thesis
  proof (cases res)
    case None
    with o have refs: "refs = ld_refs l"
      using open_plugin_refs [of "disk ?path" so_register_probe ?path plugin config "ld_refs l"] by simp
    have "\<forall>c. fst (open_plugin (disk ?path) so_register_probe ?path plugin config (ld_refs l)) \<noteq> Some (c, ?path)"
      using o None by simp
    then show ?thesis
      unfolding open_plugin_Some using o None refs
      by (auto simp: load_probe_def Let_def split: option.splits)
  next
    case (Some p)
    with o open_plugin_Some [of "disk ?path" so_register_probe ?path plugin config "ld_refs l" "fst p" "snd p"]
    show ?thesis
      by (cases p) (auto simp: load_probe_def Let_def smap.find_put)
  qed
qed

text \<open>
  C28. \<^verbatim>\<open>dlopen\<close> references are balanced over any history of loads and unloads: each object
  has as many as there are loaded instances built from it, so two instances of one plugin
  share a mapping and it goes away with the last of them.
\<close>

theorem loader_balanced:
  assumes "(loader_step disk)\<^sup>*\<^sup>* (new_loader dir) l"
  shows "ld_refs l h = holders h (ld_probe_handles l) + holders h (ld_sink_handles l)"
  using loader_sys.reachable_inv [OF refl assms] by (simp add: loader_inv_def)

definition example_object :: "(nat, nat) shared_object" where
  "example_object = \<lparr>so_register_probe = None,
     so_register_sink = Some (registry_add ''http'' (\<lambda>_. Some 1))\<rparr>"

lemma loader_balanced_witness:
  "let disk = (\<lambda>path. if path = ''d/sinks/libst_sink_http.so'' then Some example_object else None);
       l1 = snd (load_sink disk ''a'' ''http'' [] (new_loader ''d''));
       l2 = snd (load_sink disk ''b'' ''http'' [] l1)
   in ld_refs (unload_sink ''a'' l2) ''d/sinks/libst_sink_http.so'' = 1"
proof -
  define disk where
    "disk = (\<lambda>path. if path = ''d/sinks/libst_sink_http.so'' then Some example_object else None)"
  define l1 where "l1 = snd (load_sink disk ''a'' ''http'' [] (new_loader ''d''))"
  define l2 where "l2 = snd (load_sink disk ''b'' ''http'' [] l1)"
  have "loader_step disk (new_loader ''d'') l1"
    unfolding l1_def by (rule loader_step.loads_sink) (simp add: new_loader_def)
  moreover have "map_find (ld_sink_handles l1) ''b'' = None"
    unfolding l1_def disk_def by code_simp
  then have "loader_step disk l1 l2"
    unfolding l2_def by (rule loader_step.loads_sink)
  moreover have "loader_step disk l2 (unload_sink ''a'' l2)" by (rule loader_step.unloads_sink)
  ultimately have "(loader_step disk)\<^sup>*\<^sup>* (new_loader ''d'') (unload_sink ''a'' l2)"
    by (meson converse_rtranclp_into_rtranclp rtranclp.rtrancl_refl)
  from loader_balanced [OF this, of "''d/sinks/libst_sink_http.so''"]
  have "ld_refs (unload_sink ''a'' l2) ''d/sinks/libst_sink_http.so''
    = holders ''d/sinks/libst_sink_http.so'' (ld_probe_handles (unload_sink ''a'' l2))
      + holders ''d/sinks/libst_sink_http.so'' (ld_sink_handles (unload_sink ''a'' l2))" .
  also have "\<dots> = 1" unfolding l2_def l1_def disk_def by code_simp
  finally show ?thesis by (simp only: Let_def l2_def l1_def disk_def)
qed

end
