(* ===== verification/Wire.thy ===== *)
theory Wire
  imports Prelude
begin

text \<open>
  \<^verbatim>\<open>core/events.h\<close> and the parts of the ring-buffer path every event source shares: the
  common header, its little-endian layout in memory (the struct is read straight out of
  the ring buffer), NUL-terminated character arrays, and the handler shape of
  \<^verbatim>\<open>Probe::on_event\<close>: drop a short event, decode, translate.
\<close>

section \<open>Little-endian fields\<close>

fun le_bytes :: "nat \<Rightarrow> nat \<Rightarrow> u8 list" where
  "le_bytes 0 n = []"
| "le_bytes (Suc k) n = of_nat n # le_bytes k (n div 256)"

fun le_value :: "u8 list \<Rightarrow> nat" where
  "le_value [] = 0"
| "le_value (b # bs) = unat b + 256 * le_value bs"

lemma length_le_bytes [simp]: "length (le_bytes k n) = k"
  by (induction k arbitrary: n) simp_all

lemma le_value_le_bytes [simp]: "le_value (le_bytes k n) = n mod 256 ^ k"
proof (induction k arbitrary: n)
  case 0
  then show ?case by simp
next
  case (Suc k)
  have "n mod 256 ^ Suc k = n mod 256 + 256 * (n div 256 mod 256 ^ k)"
    by (simp add: mod_mult2_eq)
  with Suc show ?case by (simp add: unat_of_nat)
qed

definition put_u64 :: "u64 \<Rightarrow> u8 list" where "put_u64 w = le_bytes 8 (unat w)"
definition put_u32 :: "u32 \<Rightarrow> u8 list" where "put_u32 w = le_bytes 4 (unat w)"
definition put_chars :: "string \<Rightarrow> u8 list" where "put_chars s = map (\<lambda>c. of_nat (of_char c)) s"

definition u64_at :: "u8 list \<Rightarrow> nat \<Rightarrow> u64" where
  "u64_at bs off = of_nat (le_value (take 8 (drop off bs)))"

definition u32_at :: "u8 list \<Rightarrow> nat \<Rightarrow> u32" where
  "u32_at bs off = of_nat (le_value (take 4 (drop off bs)))"

definition chars_at :: "u8 list \<Rightarrow> nat \<Rightarrow> nat \<Rightarrow> string" where
  "chars_at bs off n = map (\<lambda>b. char_of (unat b)) (take n (drop off bs))"

lemma put_lengths [simp]:
  "length (put_u64 w) = 8" "length (put_u32 v) = 4" "length (put_chars s) = length s"
  by (simp_all add: put_u64_def put_u32_def put_chars_def)

lemma u64_at_put: "length pre = off \<Longrightarrow> u64_at (pre @ put_u64 w @ rest) off = w"
  using unsigned_less [of w, where 'a = nat] by (simp add: u64_at_def put_u64_def)

lemma u32_at_put: "length pre = off \<Longrightarrow> u32_at (pre @ put_u32 w @ rest) off = w"
  using unsigned_less [of w, where 'a = nat] by (simp add: u32_at_def put_u32_def)

lemma char_byte: "char_of (unat (of_nat (of_char c) :: u8)) = c"
  by (simp add: unat_of_nat)

lemma chars_at_put:
  "length pre = off \<Longrightarrow> length s = n \<Longrightarrow> chars_at (pre @ put_chars s @ rest) off n = s"
  by (simp add: chars_at_def put_chars_def o_def char_byte)

section \<open>The common header\<close>

record st_event_hdr =
  hdr_ts_ns :: u64
  hdr_cgroup_id :: u64
  hdr_type :: u32
  hdr_pid :: u32
  hdr_tid :: u32
  hdr_uid :: u32

definition ST_COMM_LEN :: nat where "ST_COMM_LEN = 16"

text \<open>\<^verbatim>\<open>sizeof(struct st_event_hdr)\<close>: every field is naturally aligned, so there is no padding.\<close>

definition hdr_size :: nat where "hdr_size = 32"

definition encode_hdr :: "st_event_hdr \<Rightarrow> u8 list" where
  "encode_hdr h = put_u64 (hdr_ts_ns h) @ put_u64 (hdr_cgroup_id h) @ put_u32 (hdr_type h)
     @ put_u32 (hdr_pid h) @ put_u32 (hdr_tid h) @ put_u32 (hdr_uid h)"

definition decode_hdr :: "u8 list \<Rightarrow> st_event_hdr" where
  "decode_hdr bs =
     \<lparr>hdr_ts_ns = u64_at bs 0, hdr_cgroup_id = u64_at bs 8, hdr_type = u32_at bs 16,
      hdr_pid = u32_at bs 20, hdr_tid = u32_at bs 24, hdr_uid = u32_at bs 28\<rparr>"

lemma length_encode_hdr [simp]: "length (encode_hdr h) = hdr_size"
  by (simp add: encode_hdr_def hdr_size_def)

lemma decode_encode_hdr [simp]: "decode_hdr (encode_hdr h @ rest) = h"
proof -
  obtain ts cg ty pid tid uid where h:
    "h = \<lparr>hdr_ts_ns = ts, hdr_cgroup_id = cg, hdr_type = ty, hdr_pid = pid, hdr_tid = tid, hdr_uid = uid\<rparr>"
    by (cases h)
  have "u64_at (encode_hdr h @ rest) 0 = ts"
    using u64_at_put [of "[]" 0 ts] by (simp add: h encode_hdr_def)
  moreover have "u64_at (encode_hdr h @ rest) 8 = cg"
    using u64_at_put [of "put_u64 ts" 8 cg] by (simp add: h encode_hdr_def)
  moreover have "u32_at (encode_hdr h @ rest) 16 = ty"
    using u32_at_put [of "put_u64 ts @ put_u64 cg" 16 ty] by (simp add: h encode_hdr_def)
  moreover have "u32_at (encode_hdr h @ rest) 20 = pid"
    using u32_at_put [of "put_u64 ts @ put_u64 cg @ put_u32 ty" 20 pid]
    by (simp add: h encode_hdr_def)
  moreover have "u32_at (encode_hdr h @ rest) 24 = tid"
    using u32_at_put [of "put_u64 ts @ put_u64 cg @ put_u32 ty @ put_u32 pid" 24 tid]
    by (simp add: h encode_hdr_def)
  moreover have "u32_at (encode_hdr h @ rest) 28 = uid"
    using u32_at_put [of "put_u64 ts @ put_u64 cg @ put_u32 ty @ put_u32 pid @ put_u32 tid" 28 uid]
    by (simp add: h encode_hdr_def)
  ultimately show ?thesis by (simp add: decode_hdr_def h)
qed

lemma u32_at_after_hdr: "u32_at (encode_hdr h @ put_u32 w @ rest) 32 = w"
  by (rule u32_at_put) (simp add: hdr_size_def)

section \<open>Character arrays\<close>

definition NUL :: char where "NUL = CHR 0x00"

definition strnlen :: "string \<Rightarrow> nat \<Rightarrow> nat" where
  "strnlen buf n = length (takeWhile (\<lambda>c. c \<noteq> NUL) (take n buf))"

text \<open>\<^verbatim>\<open>std::string::assign(buf, strnlen(buf, n))\<close>.\<close>

definition c_string :: "string \<Rightarrow> nat \<Rightarrow> string" where
  "c_string buf n = take (strnlen buf n) buf"

lemma c_string_eq: "c_string buf n = takeWhile (\<lambda>c. c \<noteq> NUL) (take n buf)"
proof -
  have "takeWhile (\<lambda>c. c \<noteq> NUL) (take n buf) = take (strnlen buf n) (take n buf)"
    unfolding strnlen_def by (rule takeWhile_eq_take)
  moreover have "strnlen buf n \<le> n"
    using length_takeWhile_le [of "\<lambda>c. c \<noteq> NUL" "take n buf"] by (simp add: strnlen_def)
  ultimately show ?thesis by (simp add: c_string_def min_def)
qed

lemma c_string_length: "length (c_string buf n) \<le> n"
  using length_takeWhile_le [of "\<lambda>c. c \<noteq> NUL" "take n buf"] by (simp add: c_string_eq)

text \<open>
  \<^verbatim>\<open>bpf_probe_read_kernel_str(dst, sz, src)\<close>: at most \<open>sz - 1\<close> characters and a NUL;
  the rest of the destination keeps what it held.
\<close>

definition probe_read_str :: "string \<Rightarrow> nat \<Rightarrow> string \<Rightarrow> string" where
  "probe_read_str dst sz src =
     (let s = take (sz - 1) (takeWhile (\<lambda>c. c \<noteq> NUL) src) @ [NUL] in s @ drop (length s) dst)"

lemma probe_read_str_length:
  "0 < sz \<Longrightarrow> length dst = sz \<Longrightarrow> length (probe_read_str dst sz src) = sz"
  by (simp add: probe_read_str_def Let_def)

lemma takeWhile_take_takeWhile:
  "takeWhile P (take n (takeWhile P s)) = take n (takeWhile P s)"
  by (auto simp: takeWhile_eq_all_conv dest: in_set_takeD set_takeWhileD)

lemma c_string_probe_read_str:
  assumes "0 < sz" and "length dst = sz"
  shows "c_string (probe_read_str dst sz src) sz = take (sz - 1) (takeWhile (\<lambda>c. c \<noteq> NUL) src)"
proof -
  let ?s = "take (sz - 1) (takeWhile (\<lambda>c. c \<noteq> NUL) src)"
  have "c_string (probe_read_str dst sz src) sz = takeWhile (\<lambda>c. c \<noteq> NUL) (probe_read_str dst sz src)"
    using probe_read_str_length [OF assms, of src] by (simp add: c_string_eq)
  also have "\<dots> = takeWhile (\<lambda>c. c \<noteq> NUL) (?s @ NUL # drop (length ?s + 1) dst)"
    by (simp add: probe_read_str_def Let_def)
  also have "\<dots> = takeWhile (\<lambda>c. c \<noteq> NUL) ?s"
    by (rule takeWhile_tail) simp
  also have "\<dots> = ?s" by (rule takeWhile_take_takeWhile)
  finally show ?thesis .
qed

section \<open>Event handlers\<close>

text \<open>
  The shape \<^verbatim>\<open>on_event\<close> has in every event source: an event shorter than the struct is
  dropped, otherwise the struct is read from the front of the buffer.
\<close>

definition handle_event :: "nat \<Rightarrow> (u8 list \<Rightarrow> 'e) \<Rightarrow> ('e \<Rightarrow> 'b option) \<Rightarrow> u8 list \<Rightarrow> 'b option" where
  "handle_event sz decode translate data =
     (if length data < sz then None else translate (decode data))"

text \<open>
  The interface between the kernel side, which lays a struct out in the ring buffer, and
  the handler, which reads it back.
\<close>

locale wire_format =
  fixes sz :: nat
    and encode :: "'e \<Rightarrow> u8 list"
    and decode :: "u8 list \<Rightarrow> 'e"
    and valid :: "'e \<Rightarrow> bool"
  assumes length_encode: "valid e \<Longrightarrow> length (encode e) = sz"
    and decode_encode: "valid e \<Longrightarrow> decode (encode e @ rest) = e"
begin

lemma encode_inj: "valid e \<Longrightarrow> valid e' \<Longrightarrow> encode e = encode e' \<Longrightarrow> e = e'"
  by (metis decode_encode)

lemma handle_encoded: "valid e \<Longrightarrow> handle_event sz decode f (encode e @ rest) = f e"
  by (simp add: handle_event_def decode_encode length_encode)

lemma handle_short: "length data < sz \<Longrightarrow> handle_event sz decode f data = None"
  by (simp add: handle_event_def)

lemma handle_encoded_exact: "valid e \<Longrightarrow> handle_event sz decode f (encode e) = f e"
  using handle_encoded [of e f "[]"] by simp

end

interpretation hdr_wire: wire_format hdr_size encode_hdr decode_hdr "\<lambda>_. True"
  by unfold_locales simp_all

end
