(* ===== verification/Records.thy ===== *)
theory Records
  imports Complex_Main Prelude
begin

text \<open>
  \<^verbatim>\<open>core/record/record.h\<close> and \<^verbatim>\<open>record.cpp\<close>: the one wide record type and its JSON form.
  The JSON value is built here as the code builds it; turning it into text is
  \<^verbatim>\<open>nlohmann::json::dump\<close>, a function argument whose result is \<^const>\<open>None\<close> where the
  library throws. With its default (strict) error handler it does so for a string that is
  not UTF-8, which \<open>dump_strict\<close> states.
\<close>

section \<open>The record\<close>

record st_record =
  rec_ts_ns :: u64
  rec_node :: string
  rec_cluster :: string
  rec_probe :: string
  rec_cgroup_id :: u64
  rec_job_id :: "u32 option"
  rec_step_id :: "string option"
  rec_task_id :: "u32 option"
  rec_uid :: "u32 option"
  rec_user :: "string option"
  rec_account :: "string option"
  rec_partition :: "string option"
  rec_event_type :: string
  rec_pid :: u32
  rec_tid :: u32
  rec_comm :: string
  rec_metric :: string
  rec_value :: real
  rec_unit :: string
  rec_attrs :: "(string \<times> string) list"

text \<open>\<^verbatim>\<open>Record r;\<close> with the default member initialisers.\<close>

definition empty_record :: st_record where
  "empty_record =
     \<lparr>rec_ts_ns = 0, rec_node = [], rec_cluster = [], rec_probe = [], rec_cgroup_id = 0,
      rec_job_id = None, rec_step_id = None, rec_task_id = None, rec_uid = None,
      rec_user = None, rec_account = None, rec_partition = None, rec_event_type = [],
      rec_pid = 0, rec_tid = 0, rec_comm = [], rec_metric = [], rec_value = 0, rec_unit = [],
      rec_attrs = []\<rparr>"

section \<open>JSON values\<close>

text \<open>
  The value tree of \<^verbatim>\<open>nlohmann::json\<close>, with its distinction of signed, unsigned and floating
  numbers. An object is its list of members in iteration order.
\<close>

datatype json =
    JNull
  | JBool bool
  | JInt int
  | JUnsigned nat
  | JFloat real
  | JString string
  | JArray "json list"
  | JObject "(string \<times> json) list"

text \<open>\<^verbatim>\<open>j[key] = value\<close> on an \<^verbatim>\<open>ordered_json\<close>: in place if the key is there, else at the end.\<close>

fun ojson_set :: "string \<Rightarrow> json \<Rightarrow> (string \<times> json) list \<Rightarrow> (string \<times> json) list" where
  "ojson_set k v [] = [(k, v)]"
| "ojson_set k v ((k', v') # m) = (if k' = k then (k, v) # m else (k', v') # ojson_set k v m)"

definition json_opt :: "('a \<Rightarrow> json) \<Rightarrow> 'a option \<Rightarrow> json" where
  "json_opt f x = (case x of None \<Rightarrow> JNull | Some y \<Rightarrow> f y)"

definition json_word :: "'a::len word \<Rightarrow> json" where
  "json_word w = JUnsigned (unat w)"

definition record_to_json :: "st_record \<Rightarrow> json" where
  "record_to_json r =
     JObject (fold (\<lambda>(k, v). ojson_set k v)
      [(''ts_ns'', json_word (rec_ts_ns r)),
       (''node'', JString (rec_node r)),
       (''cluster'', JString (rec_cluster r)),
       (''probe'', JString (rec_probe r)),
       (''cgroup_id'', json_word (rec_cgroup_id r)),
       (''job_id'', json_opt json_word (rec_job_id r)),
       (''step_id'', json_opt JString (rec_step_id r)),
       (''task_id'', json_opt json_word (rec_task_id r)),
       (''uid'', json_opt json_word (rec_uid r)),
       (''user'', json_opt JString (rec_user r)),
       (''account'', json_opt JString (rec_account r)),
       (''partition'', json_opt JString (rec_partition r)),
       (''event_type'', JString (rec_event_type r)),
       (''pid'', json_word (rec_pid r)),
       (''tid'', json_word (rec_tid r)),
       (''comm'', JString (rec_comm r)),
       (''metric'', JString (rec_metric r)),
       (''value'', JFloat (rec_value r)),
       (''unit'', JString (rec_unit r)),
       (''attrs'', JObject (fold (\<lambda>(k, v). ojson_set k (JString v)) (rec_attrs r) []))] [])"

type_synonym json_dump = "json \<Rightarrow> string option"

definition to_json :: "json_dump \<Rightarrow> st_record \<Rightarrow> string option" where
  "to_json dump r = dump (record_to_json r)"

section \<open>What the library's dump accepts\<close>

text \<open>
  UTF-8 as the Unicode standard defines it (its table of well-formed byte sequences): the
  number of continuation bytes still due, and the range the next one has to lie in.
\<close>

fun utf8_from :: "nat \<Rightarrow> nat \<Rightarrow> nat \<Rightarrow> nat list \<Rightarrow> bool" where
  "utf8_from n lo hi [] \<longleftrightarrow> n = 0"
| "utf8_from n lo hi (b # bs) \<longleftrightarrow>
     (if 0 < n then lo \<le> b \<and> b \<le> hi \<and> utf8_from (n - 1) 0x80 0xBF bs
      else if b < 0x80 then utf8_from 0 0 0 bs
      else if 0xC2 \<le> b \<and> b \<le> 0xDF then utf8_from 1 0x80 0xBF bs
      else if b = 0xE0 then utf8_from 2 0xA0 0xBF bs
      else if b = 0xED then utf8_from 2 0x80 0x9F bs
      else if 0xE1 \<le> b \<and> b \<le> 0xEF then utf8_from 2 0x80 0xBF bs
      else if b = 0xF0 then utf8_from 3 0x90 0xBF bs
      else if 0xF1 \<le> b \<and> b \<le> 0xF3 then utf8_from 3 0x80 0xBF bs
      else if b = 0xF4 then utf8_from 3 0x80 0x8F bs
      else False)"

definition utf8 :: "string \<Rightarrow> bool" where
  "utf8 s = utf8_from 0 0 0 (map of_char s)"

fun json_utf8 :: "json \<Rightarrow> bool" where
  "json_utf8 (JString s) = utf8 s"
| "json_utf8 (JArray js) = list_all json_utf8 js"
| "json_utf8 (JObject ms) = list_all (\<lambda>m. utf8 (fst m) \<and> json_utf8 (snd m)) ms"
| "json_utf8 _ = True"

definition dump_strict :: "json_dump \<Rightarrow> bool" where
  "dump_strict dump \<longleftrightarrow> (\<forall>j. dump j = None \<longleftrightarrow> \<not> json_utf8 j)"

section \<open>The schema is fixed\<close>

fun json_members :: "json \<Rightarrow> (string \<times> json) list" where
  "json_members (JObject ms) = ms"
| "json_members _ = []"

definition record_schema :: "string list" where
  "record_schema =
     [''ts_ns'', ''node'', ''cluster'', ''probe'', ''cgroup_id'', ''job_id'', ''step_id'',
      ''task_id'', ''uid'', ''user'', ''account'', ''partition'', ''event_type'', ''pid'',
      ''tid'', ''comm'', ''metric'', ''value'', ''unit'', ''attrs'']"

lemma map_of_ojson_set [simp]: "map_of (ojson_set k v m) = (map_of m)(k \<mapsto> v)"
  by (induction m) auto

lemma ojson_set_fresh: "k \<notin> fst ` set m \<Longrightarrow> ojson_set k v m = m @ [(k, v)]"
  by (induction m) auto

lemma ojson_set_keys: "set (map fst (ojson_set k v m)) = insert k (set (map fst m))"
  by (induction k v m rule: ojson_set.induct) (simp_all add: insert_commute)

lemma ojson_set_distinct: "distinct (map fst m) \<Longrightarrow> distinct (map fst (ojson_set k v m))"
proof (induction m)
  case Nil
  then show ?case by simp
next
  case (Cons p m)
  then show ?case using ojson_set_keys [of k v m] by (cases p) auto
qed

text \<open>Assigning members with distinct keys to an empty object lists them in that order.\<close>

lemma fold_ojson_set_distinct:
  "distinct (map fst kvs) \<Longrightarrow> fst ` set kvs \<inter> fst ` set m = {} \<Longrightarrow>
     fold (\<lambda>(k, v). ojson_set k v) kvs m = m @ kvs"
proof (induction kvs arbitrary: m)
  case Nil
  then show ?case by simp
next
  case (Cons kv kvs)
  then show ?case by (cases kv) (auto simp: ojson_set_fresh)
qed

lemma fold_attrs:
  "map_of (fold (\<lambda>(k, v). ojson_set k (JString v)) kvs m)
     = map_of m ++ (map_option JString \<circ> map_of (rev kvs))"
proof (induction kvs arbitrary: m)
  case Nil
  then show ?case by (simp add: fun_eq_iff map_add_def)
next
  case (Cons kv kvs)
  then show ?case
    by (cases kv) (auto simp: fun_eq_iff map_add_def split: option.splits)
qed

lemma fold_attrs_distinct:
  "distinct (map fst m) \<Longrightarrow>
     distinct (map fst (fold (\<lambda>(k, v). ojson_set k (JString v)) kvs m))"
  by (induction kvs arbitrary: m) (auto simp: ojson_set_distinct split: prod.split)

text \<open>A command name that is not UTF-8 makes the whole record unprintable.\<close>

lemma to_json_comm_not_utf8:
  assumes "dump_strict dump" and "\<not> utf8 (rec_comm r)"
  shows "to_json dump r = None"
  using assms by (simp add: dump_strict_def to_json_def record_to_json_def fold_ojson_set_distinct)

text \<open>
  C34. Schema stability: whatever the record, its JSON object has exactly the 20 keys of the
  schema in the declared order. Each key has its field's value, an absent optional included, as
  null; and the \<^verbatim>\<open>attrs\<close> object has each attribute once, the last value given winning.
\<close>

theorem record_json_schema:
  "let j = map_of (json_members (record_to_json r)) in
      map fst (json_members (record_to_json r)) = record_schema
      \<and> j ''ts_ns'' = Some (JUnsigned (unat (rec_ts_ns r)))
      \<and> j ''node'' = Some (JString (rec_node r))
      \<and> j ''cluster'' = Some (JString (rec_cluster r))
      \<and> j ''probe'' = Some (JString (rec_probe r))
      \<and> j ''cgroup_id'' = Some (JUnsigned (unat (rec_cgroup_id r)))
      \<and> j ''event_type'' = Some (JString (rec_event_type r))
      \<and> j ''pid'' = Some (JUnsigned (unat (rec_pid r)))
      \<and> j ''tid'' = Some (JUnsigned (unat (rec_tid r)))
      \<and> j ''comm'' = Some (JString (rec_comm r))
      \<and> j ''metric'' = Some (JString (rec_metric r))
      \<and> j ''value'' = Some (JFloat (rec_value r))
      \<and> j ''unit'' = Some (JString (rec_unit r))
      \<and> j ''job_id'' = Some (case rec_job_id r of None \<Rightarrow> JNull | Some x \<Rightarrow> JUnsigned (unat x))
      \<and> j ''step_id'' = Some (case rec_step_id r of None \<Rightarrow> JNull | Some x \<Rightarrow> JString x)
      \<and> j ''task_id'' = Some (case rec_task_id r of None \<Rightarrow> JNull | Some x \<Rightarrow> JUnsigned (unat x))
      \<and> j ''uid'' = Some (case rec_uid r of None \<Rightarrow> JNull | Some x \<Rightarrow> JUnsigned (unat x))
      \<and> j ''user'' = Some (case rec_user r of None \<Rightarrow> JNull | Some x \<Rightarrow> JString x)
      \<and> j ''account'' = Some (case rec_account r of None \<Rightarrow> JNull | Some x \<Rightarrow> JString x)
      \<and> j ''partition'' = Some (case rec_partition r of None \<Rightarrow> JNull | Some x \<Rightarrow> JString x)
      \<and> (\<exists>attrs. j ''attrs'' = Some (JObject attrs) \<and> distinct (map fst attrs)
           \<and> map_of attrs = map_option JString \<circ> map_of (rev (rec_attrs r)))"
  by (simp add: record_to_json_def record_schema_def fold_ojson_set_distinct fold_attrs
      fold_attrs_distinct json_opt_def json_word_def [abs_def] Let_def)

end
