(* ===== verification/Probes.thy ===== *)
theory Probes
  imports Wire Records
begin

text \<open>
  The two telemetry probes, \<^verbatim>\<open>src/probes/proc_lifecycle\<close> and \<^verbatim>\<open>src/probes/oom\<close>: the structs
  of their \<^verbatim>\<open>_events.h\<close>, what the \<^verbatim>\<open>.bpf.c\<close> programs put into them, and the
  \<^verbatim>\<open>translate.cpp\<close>/\<^verbatim>\<open>probe.cpp\<close> path that turns the bytes into a partly filled record.
  What the kernel helpers return is an argument.
\<close>

section \<open>What every probe copies from the header\<close>

text \<open>The tail both \<^verbatim>\<open>translate\<close> functions share.\<close>

definition fill_from_hdr :: "string \<Rightarrow> st_event_hdr \<Rightarrow> string \<Rightarrow> st_record \<Rightarrow> st_record" where
  "fill_from_hdr probe h comm r =
     r\<lparr>rec_probe := probe, rec_ts_ns := hdr_ts_ns h, rec_cgroup_id := hdr_cgroup_id h,
       rec_uid := Some (hdr_uid h), rec_pid := hdr_pid h, rec_tid := hdr_tid h,
       rec_comm := c_string comm ST_COMM_LEN\<rparr>"

text \<open>
  What a probe must leave to the pipeline: attribution, user name, node and cluster, and a
  timestamp still on the kernel's clock.
\<close>

definition partly_filled :: "st_event_hdr \<Rightarrow> st_record \<Rightarrow> bool" where
  "partly_filled h r \<longleftrightarrow>
     rec_ts_ns r = hdr_ts_ns h \<and> rec_cgroup_id r = hdr_cgroup_id h \<and> rec_uid r = Some (hdr_uid h)
     \<and> rec_pid r = hdr_pid h \<and> rec_tid r = hdr_tid h
     \<and> rec_node r = [] \<and> rec_cluster r = [] \<and> rec_user r = None
     \<and> rec_job_id r = None \<and> rec_step_id r = None \<and> rec_task_id r = None
     \<and> rec_account r = None \<and> rec_partition r = None
     \<and> length (rec_comm r) \<le> ST_COMM_LEN"

section \<open>The proc_lifecycle probe\<close>

definition ST_EVENT_EXEC :: u32 where "ST_EVENT_EXEC = 1"
definition ST_EVENT_EXIT :: u32 where "ST_EVENT_EXIT = 2"

record st_proc_event =
  pe_hdr :: st_event_hdr
  pe_exit_code :: u32
  pe_comm :: string

text \<open>The struct ends with four bytes of padding: it holds 64-bit fields.\<close>

definition proc_event_size :: nat where
  "proc_event_size = hdr_size + 4 + ST_COMM_LEN + 4"

definition proc_event_valid :: "st_proc_event \<Rightarrow> bool" where
  "proc_event_valid e \<longleftrightarrow> length (pe_comm e) = ST_COMM_LEN"

definition encode_proc_event :: "u32 \<Rightarrow> st_proc_event \<Rightarrow> u8 list" where
  "encode_proc_event padding e =
     encode_hdr (pe_hdr e) @ put_u32 (pe_exit_code e) @ put_chars (pe_comm e) @ put_u32 padding"

definition decode_proc_event :: "u8 list \<Rightarrow> st_proc_event" where
  "decode_proc_event bs =
     \<lparr>pe_hdr = decode_hdr bs, pe_exit_code = u32_at bs hdr_size,
      pe_comm = chars_at bs (hdr_size + 4) ST_COMM_LEN\<rparr>"

lemma decode_proc_comm:
  "length c = ST_COMM_LEN \<Longrightarrow>
     chars_at (encode_hdr h @ put_u32 w @ put_chars c @ rest) (hdr_size + 4) ST_COMM_LEN = c"
  using chars_at_put [of "encode_hdr h @ put_u32 w" "hdr_size + 4" c ST_COMM_LEN rest] by simp

interpretation proc_wire:
  wire_format proc_event_size "encode_proc_event padding" decode_proc_event proc_event_valid
  for padding
  by unfold_locales
    (simp_all add: encode_proc_event_def decode_proc_event_def proc_event_valid_def
      proc_event_size_def decode_proc_comm u32_at_put)

subsection \<open>Kernel side\<close>

text \<open>The helpers' view of the running task, and the clock.\<close>

record task_ctx =
  ctx_cgroup_id :: u64
  ctx_pid_tgid :: u64
  ctx_uid_gid :: u64
  ctx_now :: u64
  ctx_comm :: string

text \<open>\<open>filter_id\<close> is the \<^verbatim>\<open>filter_cgroup_id\<close> knob; \<^const>\<open>None\<close> is nothing submitted.\<close>

definition proc_emit :: "u64 \<Rightarrow> bool \<Rightarrow> u32 \<Rightarrow> u32 \<Rightarrow> task_ctx \<Rightarrow> st_proc_event option" where
  "proc_emit filter_id reserved type exit_code ctx =
     (let cgroup_id = ctx_cgroup_id ctx in
      if filter_id \<noteq> 0 \<and> cgroup_id \<noteq> filter_id then None
      else if \<not> reserved then None
      else Some
        \<lparr>pe_hdr =
           \<lparr>hdr_ts_ns = ctx_now ctx, hdr_cgroup_id = cgroup_id, hdr_type = type,
            hdr_pid = ucast (drop_bit 32 (ctx_pid_tgid ctx)), hdr_tid = ucast (ctx_pid_tgid ctx),
            hdr_uid = ucast (ctx_uid_gid ctx)\<rparr>,
         pe_exit_code = exit_code, pe_comm = ctx_comm ctx\<rparr>)"

definition on_exec :: "u64 \<Rightarrow> bool \<Rightarrow> task_ctx \<Rightarrow> st_proc_event option" where
  "on_exec filter_id reserved ctx = proc_emit filter_id reserved ST_EVENT_EXEC 0 ctx"

definition on_exit :: "u64 \<Rightarrow> bool \<Rightarrow> u32 \<Rightarrow> u32 \<Rightarrow> u32 \<Rightarrow> task_ctx \<Rightarrow> st_proc_event option" where
  "on_exit filter_id reserved task_pid task_tgid exit_code ctx =
     (if task_pid \<noteq> task_tgid then None
      else proc_emit filter_id reserved ST_EVENT_EXIT exit_code ctx)"

subsection \<open>Userspace side\<close>

text \<open>The exit code is a signed \<^verbatim>\<open>int\<close>, so its right shift is arithmetic.\<close>

definition translate_proc :: "st_proc_event \<Rightarrow> st_record option" where
  "translate_proc e =
     (let h = pe_hdr e; r = empty_record in
      if hdr_type h = ST_EVENT_EXEC
      then Some (fill_from_hdr ''proc_lifecycle'' h (pe_comm e)
             (r\<lparr>rec_event_type := ''exec'', rec_metric := ''proc.exec'', rec_value := 1,
                rec_unit := ''count''\<rparr>))
      else if hdr_type h = ST_EVENT_EXIT
      then (let sig = sint (pe_exit_code e AND 0x7f) in
            Some (fill_from_hdr ''proc_lifecycle'' h (pe_comm e)
             (r\<lparr>rec_event_type := ''exit'', rec_metric := ''proc.exit'',
                rec_value := real_of_int (sint (signed_drop_bit 8 (pe_exit_code e) AND 0xff)),
                rec_unit := ''exit_status'',
                rec_attrs := rec_attrs r @
                  (if sig \<noteq> 0 then [(''signal'', dec_of_int sig)] else [])\<rparr>)))
      else None)"

definition proc_on_event :: "u8 list \<Rightarrow> st_record option" where
  "proc_on_event data = handle_event proc_event_size decode_proc_event translate_proc data"

text \<open>The record of an exec, from the tracepoint to \<^verbatim>\<open>emit\<close>.\<close>

lemma exec_record:
  assumes "on_exec filter_id reserved ctx = Some e" and "length (ctx_comm ctx) = ST_COMM_LEN"
  shows "proc_on_event (encode_proc_event padding e @ rest) =
    Some (empty_record\<lparr>rec_probe := ''proc_lifecycle'', rec_ts_ns := ctx_now ctx,
       rec_cgroup_id := ctx_cgroup_id ctx, rec_uid := Some (ucast (ctx_uid_gid ctx)),
       rec_pid := ucast (drop_bit 32 (ctx_pid_tgid ctx)), rec_tid := ucast (ctx_pid_tgid ctx),
       rec_comm := c_string (ctx_comm ctx) ST_COMM_LEN, rec_event_type := ''exec'',
       rec_metric := ''proc.exec'', rec_value := 1, rec_unit := ''count''\<rparr>)"
proof -
  have e: "pe_hdr e = \<lparr>hdr_ts_ns = ctx_now ctx, hdr_cgroup_id = ctx_cgroup_id ctx,
       hdr_type = ST_EVENT_EXEC, hdr_pid = ucast (drop_bit 32 (ctx_pid_tgid ctx)),
       hdr_tid = ucast (ctx_pid_tgid ctx), hdr_uid = ucast (ctx_uid_gid ctx)\<rparr>"
    "pe_comm e = ctx_comm ctx"
    using assms(1) by (auto simp: on_exec_def proc_emit_def Let_def split: if_splits)
  then have "proc_event_valid e" using assms(2) by (simp add: proc_event_valid_def)
  then have "proc_on_event (encode_proc_event padding e @ rest) = translate_proc e"
    unfolding proc_on_event_def by (rule proc_wire.handle_encoded)
  then show ?thesis by (simp add: translate_proc_def e fill_from_hdr_def Let_def)
qed

section \<open>The oom probe\<close>

definition ST_OOM_EVENT_KILL :: u32 where "ST_OOM_EVENT_KILL = 1"

record st_oom_event =
  oe_hdr :: st_event_hdr
  oe_comm :: string

definition oom_event_size :: nat where "oom_event_size = hdr_size + ST_COMM_LEN"

definition oom_event_valid :: "st_oom_event \<Rightarrow> bool" where
  "oom_event_valid e \<longleftrightarrow> length (oe_comm e) = ST_COMM_LEN"

definition encode_oom_event :: "st_oom_event \<Rightarrow> u8 list" where
  "encode_oom_event e = encode_hdr (oe_hdr e) @ put_chars (oe_comm e)"

definition decode_oom_event :: "u8 list \<Rightarrow> st_oom_event" where
  "decode_oom_event bs = \<lparr>oe_hdr = decode_hdr bs, oe_comm = chars_at bs hdr_size ST_COMM_LEN\<rparr>"

interpretation oom_wire:
  wire_format oom_event_size encode_oom_event decode_oom_event oom_event_valid
  by unfold_locales
    (simp_all add: encode_oom_event_def decode_oom_event_def oom_event_valid_def
      oom_event_size_def chars_at_put)

text \<open>The fields read off the victim's \<^verbatim>\<open>task_struct\<close>.\<close>

record victim =
  vic_cgroup_id :: u64
  vic_tgid :: u32
  vic_pid :: u32
  vic_comm :: string

definition on_mark_victim :: "bool \<Rightarrow> string \<Rightarrow> u64 \<Rightarrow> victim \<Rightarrow> u32 \<Rightarrow> st_oom_event option" where
  "on_mark_victim reserved old now v uid =
     (if \<not> reserved then None
      else Some
        \<lparr>oe_hdr = \<lparr>hdr_ts_ns = now, hdr_cgroup_id = vic_cgroup_id v, hdr_type = ST_OOM_EVENT_KILL,
           hdr_pid = vic_tgid v, hdr_tid = vic_pid v, hdr_uid = uid\<rparr>,
         oe_comm = probe_read_str old ST_COMM_LEN (vic_comm v)\<rparr>)"

definition translate_oom :: "st_oom_event \<Rightarrow> st_record option" where
  "translate_oom e =
     (let h = oe_hdr e in
      if hdr_type h = ST_OOM_EVENT_KILL
      then Some (fill_from_hdr ''oom'' h (oe_comm e)
             (empty_record\<lparr>rec_event_type := ''oom_kill'', rec_metric := ''oom.kill'',
                rec_value := 1, rec_unit := ''count''\<rparr>))
      else None)"

definition oom_on_event :: "u8 list \<Rightarrow> st_record option" where
  "oom_on_event data = handle_event oom_event_size decode_oom_event translate_oom data"

section \<open>Properties\<close>

lemma fill_from_hdr_partly:
  "rec_node r = [] \<Longrightarrow> rec_cluster r = [] \<Longrightarrow> rec_user r = None \<Longrightarrow> rec_job_id r = None \<Longrightarrow>
   rec_step_id r = None \<Longrightarrow> rec_task_id r = None \<Longrightarrow> rec_account r = None \<Longrightarrow>
   rec_partition r = None \<Longrightarrow> partly_filled h (fill_from_hdr p h c r)"
  by (simp add: fill_from_hdr_def partly_filled_def c_string_length)

lemma empty_record_fields [simp]:
  "rec_node empty_record = []" "rec_cluster empty_record = []" "rec_user empty_record = None"
  "rec_job_id empty_record = None" "rec_step_id empty_record = None"
  "rec_task_id empty_record = None" "rec_account empty_record = None"
  "rec_partition empty_record = None" "rec_attrs empty_record = []"
  by (simp_all add: empty_record_def)

lemma sint_and_mask:
  assumes "n < 32"
  shows "sint (w AND mask n :: u32) = uint w mod 2 ^ n"
proof -
  have "uint (w AND mask n) = uint (take_bit n w)" by (simp only: take_bit_eq_mask)
  also have "\<dots> = take_bit n (uint w)" by (rule unsigned_take_bit_eq)
  finally have u: "uint (w AND mask n) = uint w mod 2 ^ n"
    by (simp only: take_bit_eq_mod [where 'a = int])
  have "uint w mod 2 ^ n < (2 :: int) ^ n" by simp
  moreover have "(2 :: int) ^ n \<le> 2 ^ 31" using assms by (intro power_increasing) auto
  ultimately have "uint w mod 2 ^ n < (2 :: int) ^ 31" by (rule less_le_trans)
  moreover have "- (2 ^ 31) \<le> uint w mod (2 :: int) ^ n" by (rule order_trans [of _ 0]) simp_all
  ultimately have "signed_take_bit 31 (uint w mod 2 ^ n) = uint w mod 2 ^ n"
    by (intro signed_take_bit_int_eq_self)
  with u show ?thesis by (simp add: sint_uint)
qed

lemma uint_shift: "uint (drop_bit 8 w) = uint (w :: u32) div 2 ^ 8"
proof -
  have "uint (drop_bit 8 w) = drop_bit 8 (take_bit LENGTH(32) (uint w))"
    by (rule unsigned_drop_bit_eq)
  also have "take_bit LENGTH(32) (uint w) = uint w"
    using unsigned_less [of w, where 'a = int]
    by (simp only: take_bit_int_eq_self unsigned_greater_eq)
  finally show ?thesis by (simp only: drop_bit_eq_div [where 'a = int])
qed

lemma exit_status_value:
  "sint (signed_drop_bit 8 w AND 0xff :: u32) = uint w div 2 ^ 8 mod 2 ^ 8"
proof -
  have "signed_drop_bit 8 w AND mask 8 = drop_bit 8 w AND (mask 8 :: u32)"
    by (rule bit_word_eqI) (auto simp: bit_simps)
  moreover have "(0xff :: u32) = mask 8" by (simp add: mask_eq_exp_minus_1)
  moreover have "uint (drop_bit 8 w) = uint w div 2 ^ 8" by (rule uint_shift)
  ultimately show ?thesis
    using sint_and_mask [of 8 "drop_bit 8 w"] by simp
qed

lemma signal_value: "sint (w AND 0x7f :: u32) = uint w mod 2 ^ 7"
  using sint_and_mask [of 7 w] by (simp add: mask_eq_exp_minus_1)

text \<open>The kernel's packing of a wait status: exit status, core-dump flag, signal.\<close>

definition wait_status :: "nat \<Rightarrow> bool \<Rightarrow> nat \<Rightarrow> u32" where
  "wait_status status core sig = of_nat (status * 256 + (if core then 128 else 0) + sig)"

lemma uint_wait_status:
  "status < 256 \<Longrightarrow> sig < 128 \<Longrightarrow>
     uint (wait_status status core sig) = int (status * 256 + (if core then 128 else 0) + sig)"
  unfolding wait_status_def unsigned_of_nat by (simp add: take_bit_nat_eq_self)

lemma wait_status_nat:
  assumes "status < (256 :: nat)" and "sig < 128"
  shows "(status * 256 + (if core then 128 else 0) + sig) div 256 mod 256 = status"
    and "(status * 256 + (if core then 128 else 0) + sig) mod 128 = sig"
proof -
  show "(status * 256 + (if core then 128 else 0) + sig) div 256 mod 256 = status"
    using assms by (cases core) simp_all
  have "status * 256 + (if core then 128 else 0) + sig
      = sig + 128 * (status * 2 + (if core then 1 else 0))" by simp
  then show "(status * 256 + (if core then 128 else 0) + sig) mod 128 = sig"
    using assms(2) by (simp only: mod_mult_self2) simp
qed

lemma wait_status_parts:
  assumes "status < 256" and "sig < 128"
  shows "uint (wait_status status core sig) div 2 ^ 8 mod 2 ^ 8 = int status"
    and "uint (wait_status status core sig) mod 2 ^ 7 = int sig"
  using wait_status_nat [OF assms, of core, THEN arg_cong [of _ _ int]]
  unfolding uint_wait_status [OF assms] by (simp_all only: of_nat_div of_nat_mod of_nat_numeral) simp_all

text \<open>
  C32. Exit codes survive the trip: the record of a thread-group leader's exit carries the
  exit status as its value, and a \<^verbatim>\<open>signal\<close> attribute with the signal number exactly
  when a signal ended the process; the core-dump flag does not leak into either.
\<close>

theorem exit_record_decoded:
  assumes "on_exit 0 True pid pid (wait_status status core sig) ctx = Some e"
    and "status < 256" and "sig < 128" and "length (ctx_comm ctx) = ST_COMM_LEN"
  shows "\<exists>r. proc_on_event (encode_proc_event padding e @ rest) = Some r
    \<and> rec_event_type r = ''exit'' \<and> rec_value r = real status
    \<and> rec_attrs r = (if sig = 0 then [] else [(''signal'', dec_of_nat sig)])
    \<and> rec_cgroup_id r = ctx_cgroup_id ctx"
proof -
  let ?w = "wait_status status core sig"
  have e: "pe_exit_code e = ?w" "hdr_type (pe_hdr e) = ST_EVENT_EXIT" "pe_comm e = ctx_comm ctx"
    "hdr_cgroup_id (pe_hdr e) = ctx_cgroup_id ctx"
    using assms(1) by (auto simp: on_exit_def proc_emit_def Let_def)
  then have "proc_event_valid e" using assms(4) by (simp add: proc_event_valid_def)
  then have "proc_on_event (encode_proc_event padding e @ rest) = translate_proc e"
    unfolding proc_on_event_def by (rule proc_wire.handle_encoded)
  moreover have "sint (signed_drop_bit 8 ?w AND 0xff) = int status"
    unfolding exit_status_value using assms(2,3) by (rule wait_status_parts)
  moreover have "sint (?w AND 0x7f) = int sig"
    unfolding signal_value using assms(2,3) by (rule wait_status_parts)
  ultimately show ?thesis
    by (simp add: translate_proc_def e fill_from_hdr_def dec_of_int_def Let_def
        ST_EVENT_EXEC_def ST_EVENT_EXIT_def)
qed

definition example_task :: task_ctx where
  "example_task = \<lparr>ctx_cgroup_id = 7, ctx_pid_tgid = 0x0000002A0000002A, ctx_uid_gid = 0,
     ctx_now = 99, ctx_comm = ''sleep'' @ replicate 11 NUL\<rparr>"

lemma exit_record_decoded_witness:
  "\<exists>r. proc_on_event (encode_proc_event 0
        (the (on_exit 0 True 42 42 (wait_status 3 True 9) example_task))) = Some r
    \<and> rec_value r = 3 \<and> rec_attrs r = [(''signal'', ''9'')]"
proof -
  have "on_exit 0 True 42 42 (wait_status 3 True 9) example_task =
      Some (the (on_exit 0 True 42 42 (wait_status 3 True 9) example_task))"
    by (simp add: on_exit_def proc_emit_def example_task_def)
  moreover have "length (ctx_comm example_task) = ST_COMM_LEN"
    by (simp add: example_task_def ST_COMM_LEN_def)
  moreover have "dec_of_nat 9 = ''9''" by code_simp
  ultimately show ?thesis
    using exit_record_decoded [of 42 3 True 9 example_task _ 0 "[]"] by fastforce
qed

text \<open>
  Whatever bytes arrive in its ring buffer, a probe emits at most one record, only from
  a complete event of a type it knows, and leaves attribution, user name, node, cluster and
  the clock conversion to the pipeline.
\<close>

lemma probes_partly_filled:
  "(proc_on_event data = Some r \<longrightarrow>
      proc_event_size \<le> length data \<and> partly_filled (decode_hdr data) r
      \<and> hdr_type (decode_hdr data) \<in> {ST_EVENT_EXEC, ST_EVENT_EXIT})
   \<and> (oom_on_event data = Some r \<longrightarrow>
      oom_event_size \<le> length data \<and> partly_filled (decode_hdr data) r
      \<and> hdr_type (decode_hdr data) = ST_OOM_EVENT_KILL)"
  by (auto simp: proc_on_event_def oom_on_event_def handle_event_def translate_proc_def
      translate_oom_def decode_proc_event_def decode_oom_event_def Let_def
      intro!: fill_from_hdr_partly split: if_splits)

lemma probes_partly_filled_witness:
  "\<exists>data r. oom_on_event data = Some r \<and> partly_filled (decode_hdr data) r"
proof -
  let ?v = "\<lparr>vic_cgroup_id = 7, vic_tgid = 1, vic_pid = 1, vic_comm = ''a''\<rparr>"
  let ?e = "the (on_mark_victim True (replicate 16 NUL) 5 ?v 0)"
  have "oom_event_valid ?e"
    by (simp add: on_mark_victim_def oom_event_valid_def ST_COMM_LEN_def probe_read_str_length)
  then have "oom_on_event (encode_oom_event ?e) = translate_oom ?e"
    unfolding oom_on_event_def by (rule oom_wire.handle_encoded_exact)
  then have "oom_on_event (encode_oom_event ?e) = Some (the (translate_oom ?e))"
    by (simp add: translate_oom_def on_mark_victim_def)
  with probes_partly_filled [of "encode_oom_event ?e" "the (translate_oom ?e)"] show ?thesis
    by blast
qed

text \<open>
  An OOM kill is filed under the victim, not the task that ran into the limit: the
  record carries the victim's cgroup, process, thread and user ids.
\<close>

lemma oom_record_victim:
  assumes "on_mark_victim True old now v uid = Some e" and "length old = ST_COMM_LEN"
  shows "\<exists>r. oom_on_event (encode_oom_event e @ rest) = Some r
    \<and> rec_event_type r = ''oom_kill'' \<and> rec_cgroup_id r = vic_cgroup_id v
    \<and> rec_pid r = vic_tgid v \<and> rec_tid r = vic_pid v \<and> rec_uid r = Some uid
    \<and> rec_comm r = take 15 (takeWhile (\<lambda>c. c \<noteq> NUL) (vic_comm v))"
proof -
  have "oom_event_valid e"
    using assms by (auto simp: on_mark_victim_def oom_event_valid_def ST_COMM_LEN_def
        probe_read_str_length)
  then have "oom_on_event (encode_oom_event e @ rest) = translate_oom e"
    unfolding oom_on_event_def by (rule oom_wire.handle_encoded)
  with assms show ?thesis
    by (auto simp: translate_oom_def on_mark_victim_def fill_from_hdr_def ST_COMM_LEN_def
        c_string_probe_read_str)
qed

lemma oom_record_victim_witness:
  "\<exists>r. oom_on_event (encode_oom_event (the (on_mark_victim True (replicate 16 NUL) 5
        \<lparr>vic_cgroup_id = 7, vic_tgid = 1, vic_pid = 2, vic_comm = ''a''\<rparr> 3))) = Some r
    \<and> rec_cgroup_id r = 7"
proof -
  let ?v = "\<lparr>vic_cgroup_id = 7, vic_tgid = 1, vic_pid = 2, vic_comm = ''a''\<rparr>"
  have "on_mark_victim True (replicate 16 NUL) 5 ?v 3
      = Some (the (on_mark_victim True (replicate 16 NUL) 5 ?v 3))"
    by (simp add: on_mark_victim_def)
  from oom_record_victim [OF this, of "[]"] show ?thesis by (auto simp: ST_COMM_LEN_def)
qed

text \<open>
  The \<^verbatim>\<open>filter_cgroup_id\<close> knob and the thread-group test drop events in the kernel:
  an exit is reported only for a leader, and with a filter only for that very cgroup.
\<close>

lemma proc_events_filtered:
  "(on_exit filter_id reserved tid tgid code ctx \<noteq> None \<longleftrightarrow>
      tid = tgid \<and> reserved \<and> (filter_id = 0 \<or> ctx_cgroup_id ctx = filter_id))
   \<and> (on_exec filter_id reserved ctx \<noteq> None \<longleftrightarrow>
      reserved \<and> (filter_id = 0 \<or> ctx_cgroup_id ctx = filter_id))"
  by (simp add: on_exit_def on_exec_def proc_emit_def Let_def)

end
