(* ===== verification/SinkQueue.thy ===== *)
theory SinkQueue
  imports Records
begin

text \<open>
  The sink contract (\<^verbatim>\<open>core/sink/sink.h\<close>) and the bounded queue with its worker thread that
  \<^verbatim>\<open>sinks/stdout_json/sink.cpp\<close> and \<^verbatim>\<open>sinks/http/sink.cpp\<close> both implement, the stdout sink
  and the null sink. A sink is driven by two threads: the daemon's thread writes, flushes
  and destroys, the worker takes one batch at a time. Each critical section of \<^verbatim>\<open>mu_\<close> and
  each action of the worker outside it is one step, and a run is any interleaving of them.
\<close>

section \<open>State\<close>

type_synonym batch = "st_record list"

text \<open>
  Where the worker is in \<^verbatim>\<open>run()\<close>: in \<^verbatim>\<open>cv_.wait\<close>, between taking a batch and the second
  critical section, before that section, returned, or lost with the batch it held: an exception
  (\<^verbatim>\<open>std::terminate\<close>) or a signal has ended the process. The one other way to be lost is a call
  that blocks for ever, on an http connection without a timeout (\<open>HttpClient\<close>); the model does
  not follow a sink past that either.
\<close>

datatype worker = Waiting | Holding batch | Counting | Exited | Terminated batch

text \<open>\<open>sq_out\<close> is what only the worker touches: the stream, or the HTTP connection.\<close>

record 'e queue_sink =
  sq_max_queued :: u64
  sq_queue :: "batch list"
  sq_stopping :: bool
  sq_written_batches :: u64
  sq_queued_batches :: u64
  sq_dropped :: u64
  sq_worker :: worker
  sq_out :: 'e

definition new_queue_sink :: "u64 \<Rightarrow> 'e \<Rightarrow> 'e queue_sink" where
  "new_queue_sink max_queued e =
     \<lparr>sq_max_queued = max_queued, sq_queue = [], sq_stopping = False, sq_written_batches = 0,
      sq_queued_batches = 0, sq_dropped = 0, sq_worker = Waiting, sq_out = e\<rparr>"

section \<open>Operations\<close>

text \<open>
  The \<^verbatim>\<open>while\<close> loop of \<^verbatim>\<open>write\<close>: queue, \<^verbatim>\<open>written_batches_\<close> and \<^verbatim>\<open>dropped_\<close> after it.
  \<^verbatim>\<open>pop_front\<close> on an empty deque is undefined behaviour: \<^const>\<open>None\<close>.
\<close>

fun drop_loop :: "u64 \<Rightarrow> batch list \<Rightarrow> u64 \<Rightarrow> u64 \<Rightarrow> (batch list \<times> u64 \<times> u64) option" where
  "drop_loop m [] w d = (if unat m \<le> 0 then None else Some ([], w, d))"
| "drop_loop m (b # q) w d =
     (if unat m \<le> length (b # q) then drop_loop m q (w + 1) (d + 1) else Some (b # q, w, d))"

definition sink_write :: "batch \<Rightarrow> 'e queue_sink \<Rightarrow> 'e queue_sink option" where
  "sink_write batch s =
     (if batch = [] then Some s
      else case drop_loop (sq_max_queued s) (sq_queue s) (sq_written_batches s) (sq_dropped s) of
        None \<Rightarrow> None
      | Some (q, w, d) \<Rightarrow>
          Some (s\<lparr>sq_queue := q @ [batch], sq_written_batches := w, sq_dropped := d,
                  sq_queued_batches := sq_queued_batches s + 1\<rparr>))"

text \<open>The destructor up to \<^verbatim>\<open>join\<close>.\<close>

definition sink_stop :: "'e queue_sink \<Rightarrow> 'e queue_sink" where
  "sink_stop s = s\<lparr>sq_stopping := True\<rparr>"

text \<open>The predicate \<^verbatim>\<open>flush\<close> waits for, \<open>target\<close> being \<^verbatim>\<open>queued_batches_\<close> at its start.\<close>

definition flush_ready :: "u64 \<Rightarrow> 'e queue_sink \<Rightarrow> bool" where
  "flush_ready target s \<longleftrightarrow> target \<le> sq_written_batches s \<or> sq_stopping s"

text \<open>
  One step of \<^verbatim>\<open>run()\<close>. \<open>deliver\<close> is the part outside the lock: whether the batch was lost
  and the new outside state, or \<^const>\<open>None\<close> if it does not return. \<open>fin\<close> is what follows the loop.
\<close>

type_synonym 'e deliver = "batch \<Rightarrow> 'e \<Rightarrow> (bool \<times> 'e) option"

definition sink_worker :: "'e deliver \<Rightarrow> ('e \<Rightarrow> 'e) \<Rightarrow> 'e queue_sink \<Rightarrow> 'e queue_sink option" where
  "sink_worker deliver fin s =
     (case sq_worker s of
        Waiting \<Rightarrow>
          (case sq_queue s of
             [] \<Rightarrow> if sq_stopping s
                  then Some (s\<lparr>sq_worker := Exited, sq_out := fin (sq_out s)\<rparr>) else None
           | b # q \<Rightarrow> Some (s\<lparr>sq_queue := q, sq_worker := Holding b\<rparr>))
      | Holding b \<Rightarrow>
          (case deliver b (sq_out s) of
             None \<Rightarrow> Some (s\<lparr>sq_worker := Terminated b\<rparr>)
           | Some (lost, e) \<Rightarrow>
               Some (s\<lparr>sq_worker := Counting, sq_out := e, sq_dropped := sq_dropped s + of_bool lost\<rparr>))
      | Counting \<Rightarrow> Some (s\<lparr>sq_worker := Waiting, sq_written_batches := sq_written_batches s + 1\<rparr>)
      | Exited \<Rightarrow> None
      | Terminated _ \<Rightarrow> None)"

text \<open>
  Blocking calls of the daemon's thread, during which only the worker runs: the call
  returns (\<^const>\<open>Some\<close>) when its condition holds and blocks for ever (\<^const>\<open>None\<close>) if it
  never does or the process ends.
\<close>

partial_function (option) wait_until ::
  "('s \<Rightarrow> 's option) \<Rightarrow> ('s \<Rightarrow> bool) \<Rightarrow> 's \<Rightarrow> 's option" where
  "wait_until step done_p s =
     (if done_p s then Some s
      else case step s of None \<Rightarrow> None | Some s' \<Rightarrow> wait_until step done_p s')"

declare wait_until.simps [code]

definition sink_flush :: "'e deliver \<Rightarrow> ('e \<Rightarrow> 'e) \<Rightarrow> 'e queue_sink \<Rightarrow> 'e queue_sink option" where
  "sink_flush deliver fin s =
     wait_until (sink_worker deliver fin) (flush_ready (sq_queued_batches s)) s"

definition sink_destroy :: "'e deliver \<Rightarrow> ('e \<Rightarrow> 'e) \<Rightarrow> 'e queue_sink \<Rightarrow> 'e queue_sink option" where
  "sink_destroy deliver fin s =
     wait_until (sink_worker deliver fin) (\<lambda>t. sq_worker t = Exited) (sink_stop s)"

section \<open>Runs\<close>

datatype sink_event = Write batch | Stop | Worker

definition process_alive :: "'e queue_sink \<Rightarrow> bool" where
  "process_alive s \<longleftrightarrow> (case sq_worker s of Terminated _ \<Rightarrow> False | _ \<Rightarrow> True)"

definition sink_exec ::
  "'e deliver \<Rightarrow> ('e \<Rightarrow> 'e) \<Rightarrow> sink_event \<Rightarrow> 'e queue_sink \<Rightarrow> 'e queue_sink option" where
  "sink_exec deliver fin ev s =
     (if process_alive s
      then (case ev of
          Write b \<Rightarrow> sink_write b s
        | Stop \<Rightarrow> Some (sink_stop s)
        | Worker \<Rightarrow> sink_worker deliver fin s)
      else None)"

fun sink_run ::
  "'e deliver \<Rightarrow> ('e \<Rightarrow> 'e) \<Rightarrow> sink_event list \<Rightarrow> 'e queue_sink \<Rightarrow> 'e queue_sink option" where
  "sink_run deliver fin [] s = Some s"
| "sink_run deliver fin (ev # evs) s =
     (case sink_exec deliver fin ev s of None \<Rightarrow> None | Some t \<Rightarrow> sink_run deliver fin evs t)"

text \<open>The batches a run hands over, and those it hands over that are not empty.\<close>

fun accept :: "sink_event \<Rightarrow> batch list" where
  "accept (Write b) = (if b = [] then [] else [b])"
| "accept _ = []"

definition accepted :: "sink_event list \<Rightarrow> batch list" where
  "accepted evs = concat (map accept evs)"

text \<open>As a transition system, with the batches accepted so far beside the sink.\<close>

inductive sink_trans ::
  "'e deliver \<Rightarrow> ('e \<Rightarrow> 'e) \<Rightarrow> batch list \<times> 'e queue_sink \<Rightarrow> batch list \<times> 'e queue_sink \<Rightarrow> bool"
  for deliver fin where
  writes: "process_alive s \<Longrightarrow> sink_write b s = Some t
     \<Longrightarrow> sink_trans deliver fin (acc, s) (acc @ accept (Write b), t)"
| stops: "process_alive s \<Longrightarrow> sink_trans deliver fin (acc, s) (acc, sink_stop s)"
| works: "sink_worker deliver fin s = Some t \<Longrightarrow> sink_trans deliver fin (acc, s) (acc, t)"

inductive_cases sink_transE: "sink_trans deliver fin (acc, s) (acc', t)"

lemma sink_exec_trans:
  assumes "sink_exec deliver fin ev s = Some t"
  shows "sink_trans deliver fin (acc, s) (acc @ accept ev, t)"
proof (cases ev)
  case (Write b)
  with assms show ?thesis
    unfolding Write by (intro sink_trans.writes) (simp_all add: sink_exec_def split: if_splits)
next
  case Stop
  with assms show ?thesis
    using sink_trans.stops [of s] by (auto simp: sink_exec_def split: if_splits)
next
  case Worker
  with assms show ?thesis
    using sink_trans.works [of deliver fin s] by (auto simp: sink_exec_def split: if_splits)
qed

lemma sink_run_trans:
  "sink_run deliver fin evs s = Some t
     \<Longrightarrow> (sink_trans deliver fin)\<^sup>*\<^sup>* (acc, s) (acc @ accepted evs, t)"
proof (induction evs arbitrary: s acc)
  case (Cons ev evs)
  then obtain s' where s': "sink_exec deliver fin ev s = Some s'"
    "sink_run deliver fin evs s' = Some t" by (auto split: option.splits)
  from s'(1) have "sink_trans deliver fin (acc, s) (acc @ accept ev, s')"
    by (rule sink_exec_trans)
  with Cons.IH [OF s'(2), of "acc @ accept ev"] show ?case
    by (simp add: accepted_def converse_rtranclp_into_rtranclp)
qed (simp add: accepted_def)

section \<open>The invariant\<close>

text \<open>Delivering batches one after another: how many were lost, and the outside state.\<close>

fun deliver_all :: "'e deliver \<Rightarrow> batch list \<Rightarrow> 'e \<Rightarrow> (nat \<times> 'e) option" where
  "deliver_all deliver [] e = Some (0, e)"
| "deliver_all deliver (b # bs) e =
     (case deliver b e of
        None \<Rightarrow> None
      | Some (lost, e1) \<Rightarrow>
          (case deliver_all deliver bs e1 of
             None \<Rightarrow> None
           | Some (n, e2) \<Rightarrow> Some (of_bool lost + n, e2)))"

definition in_hand :: "worker \<Rightarrow> batch list" where
  "in_hand w = (case w of Holding b \<Rightarrow> [b] | Terminated b \<Rightarrow> [b] | _ \<Rightarrow> [])"

text \<open>
  What every reachable state satisfies, \<open>acc\<close> being the batches accepted so far: the queue
  is bounded and holds the newest of them; of the others, \<open>k\<close> were dropped by the overflow
  loop and the rest were delivered, in order, each at most once; and the three counters
  count exactly those (\<open>n\<close> is the number of deliveries that failed).
\<close>

definition sink_hist ::
  "'e deliver \<Rightarrow> ('e \<Rightarrow> 'e) \<Rightarrow> 'e \<Rightarrow> batch list \<Rightarrow> 'e queue_sink \<Rightarrow> batch list \<Rightarrow> nat \<Rightarrow> nat \<Rightarrow> bool"
  where
  "sink_hist deliver fin e0 acc s dl k n \<longleftrightarrow>
     (\<exists>e. deliver_all deliver dl e0 = Some (n, e)
        \<and> sq_out s = (if sq_worker s = Exited then fin e else e))
     \<and> subseq (dl @ in_hand (sq_worker s) @ sq_queue s) acc
     \<and> length acc = k + length dl + length (in_hand (sq_worker s)) + length (sq_queue s)
     \<and> sq_dropped s = of_nat (k + n)
     \<and> (sq_worker s = Counting \<longrightarrow> dl \<noteq> [])
     \<and> sq_written_batches s + of_bool (sq_worker s = Counting) = of_nat (k + length dl)"

definition sink_inv ::
  "'e deliver \<Rightarrow> ('e \<Rightarrow> 'e) \<Rightarrow> u64 \<Rightarrow> 'e \<Rightarrow> batch list \<times> 'e queue_sink \<Rightarrow> bool" where
  "sink_inv deliver fin m e0 p \<longleftrightarrow>
     (case p of (acc, s) \<Rightarrow>
        sq_max_queued s = m \<and> length (sq_queue s) \<le> unat m \<and> suffix (sq_queue s) acc
        \<and> sq_queued_batches s = of_nat (length acc)
        \<and> (sq_worker s = Exited \<longrightarrow> sq_stopping s)
        \<and> (\<exists>dl k n. sink_hist deliver fin e0 acc s dl k n))"

lemma deliver_all_snoc:
  "deliver_all deliver (bs @ [b]) e =
     (case deliver_all deliver bs e of
        None \<Rightarrow> None
      | Some (n, e1) \<Rightarrow>
          (case deliver b e1 of None \<Rightarrow> None | Some (lost, e2) \<Rightarrow> Some (of_bool lost + n, e2)))"
  by (induction bs arbitrary: e) (auto split: option.splits)

lemma deliver_all_length: "deliver_all deliver bs e = Some (n, e') \<Longrightarrow> n \<le> length bs"
  by (induction bs arbitrary: e n) (fastforce split: option.splits prod.splits)+

lemma in_hand_simps [simp]:
  "in_hand Waiting = []" "in_hand (Holding b) = [b]" "in_hand Counting = []" "in_hand Exited = []"
  "in_hand (Terminated b) = [b]"
  by (simp_all add: in_hand_def)

lemma drop_loop_Some:
  "drop_loop m q w d = Some (q', w', d') \<Longrightarrow>
     \<exists>k. k \<le> length q \<and> q' = drop k q \<and> w' = w + of_nat k \<and> d' = d + of_nat k \<and> length q' < unat m"
proof (induction m q w d rule: drop_loop.induct)
  case (1 m w d)
  then show ?case by (auto split: if_splits)
next
  case (2 m b q w d)
  show ?case
  proof (cases "unat m \<le> length (b # q)")
    case True
    with 2 obtain k where "k \<le> length q" "q' = drop k q" "w' = w + 1 + of_nat k"
      "d' = d + 1 + of_nat k" "length q' < unat m" by auto
    then show ?thesis by (intro exI [of _ "Suc k"]) simp
  next
    case False
    with 2 show ?thesis by (intro exI [of _ 0]) auto
  qed
qed

lemma drop_loop_total: "0 < unat m \<Longrightarrow> drop_loop m q w d \<noteq> None"
  by (induction m q w d rule: drop_loop.induct) auto

lemma sink_inv_init: "sink_inv deliver fin m e ([], new_queue_sink m e)"
proof -
  have "sink_hist deliver fin e [] (new_queue_sink m e) [] 0 0"
    by (simp add: sink_hist_def new_queue_sink_def)
  then show ?thesis by (auto simp: sink_inv_def new_queue_sink_def)
qed

lemma subseq_drop_queue:
  assumes "subseq (a @ h @ q) acc"
  shows "subseq (a @ h @ drop k q @ [b]) (acc @ [b])"
proof -
  have "subseq (drop k q) q" by (simp add: suffix_drop suffix_imp_subseq)
  then have "subseq ((a @ h) @ drop k q) ((a @ h) @ q)" by (simp only: subseq_append')
  with assms have "subseq ((a @ h) @ drop k q) acc" by (simp add: subseq_order.order_trans)
  then have "subseq (((a @ h) @ drop k q) @ [b]) (acc @ [b])" by (rule list_emb_append_mono) simp
  then show ?thesis by simp
qed

lemma sink_inv_write:
  assumes "sink_inv deliver fin m e0 (acc, s)" and "sink_write b s = Some t"
  shows "sink_inv deliver fin m e0 (acc @ accept (Write b), t)"
proof (cases "b = []")
  case True
  with assms show ?thesis by (simp add: sink_write_def)
next
  case False
  from assms(2) False obtain q w d where
    dl: "drop_loop (sq_max_queued s) (sq_queue s) (sq_written_batches s) (sq_dropped s) = Some (q, w, d)"
    and t: "t = s\<lparr>sq_queue := q @ [b], sq_written_batches := w, sq_dropped := d,
      sq_queued_batches := sq_queued_batches s + 1\<rparr>"
    by (auto simp: sink_write_def split: option.splits)
  from drop_loop_Some [OF dl] obtain j where j: "j \<le> length (sq_queue s)" "q = drop j (sq_queue s)"
    "w = sq_written_batches s + of_nat j" "d = sq_dropped s + of_nat j"
    "length q < unat (sq_max_queued s)" by blast
  from assms(1) obtain hl k n where i: "sq_max_queued s = m" "suffix (sq_queue s) acc"
    "sq_queued_batches s = of_nat (length acc)" "sq_worker s = Exited \<longrightarrow> sq_stopping s"
    "sink_hist deliver fin e0 acc s hl k n"
    by (auto simp: sink_inv_def)
  have "suffix q acc"
    using i(2) suffix_drop [of j "sq_queue s"] j(2) by (metis suffix_order.order_trans)
  then have "suffix (q @ [b]) (acc @ [b])" by simp
  moreover have "sink_hist deliver fin e0 (acc @ [b]) t hl (k + j) n"
    using i(5) j subseq_drop_queue [of hl "in_hand (sq_worker s)" "sq_queue s" acc j b]
    by (simp add: sink_hist_def t algebra_simps)
  ultimately show ?thesis
    using i(1,3,4) j(5) False unfolding sink_inv_def by (auto simp: t)
qed

lemma sink_inv_stop:
  "sink_inv deliver fin m e0 (acc, s) \<Longrightarrow> sink_inv deliver fin m e0 (acc, sink_stop s)"
  by (simp add: sink_inv_def sink_stop_def sink_hist_def)

lemma sink_inv_worker:
  assumes inv: "sink_inv deliver fin m e0 (acc, s)" and step: "sink_worker deliver fin s = Some t"
  shows "sink_inv deliver fin m e0 (acc, t)"
proof -
  from inv obtain dl k n where h: "sink_hist deliver fin e0 acc s dl k n"
    by (auto simp: sink_inv_def)
  show ?thesis
  proof (cases "sq_worker s")
    case Waiting
    with step h have "sink_hist deliver fin e0 acc t dl k n"
      by (auto simp: sink_worker_def sink_hist_def split: list.splits if_splits)
    with Waiting step inv show ?thesis
      by (auto simp: sink_worker_def sink_inv_def dest: suffix_ConsD split: list.splits if_splits)
  next
    case (Holding b)
    show ?thesis
    proof (cases "deliver b (sq_out s)")
      case None
      with Holding step h have "sink_hist deliver fin e0 acc t dl k n"
        by (auto simp: sink_worker_def sink_hist_def)
      with Holding None step inv show ?thesis
        by (auto simp: sink_worker_def sink_inv_def)
    next
      case (Some p)
      then obtain lost e where d: "deliver b (sq_out s) = Some (lost, e)" by (cases p) simp
      with Holding step h have "sink_hist deliver fin e0 acc t (dl @ [b]) k (of_bool lost + n)"
        by (auto simp: sink_worker_def sink_hist_def deliver_all_snoc)
      with Holding d step inv show ?thesis
        by (auto simp: sink_worker_def sink_inv_def)
    qed
  next
    case Counting
    with step h have "sink_hist deliver fin e0 acc t dl k n"
      by (auto simp: sink_worker_def sink_hist_def)
    with Counting step inv show ?thesis
      by (auto simp: sink_worker_def sink_inv_def)
  qed (use step in \<open>simp_all add: sink_worker_def\<close>)
qed

text \<open>Both sinks are systems with this invariant, whatever their delivery.\<close>

interpretation queue_sys: invariant_system
    "\<lambda>p. p = ([], new_queue_sink m e0)" "sink_trans deliver fin" "sink_inv deliver fin m e0"
  for deliver :: "'e deliver" and fin m e0
proof
  fix p q :: "batch list \<times> 'e queue_sink"
  show "p = ([], new_queue_sink m e0) \<Longrightarrow> sink_inv deliver fin m e0 p"
    by (simp add: sink_inv_init)
  show "sink_inv deliver fin m e0 p \<Longrightarrow> sink_trans deliver fin p q \<Longrightarrow> sink_inv deliver fin m e0 q"
    by (cases p; cases q) (auto elim!: sink_transE intro: sink_inv_stop sink_inv_worker
        sink_inv_write [simplified])
qed

lemma sink_run_inv:
  "sink_run deliver fin evs (new_queue_sink m e0) = Some s
     \<Longrightarrow> sink_inv deliver fin m e0 (accepted evs, s)"
  using queue_sys.reachable_inv [OF refl] sink_run_trans [where acc = "[]"] by fastforce

section \<open>Waiting for the worker\<close>

text \<open>What the worker still has to do, and the state in which it has done it.\<close>

definition work :: "'e queue_sink \<Rightarrow> nat" where
  "work s = 3 * length (sq_queue s) +
     (case sq_worker s of Holding _ \<Rightarrow> 2 | Counting \<Rightarrow> 1 | _ \<Rightarrow> 0)"

definition drained :: "nat \<Rightarrow> 'e \<Rightarrow> 'e queue_sink \<Rightarrow> 'e queue_sink" where
  "drained n e s = s\<lparr>sq_queue := [], sq_worker := Waiting, sq_out := e,
     sq_dropped := sq_dropped s + of_nat n,
     sq_written_batches := sq_written_batches s + of_bool (sq_worker s = Counting)
       + of_nat (length (in_hand (sq_worker s) @ sq_queue s))\<rparr>"

text \<open>
  A batch whose delivery returns as long as the outside state satisfies \<open>J\<close>, which it keeps.
\<close>

definition deliverable :: "('e \<Rightarrow> bool) \<Rightarrow> 'e deliver \<Rightarrow> batch \<Rightarrow> bool" where
  "deliverable J deliver b \<longleftrightarrow>
     (\<forall>e. J e \<longrightarrow> (case deliver b e of None \<Rightarrow> False | Some (_, e') \<Rightarrow> J e'))"

definition running :: "worker \<Rightarrow> bool" where
  "running w \<longleftrightarrow> (case w of Exited \<Rightarrow> False | Terminated _ \<Rightarrow> False | _ \<Rightarrow> True)"

lemma running_simps [simp]:
  "running Waiting" "running (Holding b)" "running Counting" "\<not> running Exited"
  "\<not> running (Terminated b)"
  by (simp_all add: running_def)

lemma work_0: "running (sq_worker s) \<Longrightarrow> work s = 0 \<longleftrightarrow> sq_worker s = Waiting \<and> sq_queue s = []"
  by (cases "sq_worker s") (auto simp: work_def)

lemma drained_idle:
  "sq_worker s = Waiting \<Longrightarrow> sq_queue s = [] \<Longrightarrow> drained 0 (sq_out s) s = s"
  by (simp add: drained_def)

text \<open>A step of a worker that has something to do does a part of it.\<close>

lemma sink_worker_progress:
  assumes "running (sq_worker s)" and "0 < work s" and "J (sq_out s)"
    and "\<forall>b \<in> set (in_hand (sq_worker s) @ sq_queue s). deliverable J deliver b"
  obtains t where "sink_worker deliver fin s = Some t" and "work t < work s"
    and "running (sq_worker t)" and "J (sq_out t)"
    and "\<forall>b \<in> set (in_hand (sq_worker t) @ sq_queue t). deliverable J deliver b"
    and "\<And>n e. deliver_all deliver (in_hand (sq_worker t) @ sq_queue t) (sq_out t) = Some (n, e)
      \<Longrightarrow> \<exists>n'. deliver_all deliver (in_hand (sq_worker s) @ sq_queue s) (sq_out s) = Some (n', e)
           \<and> drained n e t = drained n' e s"
proof (cases "sq_worker s")
  case Waiting
  with assms obtain b q where q: "sq_queue s = b # q" by (cases "sq_queue s") (auto simp: work_def)
  show ?thesis
    by (rule that [of "s\<lparr>sq_queue := q, sq_worker := Holding b\<rparr>"])
      (use Waiting q assms in \<open>auto simp: sink_worker_def work_def drained_def\<close>)
next
  case (Holding b)
  with assms(4) have "deliverable J deliver b" by simp
  with assms(3) obtain lost e where d: "deliver b (sq_out s) = Some (lost, e)" "J e"
    unfolding deliverable_def by (cases "deliver b (sq_out s)") (use assms(3) in auto)
  show ?thesis
    by (rule that [of "s\<lparr>sq_worker := Counting, sq_out := e, sq_dropped := sq_dropped s + of_bool lost\<rparr>"])
      (use Holding d assms in \<open>auto simp: sink_worker_def work_def drained_def\<close>)
next
  case Counting
  show ?thesis
    by (rule that [of "s\<lparr>sq_worker := Waiting, sq_written_batches := sq_written_batches s + 1\<rparr>"])
      (use Counting assms in \<open>auto simp: sink_worker_def work_def drained_def\<close>)
qed (use assms in simp_all)

lemma wait_until_drain:
  assumes "running (sq_worker s)" and "J (sq_out s)"
    and "\<forall>b \<in> set (in_hand (sq_worker s) @ sq_queue s). deliverable J deliver b"
    and "I s" and "\<And>s t. I s \<Longrightarrow> sink_worker deliver fin s = Some t \<Longrightarrow> I t"
    and "\<And>t. I t \<Longrightarrow> 0 < work t \<Longrightarrow> \<not> done_p t"
  shows "\<exists>n e. deliver_all deliver (in_hand (sq_worker s) @ sq_queue s) (sq_out s) = Some (n, e)
     \<and> I (drained n e s)
     \<and> wait_until (sink_worker deliver fin) done_p s
         = wait_until (sink_worker deliver fin) done_p (drained n e s)"
  using assms(1-4)
proof (induction "work s" arbitrary: s rule: less_induct)
  case less
  show ?case
  proof (cases "work s = 0")
    case True
    with less.prems work_0 have "sq_worker s = Waiting" "sq_queue s = []" by auto
    with less.prems(4) show ?thesis
      by (intro exI [of _ 0] exI [of _ "sq_out s"]) (simp add: drained_idle)
  next
    case False
    then obtain t where t: "sink_worker deliver fin s = Some t" "work t < work s"
      "running (sq_worker t)" "J (sq_out t)"
      "\<forall>b \<in> set (in_hand (sq_worker t) @ sq_queue t). deliverable J deliver b"
      and dr: "\<And>n e. deliver_all deliver (in_hand (sq_worker t) @ sq_queue t) (sq_out t) = Some (n, e)
      \<Longrightarrow> \<exists>n'. deliver_all deliver (in_hand (sq_worker s) @ sq_queue s) (sq_out s) = Some (n', e)
           \<and> drained n e t = drained n' e s"
      using sink_worker_progress [of s J deliver fin] less.prems(1-3) by (metis gr0I)
    have "I t" using assms(5) less.prems(4) t(1) by blast
    then obtain n e where n:
      "deliver_all deliver (in_hand (sq_worker t) @ sq_queue t) (sq_out t) = Some (n, e)"
      "I (drained n e t)"
      "wait_until (sink_worker deliver fin) done_p t
         = wait_until (sink_worker deliver fin) done_p (drained n e t)"
      using less.hyps [OF t(2,3,4,5)] by blast
    have "\<not> done_p s" using assms(6) less.prems(4) False by simp
    then have "wait_until (sink_worker deliver fin) done_p s
        = wait_until (sink_worker deliver fin) done_p t"
      using t(1) by (simp add: wait_until.simps [of _ _ s])
    with n dr [OF n(1)] show ?thesis by metis
  qed
qed

text \<open>\<^verbatim>\<open>flush\<close>'s predicate says what it should: nothing queued, nothing in the worker's hands.\<close>

lemma flush_ready_iff:
  assumes inv: "sink_inv deliver fin m e0 (acc, s)" and "\<not> sq_stopping s"
    and small: "length acc < 2 ^ 64"
  shows "flush_ready (sq_queued_batches s) s \<longleftrightarrow> sq_worker s = Waiting \<and> sq_queue s = []"
proof -
  from inv obtain dl k n where h: "sink_hist deliver fin e0 acc s dl k n"
    and q: "sq_queued_batches s = of_nat (length acc)" and x: "sq_worker s \<noteq> Exited"
    using assms(2) by (auto simp: sink_inv_def)
  let ?c = "if sq_worker s = Counting then 1 else 0 :: nat"
  from h have len: "length acc = k + length dl + length (in_hand (sq_worker s)) + length (sq_queue s)"
    and c: "?c \<le> k + length dl" by (cases dl; simp add: sink_hist_def)+
  have "sq_written_batches s = of_nat (k + length dl) - of_nat ?c"
    using h by (auto simp: sink_hist_def eq_diff_eq split: if_splits)
  also have "\<dots> = of_nat (k + length dl - ?c)" using c by (simp only: of_nat_diff)
  finally have "unat (sq_written_batches s) = k + length dl - ?c"
    using len small by (simp add: unsigned_of_nat take_bit_nat_eq_self del: of_nat_diff)
  moreover have "unat (sq_queued_batches s) = length acc"
    using q small by (simp add: unsigned_of_nat take_bit_nat_eq_self)
  ultimately have "flush_ready (sq_queued_batches s) s \<longleftrightarrow> length acc \<le> k + length dl - ?c"
    using assms(2) by (simp add: flush_ready_def word_le_nat_alt)
  with len c x show ?thesis by (cases "sq_worker s") auto
qed

lemma sink_worker_frame:
  "sink_worker deliver fin s = Some t \<Longrightarrow>
     sq_stopping t = sq_stopping s \<and> sq_queued_batches t = sq_queued_batches s"
  by (auto simp: sink_worker_def split: worker.splits list.splits option.splits if_splits)

lemma drained_frame [simp]:
  "sq_stopping (drained n e s) = sq_stopping s" "sq_queued_batches (drained n e s) = sq_queued_batches s"
  "sq_worker (drained n e s) = Waiting" "sq_queue (drained n e s) = []" "sq_out (drained n e s) = e"
  by (simp_all add: drained_def)

lemma sink_flush_drains:
  assumes inv: "sink_inv deliver fin m e0 (acc, s)" and "\<not> sq_stopping s" and "length acc < 2 ^ 64"
    and alive: "process_alive s" and J: "J (sq_out s)"
    and "\<forall>b \<in> set (in_hand (sq_worker s) @ sq_queue s). deliverable J deliver b"
  shows "\<exists>n e. deliver_all deliver (in_hand (sq_worker s) @ sq_queue s) (sq_out s) = Some (n, e)
     \<and> sink_flush deliver fin s = Some (drained n e s)
     \<and> sink_inv deliver fin m e0 (acc, drained n e s)"
proof -
  let ?I = "\<lambda>t. sink_inv deliver fin m e0 (acc, t) \<and> \<not> sq_stopping t
     \<and> sq_queued_batches t = sq_queued_batches s"
  have run: "running (sq_worker s)"
    using inv assms(2) alive
    by (cases "sq_worker s") (auto simp: sink_inv_def process_alive_def)
  have ready: "flush_ready (sq_queued_batches s) t \<longleftrightarrow> sq_worker t = Waiting \<and> sq_queue t = []"
    if "?I t" for t
    using flush_ready_iff [of deliver fin m e0 acc t] that assms(3) by simp
  have "\<exists>n e. deliver_all deliver (in_hand (sq_worker s) @ sq_queue s) (sq_out s) = Some (n, e)
     \<and> ?I (drained n e s)
     \<and> wait_until (sink_worker deliver fin) (flush_ready (sq_queued_batches s)) s
         = wait_until (sink_worker deliver fin) (flush_ready (sq_queued_batches s)) (drained n e s)"
  proof (rule wait_until_drain [OF run J assms(6)])
    show "?I s" using inv assms(2) by simp
    show "?I t" if "?I u" "sink_worker deliver fin u = Some t" for u t
      using that sink_inv_worker sink_worker_frame by metis
    show "\<not> flush_ready (sq_queued_batches s) t" if "?I t" "0 < work t" for t
      using ready [OF that(1)] that(2) by (auto simp: work_def)
  qed
  then obtain n e where n:
    "deliver_all deliver (in_hand (sq_worker s) @ sq_queue s) (sq_out s) = Some (n, e)"
    "?I (drained n e s)" "sink_flush deliver fin s =
       wait_until (sink_worker deliver fin) (flush_ready (sq_queued_batches s)) (drained n e s)"
    unfolding sink_flush_def by blast
  moreover have "flush_ready (sq_queued_batches s) (drained n e s)"
    using ready [OF n(2)] by simp
  ultimately show ?thesis by (simp add: wait_until.simps [of _ _ "drained n e s"])
qed

lemma sink_destroy_drains:
  assumes "running (sq_worker s)" and "J (sq_out s)"
    and "\<forall>b \<in> set (in_hand (sq_worker s) @ sq_queue s). deliverable J deliver b"
  shows "\<exists>n e. deliver_all deliver (in_hand (sq_worker s) @ sq_queue s) (sq_out s) = Some (n, e)
     \<and> sink_destroy deliver fin s
         = Some ((drained n e (sink_stop s))\<lparr>sq_worker := Exited, sq_out := fin e\<rparr>)"
proof -
  let ?s = "sink_stop s"
  let ?I = "\<lambda>t. sq_stopping t \<and> (sq_worker t = Exited \<longrightarrow> sq_queue t = [])"
  have "\<exists>n e. deliver_all deliver (in_hand (sq_worker ?s) @ sq_queue ?s) (sq_out ?s) = Some (n, e)
     \<and> ?I (drained n e ?s)
     \<and> wait_until (sink_worker deliver fin) (\<lambda>t. sq_worker t = Exited) ?s
         = wait_until (sink_worker deliver fin) (\<lambda>t. sq_worker t = Exited) (drained n e ?s)"
  proof (rule wait_until_drain [where J = J])
    show "?I t" if "?I u" "sink_worker deliver fin u = Some t" for u t
      using that by (auto simp: sink_worker_def split: worker.splits list.splits option.splits if_splits)
    show "sq_worker t \<noteq> Exited" if "?I t" "0 < work t" for t
      using that by (auto simp: work_def)
  qed (use assms in \<open>auto simp: sink_stop_def\<close>)
  then obtain n e where n:
    "deliver_all deliver (in_hand (sq_worker s) @ sq_queue s) (sq_out s) = Some (n, e)"
    "sink_destroy deliver fin s =
       wait_until (sink_worker deliver fin) (\<lambda>t. sq_worker t = Exited) (drained n e ?s)"
    unfolding sink_destroy_def by (auto simp: sink_stop_def)
  moreover have "sink_worker deliver fin (drained n e ?s)
      = Some ((drained n e ?s)\<lparr>sq_worker := Exited, sq_out := fin e\<rparr>)"
    by (simp add: sink_worker_def) (simp add: sink_stop_def)
  ultimately show ?thesis by (simp add: wait_until.simps)
qed

section \<open>The stdout sink and the null sink\<close>

text \<open>The body a sink writes: one JSON text and a newline per record.\<close>

fun ndjson :: "json_dump \<Rightarrow> batch \<Rightarrow> string option" where
  "ndjson dump [] = Some []"
| "ndjson dump (r # rs) =
     (case to_json dump r of
        None \<Rightarrow> None
      | Some t \<Rightarrow> map_option (\<lambda>rest. t @ CHR 0x0A # rest) (ndjson dump rs))"

definition stdout_deliver :: "json_dump \<Rightarrow> string deliver" where
  "stdout_deliver dump batch out = map_option (\<lambda>text. (False, out @ text)) (ndjson dump batch)"

type_synonym stdout_sink = "string queue_sink"

definition new_stdout_sink :: "u64 \<Rightarrow> stdout_sink" where
  "new_stdout_sink max_queued_batches =
     new_queue_sink (if max_queued_batches = 0 then 1 else max_queued_batches) []"

definition stdout_worker :: "json_dump \<Rightarrow> stdout_sink \<Rightarrow> stdout_sink option" where
  "stdout_worker dump = sink_worker (stdout_deliver dump) id"

text \<open>\<^verbatim>\<open>flush\<close> ends with \<^verbatim>\<open>fflush\<close>, which does not change what was written.\<close>

definition stdout_flush :: "json_dump \<Rightarrow> stdout_sink \<Rightarrow> stdout_sink option" where
  "stdout_flush dump = sink_flush (stdout_deliver dump) id"

definition stdout_destroy :: "json_dump \<Rightarrow> stdout_sink \<Rightarrow> stdout_sink option" where
  "stdout_destroy dump = sink_destroy (stdout_deliver dump) id"

definition stdout_run :: "json_dump \<Rightarrow> sink_event list \<Rightarrow> stdout_sink \<Rightarrow> stdout_sink option" where
  "stdout_run dump = sink_run (stdout_deliver dump) id"

record null_sink = ns_records :: u64

definition null_write :: "batch \<Rightarrow> null_sink \<Rightarrow> null_sink option" where
  "null_write batch s = Some (s\<lparr>ns_records := ns_records s + of_nat (length batch)\<rparr>)"

section \<open>What a sink promises the pipeline\<close>

fun write_list :: "(batch \<Rightarrow> 's \<Rightarrow> 's option) \<Rightarrow> batch list \<Rightarrow> 's \<Rightarrow> 's option" where
  "write_list wr [] s = Some s"
| "write_list wr (b # bs) s = (case wr b s of None \<Rightarrow> None | Some t \<Rightarrow> write_list wr bs t)"

locale sink_contract =
  fixes wr :: "batch \<Rightarrow> 's \<Rightarrow> 's option"
    and good :: "'s \<Rightarrow> bool"
    and load :: "'s \<Rightarrow> nat"
    and cap :: "'s \<Rightarrow> nat"
  assumes write_total: "good s \<Longrightarrow> \<exists>t. wr b s = Some t"
    and write_good: "good s \<Longrightarrow> wr b s = Some t \<Longrightarrow> good t \<and> cap t = cap s"
    and bounded: "good s \<Longrightarrow> load s \<le> cap s"
begin

text \<open>Under any amount of writing a sink accepts everything in bounded memory.\<close>

lemma write_list_bounded:
  "good s \<Longrightarrow> \<exists>t. write_list wr bs s = Some t \<and> good t \<and> load t \<le> cap s"
proof (induction bs arbitrary: s)
  case Nil
  then show ?case by (simp add: bounded)
next
  case (Cons b bs)
  obtain t where t: "wr b s = Some t" using write_total [OF Cons.prems] by blast
  with Cons.prems have "good t" "cap t = cap s" using write_good by blast+
  with Cons.IH [of t] t show ?case by simp
qed

end

definition queue_good :: "'e queue_sink \<Rightarrow> bool" where
  "queue_good s \<longleftrightarrow> 0 < unat (sq_max_queued s) \<and> length (sq_queue s) \<le> unat (sq_max_queued s)"

lemma drop_loop_full:
  assumes "0 < unat m" and "length q \<le> unat m"
  shows "drop_loop m q w d =
    (if length q < unat m then Some (q, w, d) else Some (tl q, w + 1, d + 1))"
  using assms by (cases q; cases "tl q") auto

interpretation queue_contract: sink_contract sink_write queue_good
    "\<lambda>s. length (sq_queue s)" "\<lambda>s. unat (sq_max_queued s)"
  by unfold_locales
    (auto simp: sink_write_def queue_good_def drop_loop_full split: if_splits)

interpretation null_contract: sink_contract null_write "\<lambda>_. True" "\<lambda>_. 0" "\<lambda>_. 0"
  by unfold_locales (auto simp: null_write_def)

section \<open>Pieces\<close>

lemma ndjson_append:
  "ndjson dump (a @ b) =
     (case ndjson dump a of None \<Rightarrow> None | Some t \<Rightarrow> map_option ((@) t) (ndjson dump b))"
  by (induction a; cases "ndjson dump b") (auto split: option.splits)

lemma ndjson_None_iff: "ndjson dump b = None \<longleftrightarrow> (\<exists>r \<in> set b. to_json dump r = None)"
  by (induction b) (auto split: option.splits)

lemma stdout_deliver_all_eq:
  "deliver_all (stdout_deliver dump) bs out = map_option (\<lambda>text. (0, out @ text)) (ndjson dump (concat bs))"
proof (induction bs arbitrary: out)
  case (Cons b bs)
  then show ?case
    by (cases "ndjson dump b"; cases "ndjson dump (concat bs)")
      (simp_all add: stdout_deliver_def ndjson_append)
qed simp

lemma stdout_deliver_all:
  "deliver_all (stdout_deliver dump) bs out = Some (n, out') \<longleftrightarrow>
     n = 0 \<and> (\<exists>text. ndjson dump (concat bs) = Some text \<and> out' = out @ text)"
  by (auto simp: stdout_deliver_all_eq)

lemma stdout_deliverable:
  "deliverable (\<lambda>_. True) (stdout_deliver dump) b \<longleftrightarrow> (\<forall>r \<in> set b. to_json dump r \<noteq> None)"
  using ndjson_None_iff [of dump b]
  by (cases "ndjson dump b") (auto simp: deliverable_def stdout_deliver_def)

lemma sink_run_append:
  "sink_run deliver fin (xs @ ys) s =
     (case sink_run deliver fin xs s of None \<Rightarrow> None | Some t \<Rightarrow> sink_run deliver fin ys t)"
  by (induction xs arbitrary: s) (auto split: option.splits)

lemma stdout_run_inv:
  "stdout_run dump evs (new_stdout_sink max_queued) = Some s \<Longrightarrow>
     sink_inv (stdout_deliver dump) id (if max_queued = 0 then 1 else max_queued) [] (accepted evs, s)"
  by (simp add: stdout_run_def new_stdout_sink_def sink_run_inv)

lemma subseq_set: "subseq xs ys \<Longrightarrow> set xs \<subseteq> set ys"
  by (metis subseq_singleton_left subseq_order.trans subsetI)

text \<open>While every batch can be delivered the worker does not end the process.\<close>

lemma sink_run_alive:
  assumes "sink_run deliver fin evs (new_queue_sink m e0) = Some s"
    and "\<forall>b \<in> set (accepted evs). deliverable J deliver b"
    and "J e0" and "\<And>e. J e \<Longrightarrow> J (fin e)"
  shows "process_alive s \<and> J (sq_out s)"
  using assms(1,2)
proof (induction evs arbitrary: s rule: rev_induct)
  case Nil
  then show ?case using assms(3) by (auto simp: new_queue_sink_def process_alive_def)
next
  case (snoc ev evs)
  then obtain s1 where s1: "sink_run deliver fin evs (new_queue_sink m e0) = Some s1"
    "sink_exec deliver fin ev s1 = Some s" by (auto simp: sink_run_append split: option.splits)
  have ok: "\<forall>b \<in> set (accepted evs). deliverable J deliver b"
    using snoc.prems(2) by (simp add: accepted_def)
  have alive: "process_alive s1" "J (sq_out s1)" using snoc.IH [OF s1(1) ok] by simp_all
  from sink_run_inv [OF s1(1)] obtain dl k n where "sink_hist deliver fin e0 (accepted evs) s1 dl k n"
    by (auto simp: sink_inv_def)
  then have "subseq (dl @ in_hand (sq_worker s1) @ sq_queue s1) (accepted evs)" by (simp add: sink_hist_def)
  then have "set (in_hand (sq_worker s1)) \<subseteq> set (accepted evs)"
    using subseq_set by fastforce
  with ok alive(2) have "\<exists>lost e. deliver b (sq_out s1) = Some (lost, e) \<and> J e" if "sq_worker s1 = Holding b" for b
    using that by (fastforce simp: deliverable_def split: option.splits)
  with alive s1(2) assms(4) show ?case
    by (cases ev; cases "sq_worker s1")
      (fastforce simp: sink_exec_def process_alive_def sink_write_def sink_stop_def sink_worker_def
        split: if_splits option.splits list.splits)+
qed

text \<open>
  A flush after any run: it returns, and all batches accepted but the \<open>k\<close> dropped on overflow
  have been delivered, \<open>n\<close> of them in vain.
\<close>

lemma flushed_sink:
  assumes run: "sink_run deliver fin evs (new_queue_sink m e0) = Some s"
    and del: "\<forall>b \<in> set (accepted evs). deliverable J deliver b"
    and J: "J e0" "\<And>e. J e \<Longrightarrow> J (fin e)"
    and stop: "\<not> sq_stopping s" and small: "length (accepted evs) < 2 ^ 64"
  shows "\<exists>t dl k n. sink_flush deliver fin s = Some t \<and> sq_queue t = [] \<and> sq_worker t = Waiting
    \<and> deliver_all deliver dl e0 = Some (n, sq_out t) \<and> subseq dl (accepted evs)
    \<and> length (accepted evs) = length dl + k \<and> unat (sq_dropped t) = k + n"
proof -
  note alive = sink_run_alive [OF run del J] and inv = sink_run_inv [OF run]
  from inv obtain dl k n where "sink_hist deliver fin e0 (accepted evs) s dl k n"
    by (auto simp: sink_inv_def)
  then have "subseq (dl @ in_hand (sq_worker s) @ sq_queue s) (accepted evs)" by (simp add: sink_hist_def)
  then have "set (in_hand (sq_worker s) @ sq_queue s) \<subseteq> set (accepted evs)" using subseq_set by fastforce
  with del have "\<forall>b \<in> set (in_hand (sq_worker s) @ sq_queue s). deliverable J deliver b" by blast
  from sink_flush_drains [OF inv stop small _ _ this] alive obtain n e where
    f: "sink_flush deliver fin s = Some (drained n e s)" "sink_inv deliver fin m e0 (accepted evs, drained n e s)"
    by blast
  then obtain dl k n' where h: "sink_hist deliver fin e0 (accepted evs) (drained n e s) dl k n'"
    by (auto simp: sink_inv_def)
  then have d: "deliver_all deliver dl e0 = Some (n', e)" and len: "length (accepted evs) = k + length dl"
    and sub: "subseq dl (accepted evs)" and c: "sq_dropped (drained n e s) = of_nat (k + n')"
    by (simp_all add: sink_hist_def)
  have "k + n' < 2 ^ 64" using deliver_all_length [OF d] len small by simp
  with c have "unat (sq_dropped (drained n e s)) = k + n'"
    by (simp add: unsigned_of_nat take_bit_nat_eq_self del: of_nat_add)
  with f(1) d len sub show ?thesis by (intro exI [of _ "drained n e s"] exI [of _ dl]) simp
qed

text \<open>Without a step of the worker, the queue is the newest batches.\<close>

lemma write_only_run:
  assumes "0 < unat m" and "\<forall>b \<in> set bs. b \<noteq> []"
  shows "\<exists>s. sink_run deliver fin (map Write bs) (new_queue_sink m e) = Some s
    \<and> sq_max_queued s = m \<and> sq_worker s = Waiting
    \<and> sq_queue s = drop (length bs - unat m) bs
    \<and> sq_dropped s = of_nat (length bs - unat m)"
  using assms(2)
proof (induction bs rule: rev_induct)
  case Nil
  then show ?case by (simp add: new_queue_sink_def)
next
  case (snoc b bs)
  then obtain s where s: "sink_run deliver fin (map Write bs) (new_queue_sink m e) = Some s"
    "sq_max_queued s = m" "sq_worker s = Waiting" "sq_queue s = drop (length bs - unat m) bs"
    "sq_dropped s = of_nat (length bs - unat m)" by auto
  show ?case
  proof (cases "length bs < unat m")
    case True
    with s snoc.prems assms(1) show ?thesis
      by (simp add: sink_run_append sink_exec_def process_alive_def sink_write_def drop_loop_full)
  next
    case False
    then have "length (sq_queue s) = unat m" and "Suc (length bs) - unat m = Suc (length bs - unat m)"
      using s(4) by auto
    with False s snoc.prems assms(1) show ?thesis
      by (simp add: sink_run_append sink_exec_def process_alive_def sink_write_def drop_loop_full
          tl_drop drop_Suc)
  qed
qed

section \<open>Properties\<close>

text \<open>
  C22. Whatever the interleaving of writes, worker steps and shutdown, the stdout sink keeps
  at most its configured number of batches, always the newest; the stream has received the
  JSON lines of a subsequence of the accepted batches, each at most once and in order; and
  every accepted batch is written, in hand, queued or counted as dropped.
\<close>

theorem stdout_sink_history:
  assumes "stdout_run dump evs (new_stdout_sink max_queued) = Some s"
  shows "length (sq_queue s) \<le> max 1 (unat max_queued) \<and> suffix (sq_queue s) (accepted evs)
    \<and> (\<exists>dl k. ndjson dump (concat dl) = Some (sq_out s)
         \<and> subseq (dl @ in_hand (sq_worker s) @ sq_queue s) (accepted evs)
         \<and> length (accepted evs) = k + length dl + length (in_hand (sq_worker s)) + length (sq_queue s)
         \<and> sq_dropped s = of_nat k)"
proof -
  note inv = stdout_run_inv [OF assms]
  then obtain dl k n where h: "sink_hist (stdout_deliver dump) id [] (accepted evs) s dl k n"
    by (auto simp: sink_inv_def)
  then have "n = 0" and "ndjson dump (concat dl) = Some (sq_out s)"
    by (auto simp: sink_hist_def stdout_deliver_all)
  with h have "ndjson dump (concat dl) = Some (sq_out s)
      \<and> subseq (dl @ in_hand (sq_worker s) @ sq_queue s) (accepted evs)
      \<and> length (accepted evs) = k + length dl + length (in_hand (sq_worker s)) + length (sq_queue s)
      \<and> sq_dropped s = of_nat k"
    by (simp add: sink_hist_def)
  then show ?thesis
    using inv by (auto simp: sink_inv_def max_def split: if_splits)
qed

definition example_dump :: json_dump where
  "example_dump j = (if json_utf8 j then Some ''{}'' else None)"

definition example_record :: st_record where
  "example_record = empty_record\<lparr>rec_comm := ''sleep''\<rparr>"

definition bad_record :: st_record where
  "bad_record = empty_record\<lparr>rec_comm := [CHR 0xFF]\<rparr>"

lemma example_dump_strict: "dump_strict example_dump"
  by (simp add: dump_strict_def example_dump_def)

lemma stdout_sink_history_witness:
  "length (sq_queue (the (stdout_run example_dump [Write [example_record], Write [], Worker, Worker]
     (new_stdout_sink 0)))) \<le> 1"
proof -
  define s where "s = the (stdout_run example_dump [Write [example_record], Write [], Worker, Worker]
     (new_stdout_sink 0))"
  have "stdout_run example_dump [Write [example_record], Write [], Worker, Worker] (new_stdout_sink 0)
      \<noteq> None" by code_simp
  then have "stdout_run example_dump [Write [example_record], Write [], Worker, Worker]
      (new_stdout_sink 0) = Some s" by (simp add: s_def)
  from stdout_sink_history [OF this] show ?thesis by (simp add: s_def)
qed

text \<open>
  Overload: written to faster than its worker runs, a sink with room for \<open>m\<close> batches
  holds the last \<open>m\<close> of them and has counted all the others as dropped.
\<close>

lemma sink_drops_oldest:
  assumes "0 < unat m" and "\<forall>b \<in> set bs. b \<noteq> []"
    and "sink_run deliver fin (map Write bs) (new_queue_sink m e) = Some s"
  shows "sq_queue s = drop (length bs - unat m) bs \<and> sq_dropped s = of_nat (length bs - unat m)"
  using write_only_run [OF assms(1,2), of deliver fin e] assms(3) by auto

lemma sink_drops_oldest_witness:
  "\<exists>s. sink_run (stdout_deliver example_dump) id
        (map Write [[example_record], [bad_record], [bad_record, example_record]])
        (new_queue_sink 2 []) = Some s
    \<and> sq_queue s = [[bad_record], [bad_record, example_record]] \<and> sq_dropped s = 1"
proof -
  define bs where "bs = [[example_record], [bad_record], [bad_record, example_record]]"
  have ne: "\<forall>b \<in> set bs. b \<noteq> []" and one: "length bs - unat (2 :: u64) = 1" "0 < unat (2 :: u64)"
    by (simp_all add: bs_def)
  obtain s where s: "sink_run (stdout_deliver example_dump) id (map Write bs) (new_queue_sink 2 []) = Some s"
    using write_only_run [OF one(2) ne, of "stdout_deliver example_dump" id "[]"] by blast
  from sink_drops_oldest [OF one(2) ne s] one(1)
  have "sq_queue s = drop 1 bs \<and> sq_dropped s = 1" by simp
  with s show ?thesis unfolding bs_def by auto
qed

text \<open>
  \<^verbatim>\<open>flush\<close> on the stdout sink returns, and when it does everything accepted before it and
  not yet dropped is on the stream: what the worker held, then the queue, in order. (The
  process is alive, the sink is not being destroyed, and no pending record makes \<^verbatim>\<open>dump\<close>
  throw; the counters are 64 bits wide.)
\<close>

lemma stdout_flush_writes_all:
  assumes "stdout_run dump evs (new_stdout_sink max_queued) = Some s"
    and "\<not> sq_stopping s" and "process_alive s" and "length (accepted evs) < 2 ^ 64"
    and "\<forall>r \<in> set (concat (in_hand (sq_worker s) @ sq_queue s)). to_json dump r \<noteq> None"
  shows "\<exists>t text. stdout_flush dump s = Some t
    \<and> ndjson dump (concat (in_hand (sq_worker s) @ sq_queue s)) = Some text
    \<and> sq_out t = sq_out s @ text \<and> sq_queue t = [] \<and> sq_worker t = Waiting
    \<and> sq_dropped t = sq_dropped s"
proof -
  have "\<forall>b \<in> set (in_hand (sq_worker s) @ sq_queue s). deliverable (\<lambda>_. True) (stdout_deliver dump) b"
    using assms(5) by (auto simp: stdout_deliverable)
  from sink_flush_drains [OF stdout_run_inv [OF assms(1)] assms(2,4,3) TrueI this]
  obtain n e where "deliver_all (stdout_deliver dump) (in_hand (sq_worker s) @ sq_queue s) (sq_out s) = Some (n, e)"
    and "sink_flush (stdout_deliver dump) id s = Some (drained n e s)" by blast
  then show ?thesis by (auto simp: stdout_flush_def stdout_deliver_all drained_def)
qed

lemma stdout_flush_writes_all_witness:
  "\<exists>t. stdout_flush example_dump
         (the (stdout_run example_dump [Write [example_record], Worker, Write [example_record]]
            (new_stdout_sink 4))) = Some t
    \<and> sq_queue t = []"
proof -
  let ?evs = "[Write [example_record], Worker, Write [example_record]]"
  define s where "s = the (stdout_run example_dump ?evs (new_stdout_sink 4))"
  have "stdout_run example_dump ?evs (new_stdout_sink 4) \<noteq> None" by code_simp
  then have s: "stdout_run example_dump ?evs (new_stdout_sink 4) = Some s" by (simp add: s_def)
  have *: "\<not> sq_stopping s" "process_alive s" "length (accepted ?evs) < 2 ^ 64"
    "\<forall>r \<in> set (concat (in_hand (sq_worker s) @ sq_queue s)). to_json example_dump r \<noteq> None"
    unfolding s_def by code_simp+
  show ?thesis
    using stdout_flush_writes_all [OF s *] by (auto simp: s_def)
qed

text \<open>
  Destroying a stdout sink whose worker runs drains it: the destructor returns once the
  worker has written all it held and all that was queued.
\<close>

lemma stdout_destroy_writes_all:
  assumes "running (sq_worker s)"
    and "\<forall>r \<in> set (concat (in_hand (sq_worker s) @ sq_queue s)). to_json dump r \<noteq> None"
  shows "\<exists>t text. stdout_destroy dump s = Some t
    \<and> ndjson dump (concat (in_hand (sq_worker s) @ sq_queue s)) = Some text
    \<and> sq_out t = sq_out s @ text \<and> sq_queue t = [] \<and> sq_worker t = Exited"
proof -
  have "\<forall>b \<in> set (in_hand (sq_worker s) @ sq_queue s). deliverable (\<lambda>_. True) (stdout_deliver dump) b"
    using assms(2) by (auto simp: stdout_deliverable)
  from sink_destroy_drains [OF assms(1) TrueI this, of id]
  obtain n e where "deliver_all (stdout_deliver dump) (in_hand (sq_worker s) @ sq_queue s) (sq_out s) = Some (n, e)"
    and "sink_destroy (stdout_deliver dump) id s
      = Some ((drained n e (sink_stop s))\<lparr>sq_worker := Exited, sq_out := id e\<rparr>)" by blast
  then show ?thesis by (auto simp: stdout_destroy_def stdout_deliver_all)
qed

lemma stdout_destroy_writes_all_witness:
  "\<exists>t. stdout_destroy example_dump
       ((new_stdout_sink 4)\<lparr>sq_queue := [[example_record]]\<rparr>) = Some t \<and> sq_worker t = Exited"
  using stdout_destroy_writes_all [of "(new_stdout_sink 4)\<lparr>sq_queue := [[example_record]]\<rparr>" example_dump]
  by (auto simp: new_stdout_sink_def new_queue_sink_def to_json_def example_dump_def
      example_record_def record_to_json_def fold_ojson_set_distinct empty_record_def json_opt_def
      json_word_def utf8_def)

text \<open>One record that \<^verbatim>\<open>dump\<close> refuses ends the process: nothing catches the exception.\<close>

lemma stdout_not_utf8_terminates:
  assumes "dump_strict dump" and "r \<in> set batch" and "\<not> utf8 (rec_comm r)"
  shows "\<exists>s. stdout_run dump [Write batch, Worker, Worker] (new_stdout_sink max_queued) = Some s
    \<and> \<not> process_alive s \<and> sq_out s = [] \<and> (\<forall>ev. sink_exec (stdout_deliver dump) id ev s = None)"
proof -
  have "ndjson dump batch = None"
    using to_json_comm_not_utf8 [OF assms(1,3)] assms(2) by (auto simp: ndjson_None_iff)
  moreover have "batch \<noteq> []" using assms(2) by auto
  moreover have "unat max_queued \<noteq> 0" if "max_queued \<noteq> 0"
    using that by (simp add: unat_eq_0)
  ultimately show ?thesis
    by (simp add: stdout_run_def new_stdout_sink_def new_queue_sink_def sink_exec_def
        process_alive_def sink_write_def sink_worker_def stdout_deliver_def)
qed

end
