(* ===== verification/HttpClient.thy ===== *)
theory HttpClient
  imports Prelude "HOL-Library.Signed_Division"
begin

text \<open>
  The HTTP/1.1 client of \<^verbatim>\<open>src/sinks/http/sink.cpp\<close>: connecting, writing a request, framing
  the response (\<^verbatim>\<open>write_all\<close>, \<^verbatim>\<open>parse_status_code\<close>, \<^verbatim>\<open>header_value\<close>, \<^verbatim>\<open>ensure_connected\<close>,
  \<^verbatim>\<open>close_connection\<close>, \<^verbatim>\<open>post\<close>). The network is a script: what each lookup, each
  \<^verbatim>\<open>send\<close> and each \<^verbatim>\<open>recv\<close> returns. Past the end of a script the peer is silent: it takes
  nothing more, or sends nothing more. What a call then does depends on the timeouts of its
  socket: it fails after them, or it never returns.
\<close>

section \<open>State\<close>

text \<open>A call into the client returns, meets a signal that ends the process, or blocks for ever.\<close>

datatype 'a outcome = Returns 'a | Killed | Blocks

text \<open>
  Trying one address: no socket, no connection, or a descriptor. (A \<^verbatim>\<open>connect\<close> nobody answers
  fails, by the send timeout or by the kernel's own limit on retries.)
\<close>

datatype addr_attempt = Socket_Failed | Connect_Failed | Connect_Ok nat

text \<open>
  A \<^verbatim>\<open>send\<close> that took \<open>n\<close> bytes, was interrupted, failed, or found the connection closed by the
  peer. The last raises \<^verbatim>\<open>SIGPIPE\<close> (no \<^verbatim>\<open>MSG_NOSIGNAL\<close>, and the daemon does not ignore the
  signal): the process ends.
\<close>

datatype send_result = Sent nat | Send_Interrupted | Send_Failed | Send_Broken_Pipe

record http_options =
  ho_host :: string
  ho_port :: u16
  ho_path :: string
  ho_max_queued_batches :: u64
  ho_timeout :: int

text \<open>
  \<open>hc_lookups\<close>: per \<^verbatim>\<open>getaddrinfo\<close> call, failure or the attempts on the addresses found.
  \<open>hc_recvs\<close>: per \<^verbatim>\<open>recv\<close> call, the bytes received, none for an error or end of file.
  \<open>hc_sent\<close>: the bytes the kernel took on the current connection. \<open>hc_timeout\<close>: what
  \<^verbatim>\<open>SO_RCVTIMEO\<close> and \<^verbatim>\<open>SO_SNDTIMEO\<close> of its socket are, in microseconds; \<^const>\<open>None\<close> is no timeout.
\<close>

record http_conn =
  hc_fd :: int
  hc_lookups :: "addr_attempt list option list"
  hc_sends :: "send_result list"
  hc_recvs :: "string list"
  hc_sent :: string
  hc_timeout :: "int option"

section \<open>Operations\<close>

text \<open>
  The timeouts \<^verbatim>\<open>ensure_connected\<close> sets from \<^verbatim>\<open>opt_.timeout\<close>, whose milliseconds it splits with C++
  division into a \<^verbatim>\<open>timeval\<close>. The kernel refuses microseconds outside of a second (the socket
  keeps its default, no timeout), takes negative seconds as a timeout of 0 and an all-zero
  \<^verbatim>\<open>timeval\<close> as none.
\<close>

definition socket_timeout :: "int \<Rightarrow> int option" where
  "socket_timeout timeout =
     (let tv_sec = timeout sdiv 1000; tv_usec = (timeout smod 1000) * 1000 in
      if tv_usec < 0 \<or> 1000000 \<le> tv_usec then None
      else if tv_sec < 0 then Some 0
      else if tv_sec = 0 \<and> tv_usec = 0 then None
      else Some (tv_sec * 1000000 + tv_usec))"

text \<open>
  A \<^verbatim>\<open>send\<close> or \<^verbatim>\<open>recv\<close> on a silent connection: with a timeout it fails with \<^verbatim>\<open>EAGAIN\<close>, which gives
  \<open>failed\<close>.
\<close>

definition silence :: "int option \<Rightarrow> 'a \<Rightarrow> 'a outcome" where
  "silence timeout failed = (if timeout = None then Blocks else Returns failed)"

text \<open>Whether all was written, what was, and the script left.\<close>

fun write_all :: "int option \<Rightarrow> send_result list \<Rightarrow> string \<Rightarrow> (bool \<times> string \<times> send_result list) outcome" where
  "write_all tmo rs [] = Returns (True, [], rs)"
| "write_all tmo [] (d # ds) = silence tmo (False, [], [])"
| "write_all tmo (Sent n # rs) (d # ds) =
     (if 0 < n
      then map_outcome (\<lambda>(ok, sent, rs'). (ok, take n (d # ds) @ sent, rs')) (write_all tmo rs (drop n (d # ds)))
      else Returns (False, [], rs))"
| "write_all tmo (Send_Interrupted # rs) (d # ds) = write_all tmo rs (d # ds)"
| "write_all tmo (Send_Failed # rs) (d # ds) = Returns (False, [], rs)"
| "write_all tmo (Send_Broken_Pipe # rs) (d # ds) = Killed"

definition lower :: "string \<Rightarrow> string" where "lower s = map to_lower s"

definition parse_status_code :: "string \<Rightarrow> int" where
  "parse_status_code status_line =
     (case find_char CHR '' '' status_line of
        None \<Rightarrow> 0
      | Some sp1 \<Rightarrow>
          (let code = (case find_char_from CHR '' '' status_line (sp1 + 1) of
                 None \<Rightarrow> drop (sp1 + 1) status_line
               | Some sp2 \<Rightarrow> substr status_line (sp1 + 1) (sp2 - sp1 - 1))
           in c_atoi code))"

definition CRLF :: string where "CRLF = [CHR 0x0D, CHR 0x0A]"

definition header_value :: "string \<Rightarrow> string \<Rightarrow> string" where
  "header_value headers_lower name_lower =
     (case find_str (name_lower @ '':'') headers_lower of
        None \<Rightarrow> []
      | Some pos \<Rightarrow>
          (let value = dropWhile (\<lambda>c. c = CHR '' '') (drop (pos + length name_lower + 1) headers_lower)
           in case find_str CRLF value of None \<Rightarrow> value | Some len \<Rightarrow> take len value))"

fun try_addresses :: "addr_attempt list \<Rightarrow> int" where
  "try_addresses [] = - 1"
| "try_addresses (Connect_Ok fd # _) = int fd"
| "try_addresses (_ # rest) = try_addresses rest"

definition ensure_connected :: "http_options \<Rightarrow> http_conn \<Rightarrow> bool \<times> http_conn" where
  "ensure_connected opt c =
     (if 0 \<le> hc_fd c then (True, c)
      else case hc_lookups c of
        [] \<Rightarrow> (False, c)
      | None # ls \<Rightarrow> (False, c\<lparr>hc_lookups := ls\<rparr>)
      | Some attempts # ls \<Rightarrow>
          (let fd = try_addresses attempts in
           if fd < 0 then (False, c\<lparr>hc_lookups := ls\<rparr>)
           else (True, c\<lparr>hc_lookups := ls, hc_fd := fd, hc_sent := [],
                  hc_timeout := socket_timeout (ho_timeout opt)\<rparr>)))"

definition close_connection :: "http_conn \<Rightarrow> http_conn" where
  "close_connection c = (if 0 \<le> hc_fd c then c\<lparr>hc_fd := - 1\<rparr> else c)"

definition http_request :: "http_options \<Rightarrow> string \<Rightarrow> string" where
  "http_request opt body =
     ''POST '' @ ho_path opt @ '' HTTP/1.1'' @ CRLF
     @ ''Host: '' @ ho_host opt @ CRLF
     @ ''Content-Type: application/x-ndjson'' @ CRLF
     @ ''Content-Length: '' @ dec_of_nat (length body) @ CRLF
     @ ''Connection: keep-alive'' @ CRLF @ CRLF
     @ body"

text \<open>
  Receiving until the header block is complete: the bytes so far and the position of its
  end, unless the peer stops or exceeds 64 KiB.
\<close>

fun read_headers :: "int option \<Rightarrow> string list \<Rightarrow> string \<Rightarrow> ((string \<times> nat) option \<times> string list) outcome" where
  "read_headers tmo [] buf = silence tmo (None, [])"
| "read_headers tmo (chunk # rs) buf =
     (if chunk = [] then Returns (None, rs)
      else let buf' = buf @ chunk in
        case find_str (CRLF @ CRLF) buf' of
          Some header_end \<Rightarrow> Returns (Some (buf', header_end), rs)
        | None \<Rightarrow> if 64 * 1024 < length buf' then Returns (None, rs) else read_headers tmo rs buf')"

text \<open>Draining the announced body; the flag says that the peer stopped before its end.\<close>

fun drain_body :: "int option \<Rightarrow> string list \<Rightarrow> nat \<Rightarrow> nat \<Rightarrow> (bool \<times> string list) outcome" where
  "drain_body tmo rs have_n want =
     (if have_n < want
      then (case rs of
          [] \<Rightarrow> silence tmo (True, [])
        | chunk # rs' \<Rightarrow>
            if chunk = [] then Returns (True, rs') else drain_body tmo rs' (have_n + length chunk) want)
      else Returns (False, rs))"

declare drain_body.simps [simp del]

text \<open>What the status line and the headers say.\<close>

definition response_status :: "string \<Rightarrow> int" where
  "response_status buf =
     parse_status_code (case find_str CRLF buf of None \<Rightarrow> buf | Some i \<Rightarrow> take i buf)"

definition response_chunked :: "string \<Rightarrow> bool" where
  "response_chunked headers_lower \<longleftrightarrow> find_str ''transfer-encoding: chunked'' headers_lower \<noteq> None"

definition response_closes :: "string \<Rightarrow> bool" where
  "response_closes headers_lower \<longleftrightarrow> find_str ''connection: close'' headers_lower \<noteq> None"

text \<open>After the header block: whether the batch was accepted, and the connection's fate.\<close>

definition finish_response :: "string \<Rightarrow> nat \<Rightarrow> http_conn \<Rightarrow> (bool \<times> http_conn) outcome" where
  "finish_response buf header_end c =
     (let status = response_status buf;
          ok = (200 \<le> status \<and> status < 300);
          headers_lower = lower (take header_end buf);
          content_length = header_value headers_lower ''content-length'';
          close_after = response_closes headers_lower in
      if response_chunked headers_lower then Returns (ok, close_connection c)
      else if content_length \<noteq> []
      then map_outcome (\<lambda>(stopped, rs).
             let c' = c\<lparr>hc_recvs := rs\<rparr> in (ok, if close_after \<or> stopped then close_connection c' else c'))
           (drain_body (hc_timeout c) (hc_recvs c) (length buf - (header_end + 4))
             (unat (fst (c_strtoul content_length))))
      else Returns (ok, if close_after then close_connection c else c))"

definition post :: "http_options \<Rightarrow> string \<Rightarrow> http_conn \<Rightarrow> (bool \<times> http_conn) outcome" where
  "post opt body c =
     (let (connected, c1) = ensure_connected opt c in
      if \<not> connected then Returns (False, c1)
      else case write_all (hc_timeout c1) (hc_sends c1) (http_request opt body) of
        Killed \<Rightarrow> Killed
      | Blocks \<Rightarrow> Blocks
      | Returns (written, sent, sends) \<Rightarrow>
          (let c2 = c1\<lparr>hc_sends := sends, hc_sent := hc_sent c1 @ sent\<rparr> in
            if \<not> written then Returns (False, close_connection c2)
            else case read_headers (hc_timeout c2) (hc_recvs c2) [] of
              Killed \<Rightarrow> Killed
            | Blocks \<Rightarrow> Blocks
            | Returns (headers, recvs) \<Rightarrow>
                (let c3 = c2\<lparr>hc_recvs := recvs\<rparr> in
                 case headers of
                   None \<Rightarrow> Returns (False, close_connection c3)
                 | Some (buf, header_end) \<Rightarrow> finish_response buf header_end c3)))"

section \<open>Pieces\<close>

lemma write_all_ok: "write_all tmo rs data = Returns (True, sent, rs') \<Longrightarrow> sent = data"
proof (induction tmo rs data arbitrary: sent rs' rule: write_all.induct)
  case (3 tmo n rs d ds)
  then obtain sent' where "write_all tmo rs (drop n (d # ds)) = Returns (True, sent', rs')"
    and sent: "sent = take n (d # ds) @ sent'"
    by (cases "write_all tmo rs (drop n (d # ds))") (auto split: if_splits)
  with 3 show ?case by (cases "0 < n") auto
qed (auto simp: silence_def split: if_splits)

lemma write_all_script:
  "Send_Broken_Pipe \<notin> set rs \<Longrightarrow> tmo \<noteq> None \<Longrightarrow>
     \<exists>ok sent rs'. write_all tmo rs data = Returns (ok, sent, rs') \<and> Send_Broken_Pipe \<notin> set rs'"
proof (induction tmo rs data rule: write_all.induct)
  case (3 tmo n rs d ds)
  then show ?case by (cases "0 < n") fastforce+
qed (auto simp: silence_def)

lemma read_headers_returns:
  "tmo \<noteq> None \<Longrightarrow> \<exists>headers rs'. read_headers tmo rs buf = Returns (headers, rs')"
  by (induction tmo rs buf rule: read_headers.induct) (auto simp: silence_def Let_def split: option.split)

lemma drain_body_returns:
  "tmo \<noteq> None \<Longrightarrow> \<exists>stopped rs'. drain_body tmo rs have_n want = Returns (stopped, rs')"
proof (induction tmo rs have_n want rule: drain_body.induct)
  case (1 tmo rs have_n want)
  then show ?case by (subst drain_body.simps) (auto simp: silence_def split: list.split)
qed

text \<open>What was read until the end of the header block.\<close>

lemma read_headers_got:
  "read_headers tmo rs buf = Returns (Some (buf', h), rs') \<Longrightarrow>
     \<exists>chs. rs = chs @ rs' \<and> chs \<noteq> [] \<and> buf' = buf @ concat chs \<and> find_str (CRLF @ CRLF) buf' = Some h"
proof (induction tmo rs buf rule: read_headers.induct)
  case (2 tmo chunk rs buf)
  show ?case
  proof (cases "find_str (CRLF @ CRLF) (buf @ chunk)")
    case None
    with 2(2) have "read_headers tmo rs (buf @ chunk) = Returns (Some (buf', h), rs')" and "chunk \<noteq> []"
      by (auto simp: Let_def split: if_splits)
    with 2(1) [of "buf @ chunk"] None 2(2) obtain chs where
      "rs = chs @ rs'" "buf' = (buf @ chunk) @ concat chs" "find_str (CRLF @ CRLF) buf' = Some h"
      by (auto simp: Let_def split: if_splits)
    then show ?thesis by (intro exI [of _ "chunk # chs"]) simp
  next
    case (Some i)
    with 2(2) show ?thesis by (intro exI [of _ "[chunk]"]) (auto simp: Let_def split: if_splits)
  qed
qed (simp add: silence_def split: if_splits)

lemma drain_body_suffix: "drain_body tmo rs have_n want = Returns (stopped, rs') \<Longrightarrow> suffix rs' rs"
proof (induction tmo rs have_n want rule: drain_body.induct)
  case (1 tmo rs have_n want)
  then show ?case
    by (subst (asm) drain_body.simps)
      (auto simp: silence_def suffix_Cons split: list.splits if_splits)
qed

lemma take_eq_prefix: "take (length p) s = p \<longleftrightarrow> prefix p s"
  by (metis append_eq_conv_conj append_take_drop_id prefix_def)

lemma find_str_bound: "find_str pat s = Some j \<Longrightarrow> j + length pat \<le> length s"
proof (induction s arbitrary: j)
  case (Cons y s)
  then show ?case
    using prefix_length_le [of pat "y # s"] by (auto simp: take_eq_prefix split: if_splits)
qed (simp split: if_splits)

lemma find_str_append: "find_str pat s = Some i \<Longrightarrow> pat \<noteq> [] \<Longrightarrow> find_str pat (s @ t) = Some i"
proof (induction s arbitrary: i)
  case (Cons x s)
  show ?case
  proof (cases "prefix pat (x # s)")
    case True
    with Cons.prems have "i = 0" by (simp add: take_eq_prefix)
    moreover from True have "prefix pat (x # (s @ t))"
      by (metis append_Cons prefix_prefix)
    ultimately show ?thesis by (simp add: take_eq_prefix)
  next
    case False
    with Cons.prems obtain j where j: "find_str pat s = Some j" "i = Suc j"
      by (auto simp: take_eq_prefix)
    have "\<not> prefix pat (x # (s @ t))"
      using False find_str_bound [OF j(1)] prefix_length_prefix [of pat "x # s @ t" "x # s"]
      by auto
    with j Cons.IH [OF j(1)] Cons.prems(2) show ?thesis by (simp add: take_eq_prefix)
  qed
qed (simp split: if_splits)

lemma find_str_append_earlier:
  assumes "find_str pat (s @ t) = Some i" and "i + length pat \<le> length s" and "pat \<noteq> []"
  shows "find_str pat s = Some i"
  using assms
proof (induction s arbitrary: i)
  case (Cons x s)
  show ?case
  proof (cases "prefix pat (x # s @ t)")
    case True
    with Cons.prems(1) have "i = 0" by (simp add: take_eq_prefix)
    moreover from this True Cons.prems(2) have "prefix pat (x # s)"
      using prefix_length_prefix [of pat "x # s @ t" "x # s"] by simp
    ultimately show ?thesis by (simp add: take_eq_prefix)
  next
    case False
    then have "\<not> prefix pat (x # s)"
      by (metis append_Cons prefix_prefix)
    with False Cons show ?thesis by (auto simp: take_eq_prefix)
  qed
qed simp

lemma find_str_found: "find_str pat (a @ pat @ b) \<noteq> None"
  by (induction a) (use find_str_prefix [of pat b] in simp_all)

lemma read_headers_chunks:
  assumes "find_str (CRLF @ CRLF) (buf @ concat chs) = Some h" and "length buf < h + 4"
    and "[] \<notin> set chs" and "h + 3 \<le> 64 * 1024"
  shows "\<exists>got left. read_headers tmo (chs @ rest) buf = Returns (Some (buf @ concat got, h), left @ rest)
      \<and> chs = got @ left \<and> h + 4 \<le> length (buf @ concat got)"
  using assms
proof (induction chs arbitrary: buf)
  case Nil
  then show ?case using find_str_bound [OF Nil.prems(1)] by (simp add: CRLF_def)
next
  case (Cons ch chs)
  show ?case
  proof (cases "find_str (CRLF @ CRLF) (buf @ ch)")
    case (Some h')
    have "h' = h"
      using find_str_append [OF Some, of "concat chs"] Cons.prems(1) by (simp add: CRLF_def)
    moreover have "h' + 4 \<le> length (buf @ ch)"
      using find_str_bound [OF Some] by (simp add: CRLF_def)
    ultimately show ?thesis
      using Some Cons.prems(3) by (intro exI [of _ "[ch]"] exI [of _ chs]) (auto simp: Let_def)
  next
    case None
    have less: "length (buf @ ch) < h + 4"
      using find_str_append_earlier [of "CRLF @ CRLF" "buf @ ch" "concat chs" h] None Cons.prems(1)
      by (force simp: CRLF_def)
    then obtain got left where got:
      "read_headers tmo (chs @ rest) (buf @ ch) = Returns (Some ((buf @ ch) @ concat got, h), left @ rest)"
      "chs = got @ left" "h + 4 \<le> length ((buf @ ch) @ concat got)"
      using Cons.IH [of "buf @ ch"] Cons.prems by auto
    have "\<not> 64 * 1024 < length (buf @ ch)" using less Cons.prems(4) by linarith
    with None Cons.prems(3) got(1)
    have "read_headers tmo ((ch # chs) @ rest) buf = Returns (Some (buf @ concat (ch # got), h), left @ rest)"
      by (auto simp: Let_def)
    moreover have "ch # chs = (ch # got) @ left" using got(2) by simp
    moreover have "h + 4 \<le> length (buf @ concat (ch # got))" using got(3) by simp
    ultimately show ?thesis by blast
  qed
qed

lemma drain_body_chunks:
  "[] \<notin> set chs \<Longrightarrow> have_n + length (concat chs) = want
     \<Longrightarrow> drain_body tmo (chs @ rest) have_n want = Returns (False, rest)"
proof (induction chs arbitrary: have_n)
  case (Cons ch chs)
  then show ?case by (cases ch) (auto simp: drain_body.simps [of _ "(_ # _) # _"])
qed (simp add: drain_body.simps)

lemma response_status_prefix:
  assumes "buf = head @ CRLF @ CRLF @ got"
  shows "response_status (buf @ extra) = response_status buf"
proof -
  obtain i where i: "find_str CRLF buf = Some i"
    using assms find_str_found [of CRLF head "CRLF @ got"] by auto
  have "find_str CRLF (buf @ extra) = Some i"
    by (rule find_str_append [OF i]) (simp add: CRLF_def)
  with find_str_bound [OF i] i show ?thesis by (simp add: response_status_def)
qed

lemma ensure_connected_open: "0 \<le> hc_fd c \<Longrightarrow> ensure_connected opt c = (True, c)"
  by (simp add: ensure_connected_def)

lemma ensure_connected_fd: "ensure_connected opt c = (True, c') \<Longrightarrow> 0 \<le> hc_fd c'"
  by (auto simp: ensure_connected_def Let_def split: if_splits list.splits option.splits)

lemma close_connection_fd [simp]: "hc_fd (close_connection c) < 0"
  by (simp add: close_connection_def)

lemma close_connection_sent [simp]: "hc_sent (close_connection c) = hc_sent c"
  by (simp add: close_connection_def)

lemma close_connection_frame [simp]:
  "hc_recvs (close_connection c) = hc_recvs c" "hc_sends (close_connection c) = hc_sends c"
  by (simp_all add: close_connection_def)

lemma finish_response_parts:
  assumes "finish_response buf h c = Returns (ok, c')"
  shows "hc_sent c' = hc_sent c \<and> hc_sends c' = hc_sends c \<and> suffix (hc_recvs c') (hc_recvs c)
    \<and> (ok \<longleftrightarrow> 200 \<le> response_status buf \<and> response_status buf < 300)
    \<and> (hc_fd c' < 0 \<or> hc_fd c' = hc_fd c \<and> hc_timeout c' = hc_timeout c)"
proof (cases "\<not> response_chunked (lower (take h buf)) \<and> header_value (lower (take h buf)) ''content-length'' \<noteq> []")
  case True
  let ?d = "drain_body (hc_timeout c) (hc_recvs c) (length buf - (h + 4))
    (unat (fst (c_strtoul (header_value (lower (take h buf)) ''content-length''))))"
  from True assms obtain stopped rs where d: "?d = Returns (stopped, rs)"
    by (cases ?d) (auto simp: finish_response_def Let_def)
  with True assms drain_body_suffix [OF d] show ?thesis
    by (auto simp: finish_response_def Let_def split: if_splits)
qed (use assms in \<open>auto simp: finish_response_def Let_def split: if_splits\<close>)

lemma finish_response_returns:
  "hc_timeout c \<noteq> None \<Longrightarrow> \<exists>ok c'. finish_response buf h c = Returns (ok, c')"
  using drain_body_returns [of "hc_timeout c" "hc_recvs c" "length buf - (h + 4)"
      "unat (fst (c_strtoul (header_value (lower (take h buf)) ''content-length'')))"]
  by (auto simp: finish_response_def Let_def)

lemma finish_response_kept:
  assumes cl: "header_value (lower head) ''content-length'' \<noteq> []"
    and len: "fst (c_strtoul (header_value (lower head) ''content-length'')) = of_nat (length body)"
    and small: "length body < 2 ^ 64"
    and quiet: "\<not> response_chunked (lower head)" "\<not> response_closes (lower head)"
    and buf: "(head @ CRLF @ CRLF) @ got = buf" and body: "got @ concat left = body"
    and chunks: "[] \<notin> set left" "hc_recvs c = left @ rest"
  shows "finish_response buf (length head) c = Returns
    (200 \<le> response_status (buf @ concat left) \<and> response_status (buf @ concat left) < 300,
     c\<lparr>hc_recvs := rest\<rparr>)"
proof -
  have "unat (of_nat (length body) :: u64) = length body"
    using small by (simp add: unsigned_of_nat take_bit_nat_eq_self)
  moreover have "drain_body (hc_timeout c) (left @ rest) (length got) (length body) = Returns (False, rest)"
    using drain_body_chunks [OF chunks(1), of "length got"] body by auto
  moreover have "take (length head) buf = head" "length buf - (length head + 4) = length got"
    using buf by (auto simp: CRLF_def)
  moreover have "response_status (buf @ concat left) = response_status buf"
    by (rule response_status_prefix [of _ head got]) (use buf in simp)
  ultimately show ?thesis
    using cl len quiet chunks(2) by (simp add: finish_response_def Let_def)
qed

section \<open>Properties\<close>

text \<open>
  The status code of a status line \<open>version SP code SP reason\<close> is \<open>code\<close>.
\<close>

lemma parse_status_code_line:
  assumes "CHR '' '' \<notin> set version" and "code < 2 ^ 31"
  shows "parse_status_code (version @ CHR '' '' # dec_of_nat code @ CHR '' '' # reason) = int code"
proof -
  let ?l = "version @ CHR '' '' # dec_of_nat code @ CHR '' '' # reason"
  have a: "find_char CHR '' '' ?l = Some (length version)"
    by (rule find_char_append [OF assms(1)])
  have "drop (length version + 1) ?l = dec_of_nat code @ CHR '' '' # reason" by simp
  then have b: "find_char_from CHR '' '' ?l (length version + 1)
      = Some (length version + 1 + length (dec_of_nat code))"
    by (simp add: find_char_from_def str_simps)
  have "c_atoi (dec_of_nat code) = int code"
    using assms(2) by (simp add: c_atoi_digits)
  with a b show ?thesis by (simp add: parse_status_code_def substr_def)
qed

lemma parse_status_code_line_witness:
  "parse_status_code (''HTTP/1.1'' @ CHR '' '' # dec_of_nat 204 @ CHR '' '' # ''No Content'') = 204"
  using parse_status_code_line [of "''HTTP/1.1''" 204 "''No Content''"] by simp

text \<open>
  C25. Framing: when the server answers on the open connection with one response whose
  \<^verbatim>\<open>Content-Length\<close> is the length of its body, however the kernel cuts it into chunks,
  \<^verbatim>\<open>post\<close> consumes that response and not a byte more: the whole request is sent, the verdict
  is that of the status line, and the connection stays open at the start of the next
  response.
\<close>

theorem post_frames_response:
  assumes "0 \<le> hc_fd c"
    and "write_all (hc_timeout c) (hc_sends c) (http_request opt batch) = Returns (True, sent, sends)"
    and "concat chunks = head @ CRLF @ CRLF @ body" and "[] \<notin> set chunks"
    and "hc_recvs c = chunks @ rest"
    and "find_str (CRLF @ CRLF) (head @ CRLF @ CRLF @ body) = Some (length head)"
    and "length head + 3 \<le> 64 * 1024" and "length body < 2 ^ 64"
    and "header_value (lower head) ''content-length'' \<noteq> []"
    and "fst (c_strtoul (header_value (lower head) ''content-length'')) = of_nat (length body)"
    and "\<not> response_chunked (lower head)" and "\<not> response_closes (lower head)"
  shows "post opt batch c = Returns
    (200 \<le> response_status (concat chunks) \<and> response_status (concat chunks) < 300,
     c\<lparr>hc_sends := sends, hc_sent := hc_sent c @ http_request opt batch, hc_recvs := rest\<rparr>)"
proof -
  obtain got left where g:
    "read_headers (hc_timeout c) (chunks @ rest) [] = Returns (Some (concat got, length head), left @ rest)"
    "chunks = got @ left" "length head + 4 \<le> length (concat got)"
    using read_headers_chunks [of "[]" chunks "length head" "hc_timeout c" rest] assms(3,4,6,7) by auto
  have all: "concat got @ concat left = (head @ CRLF @ CRLF) @ body"
    using g(2) assms(3) by simp
  moreover have "length (head @ CRLF @ CRLF) \<le> length (concat got)"
    using g(3) by (simp add: CRLF_def)
  ultimately obtain tl where m: "(head @ CRLF @ CRLF) @ tl = concat got"
    by (metis append_eq_append_conv_if append_take_drop_id)
  with all have tl: "tl @ concat left = body"
    by (metis append.assoc append_same_eq same_append_eq)
  have left: "[] \<notin> set left" using assms(4) g(2) by simp
  show ?thesis
    using finish_response_kept [OF assms(9,10,8,11,12) m tl left,
        of "c\<lparr>hc_sends := sends, hc_sent := hc_sent c @ http_request opt batch, hc_recvs := left @ rest\<rparr>"]
      assms(1,2,5) write_all_ok [OF assms(2)] g
    by (simp add: post_def ensure_connected_open Let_def)
qed

lemma post_frames_response_witness:
  "let body = ''ok''; head = ''HTTP/1.1 200 OK'' @ CRLF @ ''Content-Length: 2'';
       opt = \<lparr>ho_host = ''h'', ho_port = 80, ho_path = ''/'', ho_max_queued_batches = 1, ho_timeout = 1\<rparr>
   in post opt ''{}'' \<lparr>hc_fd = 3, hc_lookups = [], hc_sends = [Sent 10, Send_Interrupted, Sent 1000],
        hc_recvs = [take 20 (head @ CRLF @ CRLF @ body), drop 20 (head @ CRLF @ CRLF @ body), ''x''],
        hc_sent = [], hc_timeout = None\<rparr>
      = Returns (True, \<lparr>hc_fd = 3, hc_lookups = [], hc_sends = [], hc_recvs = [''x''],
           hc_sent = http_request opt ''{}'', hc_timeout = None\<rparr>)"
proof -
  define head where "head = ''HTTP/1.1 200 OK'' @ CRLF @ ''Content-Length: 2''"
  define opt where
    "opt = \<lparr>ho_host = ''h'', ho_port = 80, ho_path = ''/'', ho_max_queued_batches = 1, ho_timeout = 1\<rparr>"
  define a b where "a = take 20 (head @ CRLF @ CRLF @ ''ok'')"
    and "b = drop 20 (head @ CRLF @ CRLF @ ''ok'')"
  define c where "c = \<lparr>hc_fd = 3, hc_lookups = [], hc_sends = [Sent 10, Send_Interrupted, Sent 1000],
        hc_recvs = [a, b, ''x''], hc_sent = [], hc_timeout = None\<rparr>"
  have *: "write_all (hc_timeout c) (hc_sends c) (http_request opt ''{}'') = Returns (True, http_request opt ''{}'', [])"
    unfolding c_def opt_def by code_simp
  have ab: "concat [a, b] = head @ CRLF @ CRLF @ ''ok''"
    by (simp only: a_def b_def concat.simps append_Nil2 append_take_drop_id)
  have **: "response_status (head @ CRLF @ CRLF @ ''ok'') = 200" "[] \<notin> set [a, b]"
    "find_str (CRLF @ CRLF) (head @ CRLF @ CRLF @ ''ok'') = Some (length head)"
    "length head + 3 \<le> 64 * 1024"
    "header_value (lower head) ''content-length'' \<noteq> []"
    "fst (c_strtoul (header_value (lower head) ''content-length'')) = of_nat (length ''ok'')"
    "\<not> response_chunked (lower head)" "\<not> response_closes (lower head)"
    unfolding a_def b_def head_def by code_simp+
  have "post opt ''{}'' c = Returns
      (200 \<le> response_status (concat [a, b]) \<and> response_status (concat [a, b]) < 300,
       c\<lparr>hc_sends := [], hc_sent := hc_sent c @ http_request opt ''{}'', hc_recvs := [''x'']\<rparr>)"
    by (rule post_frames_response [OF _ * ab **(2) _ **(3,4) _ **(5-8)]) (simp_all add: c_def)
  then have "post opt ''{}'' c
      = Returns (True, c\<lparr>hc_sends := [], hc_sent := http_request opt ''{}'', hc_recvs := [''x'']\<rparr>)"
    unfolding ab **(1) by (simp add: c_def)
  then show ?thesis
    unfolding c_def a_def b_def head_def opt_def by (simp only: Let_def http_conn.update_convs)
qed

text \<open>
  An acknowledged request: \<open>c'\<close> is a connection on which the whole request was taken, and
  after it a header block was received whose status line says 2xx; what is left to receive is
  what came after that block.
\<close>

definition acked :: "http_options \<Rightarrow> string \<Rightarrow> http_conn \<Rightarrow> http_conn \<Rightarrow> bool" where
  "acked opt body c c' \<longleftrightarrow>
     (\<exists>c1 sends chs rest buf h.
        ensure_connected opt c = (True, c1)
        \<and> write_all (hc_timeout c1) (hc_sends c1) (http_request opt body) = Returns (True, http_request opt body, sends)
        \<and> hc_recvs c1 = chs @ rest \<and> buf = concat chs \<and> find_str (CRLF @ CRLF) buf = Some h
        \<and> 200 \<le> response_status buf \<and> response_status buf < 300
        \<and> hc_sent c' = hc_sent c1 @ http_request opt body \<and> suffix (hc_recvs c') rest)"

lemma acked_sent: "acked opt body c c' \<Longrightarrow> suffix (http_request opt body) (hc_sent c')"
  by (auto simp: acked_def suffix_def)

text \<open>The ways a \<^verbatim>\<open>post\<close> that returns can go.\<close>

lemma post_cases:
  assumes "post opt body c = Returns (ok, c')"
  obtains (unconnected) "ensure_connected opt c = (False, c')" "\<not> ok"
  | (unsent) c1 sent sends where "ensure_connected opt c = (True, c1)"
      "write_all (hc_timeout c1) (hc_sends c1) (http_request opt body) = Returns (False, sent, sends)" "\<not> ok"
      "c' = close_connection (c1\<lparr>hc_sends := sends, hc_sent := hc_sent c1 @ sent\<rparr>)"
  | (unanswered) c1 sends recvs where "ensure_connected opt c = (True, c1)"
      "write_all (hc_timeout c1) (hc_sends c1) (http_request opt body) = Returns (True, http_request opt body, sends)"
      "read_headers (hc_timeout c1) (hc_recvs c1) [] = Returns (None, recvs)" "\<not> ok"
      "c' = close_connection (c1\<lparr>hc_sends := sends, hc_sent := hc_sent c1 @ http_request opt body, hc_recvs := recvs\<rparr>)"
  | (answered) c1 sends recvs buf h where "ensure_connected opt c = (True, c1)"
      "write_all (hc_timeout c1) (hc_sends c1) (http_request opt body) = Returns (True, http_request opt body, sends)"
      "read_headers (hc_timeout c1) (hc_recvs c1) [] = Returns (Some (buf, h), recvs)"
      "finish_response buf h (c1\<lparr>hc_sends := sends, hc_sent := hc_sent c1 @ http_request opt body, hc_recvs := recvs\<rparr>)
        = Returns (ok, c')"
proof -
  obtain connected c1 where c1: "ensure_connected opt c = (connected, c1)" by (metis prod.exhaust)
  show thesis
  proof (cases connected)
    case False
    with assms c1 unconnected show thesis by (simp add: post_def)
  next
    case True
    let ?w = "write_all (hc_timeout c1) (hc_sends c1) (http_request opt body)"
    from True assms c1 obtain written sent sends where w: "?w = Returns (written, sent, sends)"
      by (cases ?w) (auto simp: post_def)
    show thesis
    proof (cases written)
      case False
      with True assms c1 w unsent show thesis by (simp add: post_def Let_def)
    next
      case sent: True
      with w write_all_ok [of _ _ _ sent sends] have w: "?w = Returns (True, http_request opt body, sends)" by metis
      let ?r = "read_headers (hc_timeout c1) (hc_recvs c1) []"
      from True assms c1 w obtain headers recvs where r: "?r = Returns (headers, recvs)"
        by (cases ?r) (auto simp: post_def Let_def)
      show thesis
      proof (cases headers)
        case None
        with True assms c1 w r unanswered show thesis by (simp add: post_def Let_def)
      next
        case (Some p)
        then obtain buf h where "headers = Some (buf, h)" by (cases p) simp
        with True assms c1 w r answered show thesis by (simp add: post_def Let_def)
      qed
    qed
  qed
qed

text \<open>
  No false acknowledgement: when \<^verbatim>\<open>post\<close> reports success, the complete request was taken by
  the connection and answered there with a 2xx status.
\<close>

lemma post_success_acked:
  assumes "post opt body c = Returns (True, c')"
  shows "acked opt body c c'"
  using assms
proof (cases rule: post_cases)
  case (answered c1 sends recvs buf h)
  from read_headers_got [OF answered(3)] finish_response_parts [OF answered(4)] answered(1,2)
  show ?thesis unfolding acked_def by auto
qed simp_all

text \<open>
  On a network that never breaks a pipe, over sockets that have timeouts, \<^verbatim>\<open>post\<close> always
  returns, and so does the next one.
\<close>

definition no_broken_pipe :: "http_conn \<Rightarrow> bool" where
  "no_broken_pipe c \<longleftrightarrow> Send_Broken_Pipe \<notin> set (hc_sends c)"

definition timed :: "http_conn \<Rightarrow> bool" where
  "timed c \<longleftrightarrow> (0 \<le> hc_fd c \<longrightarrow> hc_timeout c \<noteq> None)"

definition answering :: "http_conn \<Rightarrow> bool" where
  "answering c \<longleftrightarrow> no_broken_pipe c \<and> timed c"

lemma answering_close [simp]: "answering c \<Longrightarrow> answering (close_connection c)"
  by (simp add: answering_def no_broken_pipe_def timed_def close_connection_def)

lemma socket_timeout_pos:
  assumes "0 < t"
  shows "socket_timeout t \<noteq> None"
proof -
  have *: "t sdiv 1000 = t div 1000" "t smod 1000 = t mod 1000"
    using assms by (simp_all add: signed_divide_int_def signed_modulo_int_def sgn_if algebra_simps minus_mult_div_eq_mod)
  have "0 \<le> t mod 1000" "t mod 1000 < 1000" by simp_all
  moreover have "\<not> (t div 1000 = 0 \<and> t mod 1000 = 0)"
    using assms div_mult_mod_eq [of t 1000] by auto
  moreover have "0 \<le> t div 1000" using assms by (simp add: pos_imp_zdiv_nonneg_iff)
  ultimately show ?thesis by (auto simp: socket_timeout_def * Let_def)
qed

lemma ensure_connected_answering:
  assumes "answering c" and "0 < ho_timeout opt" and "ensure_connected opt c = (connected, c1)"
  shows "answering c1 \<and> (connected \<longrightarrow> hc_timeout c1 \<noteq> None)"
  using assms socket_timeout_pos [OF assms(2)]
  by (auto simp: answering_def no_broken_pipe_def timed_def ensure_connected_def Let_def
      split: if_splits list.splits option.splits)

lemma post_returns:
  assumes "answering c" and "0 < ho_timeout opt"
  shows "\<exists>ok c'. post opt body c = Returns (ok, c') \<and> answering c'"
proof -
  obtain connected c1 where c1: "ensure_connected opt c = (connected, c1)" by (metis prod.exhaust)
  from ensure_connected_answering [OF assms c1] have a: "answering c1" "connected \<Longrightarrow> hc_timeout c1 \<noteq> None" by blast+
  show ?thesis
  proof (cases connected)
    case False
    with c1 a show ?thesis by (intro exI [of _ False] exI [of _ c1]) (simp add: post_def)
  next
    case True
    from write_all_script [OF _ a(2) [OF True], of "hc_sends c1"] a(1) obtain written sent sends where
      w: "write_all (hc_timeout c1) (hc_sends c1) (http_request opt body) = Returns (written, sent, sends)"
      "Send_Broken_Pipe \<notin> set sends" unfolding answering_def no_broken_pipe_def by metis
    obtain headers recvs where r: "read_headers (hc_timeout c1) (hc_recvs c1) [] = Returns (headers, recvs)"
      using read_headers_returns [OF a(2) [OF True]] by blast
    let ?c = "c1\<lparr>hc_sends := sends, hc_sent := hc_sent c1 @ sent, hc_recvs := recvs\<rparr>"
    have sent: "answering (c1\<lparr>hc_sends := sends, hc_sent := hc_sent c1 @ sent\<rparr>)" "answering ?c"
      using w(2) a(2) [OF True] by (simp_all add: answering_def no_broken_pipe_def timed_def)
    show ?thesis
    proof (cases "written \<and> headers \<noteq> None")
      case False
      with True c1 w r have "post opt body c = Returns (False, close_connection (c1\<lparr>hc_sends := sends, hc_sent := hc_sent c1 @ sent\<rparr>))
          \<or> post opt body c = Returns (False, close_connection ?c)"
        by (cases written; cases headers) (auto simp: post_def Let_def)
      with answering_close [OF sent(1)] answering_close [OF sent(2)] show ?thesis by blast
    next
      case written: True
      then obtain buf h where h: "headers = Some (buf, h)" by auto
      obtain ok c' where f: "finish_response buf h ?c = Returns (ok, c')"
        using finish_response_returns [of ?c buf h] a(2) [OF True] by auto
      from finish_response_parts [OF f] w(2) a(2) [OF True] have "answering c'"
        by (auto simp: answering_def no_broken_pipe_def timed_def)
      with True written c1 w r h f show ?thesis by (simp add: post_def Let_def)
    qed
  qed
qed

text \<open>
  A server that takes the request and then says nothing: \<^verbatim>\<open>post\<close> fails after the timeout, or,
  on a socket without one, does not return.
\<close>

lemma post_silent:
  assumes "ensure_connected opt c = (True, c1)" and "hc_recvs c1 = []"
    and "write_all (hc_timeout c1) (hc_sends c1) (http_request opt body) = Returns (True, sent, sends)"
  shows "post opt body c = silence (hc_timeout c1)
    (False, close_connection (c1\<lparr>hc_sends := sends, hc_sent := hc_sent c1 @ sent, hc_recvs := []\<rparr>))"
  using assms by (simp add: post_def silence_def Let_def)

end
