(* ===== verification/HttpEndpoint.thy ===== *)
theory HttpEndpoint
  imports Prelude
begin

text \<open>
  \<^verbatim>\<open>src/sinks/http/endpoint.cpp\<close>: the \<^verbatim>\<open>endpoint\<close> setting of the http sink,
  \<^verbatim>\<open>http://host[:port][/path]\<close>.
\<close>

record http_endpoint =
  ep_host :: string
  ep_port :: u16
  ep_path :: string

text \<open>The part between the slashes, once the path is known.\<close>

definition parse_authority :: "string \<Rightarrow> string \<Rightarrow> http_endpoint option" where
  "parse_authority authority path =
     (case find_char CHR '':'' authority of
        None \<Rightarrow> Some \<lparr>ep_host = authority, ep_port = 80, ep_path = path\<rparr>
      | Some colon \<Rightarrow>
          (let host = take colon authority; port_str = drop (colon + 1) authority in
           if host = [] \<or> port_str = [] then None
           else if \<not> list_all is_digit port_str then None
           else let (port, erange) = c_strtoul port_str in
             if erange \<or> port = 0 \<or> 65535 < port then None
             else Some \<lparr>ep_host = host, ep_port = ucast port, ep_path = path\<rparr>))"

definition parse_http_endpoint :: "string \<Rightarrow> http_endpoint option" where
  "parse_http_endpoint endpoint =
     (if take 7 endpoint \<noteq> ''http://'' then None
      else let rest = drop 7 endpoint in
        if rest = [] then None
        else let slash = find_char CHR ''/'' rest;
                 authority = (case slash of None \<Rightarrow> rest | Some i \<Rightarrow> take i rest) in
          if authority = [] then None
          else parse_authority authority (case slash of None \<Rightarrow> ''/'' | Some i \<Rightarrow> drop i rest))"

text \<open>The endpoints the parser can yield, and their canonical text.\<close>

definition endpoint_wf :: "http_endpoint \<Rightarrow> bool" where
  "endpoint_wf ep \<longleftrightarrow>
     ep_host ep \<noteq> [] \<and> CHR ''/'' \<notin> set (ep_host ep) \<and> CHR '':'' \<notin> set (ep_host ep)
     \<and> ep_port ep \<noteq> 0 \<and> (\<exists>p. ep_path ep = CHR ''/'' # p)"

definition print_endpoint :: "http_endpoint \<Rightarrow> string" where
  "print_endpoint ep = ''http://'' @ ep_host ep @ '':'' @ dec_of_nat (unat (ep_port ep)) @ ep_path ep"

lemma find_char_cut:
  "find_char c s = Some i \<Longrightarrow> c \<notin> set (take i s) \<and> (\<exists>t. drop i s = c # t)"
  using find_char_SomeD [of c s i] by (metis Cons_nth_drop_Suc)

lemma u64_port_nonzero:
  "port \<noteq> 0 \<Longrightarrow> \<not> 65535 < port \<Longrightarrow> (ucast (port :: u64) :: u16) \<noteq> 0"
proof
  assume nz: "port \<noteq> 0" and le: "\<not> 65535 < port" and z: "(ucast port :: u16) = 0"
  from le have "unat port < 2 ^ 16" by (simp add: word_less_nat_alt)
  then have "unat (ucast port :: u16) = unat port"
    by (simp add: unsigned_ucast_eq take_bit_nat_eq_self)
  with nz z show False by (simp add: unat_eq_zero)
qed

lemma parse_authority_wf:
  assumes "parse_authority auth path = Some ep" and "auth \<noteq> []" and "CHR ''/'' \<notin> set auth"
  shows "ep_path ep = path \<and> ep_host ep \<noteq> [] \<and> CHR ''/'' \<notin> set (ep_host ep)
    \<and> CHR '':'' \<notin> set (ep_host ep) \<and> ep_port ep \<noteq> 0"
proof (cases "find_char CHR '':'' auth")
  case None
  with assms show ?thesis by (auto simp: parse_authority_def find_char_None_iff)
next
  case (Some colon)
  from find_char_cut [OF Some] assms(3) have
    "CHR '':'' \<notin> set (take colon auth)" "CHR ''/'' \<notin> set (take colon auth)"
    by (auto dest: in_set_takeD)
  with assms Some show ?thesis
    by (auto simp: parse_authority_def Let_def u64_port_nonzero split: if_splits prod.splits)
qed

text \<open>
  An accepted endpoint is usable: a nonempty host without separators, a port between 1
  and 65535 and a path that starts with a slash.
\<close>

lemma parse_http_endpoint_wf:
  assumes "parse_http_endpoint s = Some ep"
  shows "endpoint_wf ep"
proof -
  let ?rest = "drop 7 s"
  define auth where "auth = (case find_char CHR ''/'' ?rest of None \<Rightarrow> ?rest | Some i \<Rightarrow> take i ?rest)"
  define path where "path = (case find_char CHR ''/'' ?rest of None \<Rightarrow> ''/'' | Some i \<Rightarrow> drop i ?rest)"
  have "CHR ''/'' \<notin> set auth"
    by (auto simp: auth_def find_char_None_iff dest: find_char_cut split: option.splits)
  moreover have "parse_authority auth path = Some ep" and "auth \<noteq> []"
    using assms by (auto simp: parse_http_endpoint_def Let_def auth_def path_def split: if_splits)
  ultimately have "ep_path ep = path \<and> ep_host ep \<noteq> [] \<and> CHR ''/'' \<notin> set (ep_host ep)
    \<and> CHR '':'' \<notin> set (ep_host ep) \<and> ep_port ep \<noteq> 0"
    by (intro parse_authority_wf)
  moreover have "\<exists>p. path = CHR ''/'' # p"
    by (auto simp: path_def dest: find_char_cut split: option.splits)
  ultimately show ?thesis by (auto simp: endpoint_wf_def)
qed

lemma parse_http_endpoint_wf_witness:
  "endpoint_wf \<lparr>ep_host = ''a.b'', ep_port = 8080, ep_path = ''/v1/x''\<rparr>"
proof -
  have "parse_http_endpoint ''http://a.b:8080/v1/x''
      = Some \<lparr>ep_host = ''a.b'', ep_port = 8080, ep_path = ''/v1/x''\<rparr>"
    by code_simp
  then show ?thesis by (rule parse_http_endpoint_wf)
qed

lemma find_char_host_port:
  assumes "CHR '':'' \<notin> set host"
  shows "find_char CHR '':'' (host @ CHR '':'' # ps) = Some (length host)"
  using assms by (rule find_char_append)

text \<open>
  C33. Round trip: every usable endpoint is what its canonical text is parsed to.
\<close>

theorem parse_print_endpoint:
  assumes "endpoint_wf ep"
  shows "parse_http_endpoint (print_endpoint ep) = Some ep"
proof -
  from assms obtain p where path: "ep_path ep = CHR ''/'' # p"
    and host: "ep_host ep \<noteq> []" "CHR ''/'' \<notin> set (ep_host ep)" "CHR '':'' \<notin> set (ep_host ep)"
    and port: "ep_port ep \<noteq> 0" by (auto simp: endpoint_wf_def)
  let ?port = "unat (ep_port ep)"
  let ?auth = "ep_host ep @ CHR '':'' # dec_of_nat ?port"
  have lt: "?port < 65536" using unsigned_less [of "ep_port ep", where 'a = nat] by simp
  have nz: "?port \<noteq> 0" using port by (simp add: unat_eq_zero)
  have rest: "drop 7 (print_endpoint ep) = ?auth @ CHR ''/'' # p"
    and pre: "take 7 (print_endpoint ep) = ''http://''"
    by (simp_all add: print_endpoint_def path)
  have slash: "find_char CHR ''/'' (?auth @ CHR ''/'' # p) = Some (length ?auth)"
    using host(2) by (intro find_char_append) simp
  have strtoul: "c_strtoul (dec_of_nat ?port) = (of_nat ?port, False)"
    using lt by (simp add: c_strtoul_digits)
  have unat64: "unat (of_nat ?port :: u64) = ?port"
    using lt by (simp only: unat_of_nat) simp
  then have "(of_nat ?port :: u64) \<noteq> 0" and "\<not> 65535 < (of_nat ?port :: u64)"
    using lt nz by (auto simp: word_less_nat_alt simp del: of_nat_unat)
  moreover have "unat (ucast (of_nat ?port :: u64) :: u16) = ?port"
    unfolding unsigned_ucast_eq unat64 using lt by (simp add: take_bit_nat_eq_self)
  then have "(ucast (of_nat ?port :: u64) :: u16) = ep_port ep"
    by (rule unsigned_word_eqI)
  ultimately show ?thesis
    using host path slash strtoul
    by (simp add: parse_http_endpoint_def parse_authority_def rest pre Let_def find_char_host_port
        list_all_iff)
qed

lemma parse_print_endpoint_witness:
  "parse_http_endpoint (print_endpoint \<lparr>ep_host = ''h'', ep_port = 80, ep_path = ''/''\<rparr>) =
     Some \<lparr>ep_host = ''h'', ep_port = 80, ep_path = ''/''\<rparr>"
  by (rule parse_print_endpoint) (simp add: endpoint_wf_def)

end
