(* ===== verification/HttpSink.thy ===== *)
theory HttpSink
  imports SinkQueue HttpClient HttpEndpoint Config
begin

text \<open>
  The HTTP sink of \<^verbatim>\<open>src/sinks/http/sink.cpp\<close>: the queue and worker of \<open>SinkQueue\<close> around the
  client of \<open>HttpClient\<close>, with one retry per batch, and the two plugin factories that read
  their settings (\<^verbatim>\<open>st_register_sink\<close> of the http and of the stdout sink).
\<close>

section \<open>Operations\<close>

type_synonym http_sink = "http_conn queue_sink"

definition new_http_sink :: "http_options \<Rightarrow> http_conn \<Rightarrow> http_sink" where
  "new_http_sink opt net = new_queue_sink (ho_max_queued_batches opt) (net\<lparr>hc_fd := - 1\<rparr>)"

text \<open>\<^verbatim>\<open>HttpSink::write\<close> and \<^verbatim>\<open>flush\<close> are those of the shared queue, without the stdout sink's clamp.\<close>

definition http_write :: "batch \<Rightarrow> http_sink \<Rightarrow> http_sink option" where
  "http_write = sink_write"

text \<open>
  The worker's part outside the lock: the body, the post, the retry on a new connection.
  \<^const>\<open>None\<close>: the worker is lost, because the process ends (\<^verbatim>\<open>dump\<close> throws, or \<^verbatim>\<open>SIGPIPE\<close>) or, on a
  socket without a timeout, because a call blocks for ever.
\<close>

definition http_deliver :: "json_dump \<Rightarrow> http_options \<Rightarrow> http_conn deliver" where
  "http_deliver dump opt batch c =
     (case ndjson dump batch of
        None \<Rightarrow> None
      | Some body \<Rightarrow>
          (case post opt body c of
             Returns (ok, c1) \<Rightarrow>
               if ok then Some (False, c1)
               else (case post opt body (close_connection c1) of
                   Returns (ok2, c2) \<Rightarrow> Some (\<not> ok2, c2)
                 | _ \<Rightarrow> None)
           | _ \<Rightarrow> None))"

text \<open>The worker, \<^verbatim>\<open>flush\<close> and the destructor: the shared ones around this delivery.\<close>

definition http_worker :: "json_dump \<Rightarrow> http_options \<Rightarrow> http_sink \<Rightarrow> http_sink option" where
  "http_worker dump opt = sink_worker (http_deliver dump opt) close_connection"

definition http_flush :: "json_dump \<Rightarrow> http_options \<Rightarrow> http_sink \<Rightarrow> http_sink option" where
  "http_flush dump opt = sink_flush (http_deliver dump opt) close_connection"

definition http_destroy :: "json_dump \<Rightarrow> http_options \<Rightarrow> http_sink \<Rightarrow> http_sink option" where
  "http_destroy dump opt = sink_destroy (http_deliver dump opt) close_connection"

definition http_run :: "json_dump \<Rightarrow> http_options \<Rightarrow> sink_event list \<Rightarrow> http_sink \<Rightarrow> http_sink option" where
  "http_run dump opt = sink_run (http_deliver dump opt) close_connection"

text \<open>The factories: the sink's options out of its component's settings.\<close>

definition http_factory :: "component_config \<Rightarrow> http_options option" where
  "http_factory config =
     (case parse_http_endpoint (cc_get config ''endpoint'' []) of
        None \<Rightarrow> None
      | Some parsed \<Rightarrow>
          Some \<lparr>ho_host = ep_host parsed, ho_port = ep_port parsed, ho_path = ep_path parsed,
            ho_max_queued_batches = get_uint config ''max_queued_batches'' 1024,
            ho_timeout = get_duration config ''timeout'' 5000\<rparr>)"

definition stdout_factory :: "component_config \<Rightarrow> stdout_sink" where
  "stdout_factory config = new_stdout_sink (get_uint config ''max_queued_batches'' 1024)"

section \<open>Pieces\<close>

interpretation http_contract: sink_contract http_write queue_good
    "\<lambda>s. length (sq_queue s)" "\<lambda>s. unat (sq_max_queued s)"
  unfolding http_write_def by (rule queue_contract.sink_contract_axioms)

text \<open>
  As long as no pipe breaks, and with a timeout, delivery returns for every batch that has a body.
\<close>

lemma http_deliverable:
  assumes "\<forall>r \<in> set b. to_json dump r \<noteq> None" and "0 < ho_timeout opt"
  shows "deliverable answering (http_deliver dump opt) b"
proof -
  obtain body where body: "ndjson dump b = Some body"
    using assms(1) ndjson_None_iff [of dump b] by auto
  have "case http_deliver dump opt b c of None \<Rightarrow> False | Some (_, c') \<Rightarrow> answering c'"
    if quiet: "answering c" for c
  proof -
    obtain ok c1 where p1: "post opt body c = Returns (ok, c1)" "answering c1"
      using post_returns [OF quiet assms(2)] by blast
    then obtain ok2 c2 where "post opt body (close_connection c1) = Returns (ok2, c2)" "answering c2"
      using post_returns [OF answering_close assms(2)] by blast
    with p1 body show ?thesis by (simp add: http_deliver_def)
  qed
  then show ?thesis by (simp add: deliverable_def)
qed

text \<open>The posts of a delivery that returns: one, or a failed one and a second.\<close>

lemma http_deliver_posts:
  assumes "http_deliver dump opt b c = Some (lost, c')"
  obtains (first) body where "ndjson dump b = Some body" "post opt body c = Returns (True, c')" "\<not> lost"
  | (retried) body c1 where "ndjson dump b = Some body" "post opt body c = Returns (False, c1)"
      "post opt body (close_connection c1) = Returns (\<not> lost, c')"
proof -
  from assms obtain body where body: "ndjson dump b = Some body"
    by (auto simp: http_deliver_def split: option.splits)
  with assms obtain ok c1 where p1: "post opt body c = Returns (ok, c1)"
    by (cases "post opt body c") (auto simp: http_deliver_def)
  show thesis
  proof (cases ok)
    case True
    with assms body p1 first show thesis by (simp add: http_deliver_def)
  next
    case False
    with assms body p1 have "post opt body (close_connection c1) = Returns (\<not> lost, c')"
      by (cases "post opt body (close_connection c1)") (auto simp: http_deliver_def)
    with False body p1 retried show thesis by simp
  qed
qed

text \<open>A batch not lost was acknowledged.\<close>

lemma http_deliver_acked:
  assumes "http_deliver dump opt b c = Some (False, c')"
  shows "\<exists>body c0. ndjson dump b = Some body \<and> acked opt body c0 c'"
  using assms by (cases rule: http_deliver_posts) (auto dest: post_success_acked)

lemma http_run_inv:
  "http_run dump opt evs (new_http_sink opt net) = Some s \<Longrightarrow>
     sink_inv (http_deliver dump opt) close_connection (ho_max_queued_batches opt)
       (net\<lparr>hc_fd := - 1\<rparr>) (accepted evs, s)"
  by (simp add: http_run_def new_http_sink_def sink_run_inv)

section \<open>Properties\<close>


definition example_opt :: http_options where
  "example_opt = \<lparr>ho_host = ''h'', ho_port = 80, ho_path = ''/'', ho_max_queued_batches = 2,
     ho_timeout = 5000\<rparr>"

definition example_net :: http_conn where
  "example_net = \<lparr>hc_fd = - 1, hc_lookups = [Some [Socket_Failed, Connect_Ok 5]],
     hc_sends = [Sent 4096, Sent 4096],
     hc_recvs = [''HTTP/1.1 204 No Content'' @ CRLF @ CRLF, ''HTTP/1.1 200 OK'' @ CRLF @ CRLF], hc_sent = [],
     hc_timeout = None\<rparr>"


text \<open>
  C24. Delivery is honest: the worker counts a batch as lost exactly when both posts failed,
  the second on a closed and reopened connection. A batch not counted had its whole request
  (request line, headers, the JSON lines as body) taken by the connection the last post used, on which
  it then received a header block with a 2xx status; no byte of that block is left to be taken
  for the answer to another request.
\<close>

theorem http_deliver_outcome:
  assumes "http_deliver dump opt batch c = Some (lost, c')"
  shows "\<exists>body ok c1. ndjson dump batch = Some body \<and> post opt body c = Returns (ok, c1)
    \<and> (if ok then \<not> lost \<and> c' = c1 else post opt body (close_connection c1) = Returns (\<not> lost, c'))
    \<and> (lost \<or> (\<exists>conn sends chunks rest header_end.
          ensure_connected opt (if ok then c else close_connection c1) = (True, conn)
          \<and> write_all (hc_timeout conn) (hc_sends conn) (http_request opt body)
              = Returns (True, http_request opt body, sends)
          \<and> hc_sent c' = hc_sent conn @ http_request opt body
          \<and> hc_recvs conn = chunks @ rest \<and> suffix (hc_recvs c') rest
          \<and> find_str (CRLF @ CRLF) (concat chunks) = Some header_end
          \<and> 200 \<le> response_status (concat chunks) \<and> response_status (concat chunks) < 300))"
  using assms
proof (cases rule: http_deliver_posts)
  case (first body)
  from post_success_acked [OF first(2)] first show ?thesis
    by (intro exI [of _ body] exI [of _ True] exI [of _ c']) (auto simp: acked_def)
next
  case (retried body c1)
  have "\<not> lost \<Longrightarrow> acked opt body (close_connection c1) c'"
    using post_success_acked [of opt body "close_connection c1" c'] retried(3) by simp
  with retried show ?thesis
    by (intro exI [of _ body] exI [of _ False] exI [of _ c1]) (auto simp: acked_def)
qed

lemma http_deliver_outcome_witness:
  "\<exists>c'. http_deliver example_dump example_opt [example_record] example_net = Some (False, c')
    \<and> (\<exists>earlier. hc_sent c' = earlier @ http_request example_opt ([CHR ''{'', CHR ''}'', CHR 0x0A]))"
proof -
  let ?d = "http_deliver example_dump example_opt [example_record] example_net"
  have "map_option fst ?d = Some False" by code_simp
  then obtain c' where c': "?d = Some (False, c')" by (cases ?d) auto
  have body: "ndjson example_dump [example_record] = Some [CHR ''{'', CHR ''}'', CHR 0x0A]"
    by code_simp
  from http_deliver_outcome [OF c'] body c' show ?thesis by fastforce
qed

text \<open>
  As long as the peer does not close a connection that is being written to, and with a
  positive \<^verbatim>\<open>timeout\<close>, \<^verbatim>\<open>flush\<close> on the http sink returns whatever else the network does (lookups,
  connects, sends and receives that fail or time out), with nothing queued or in hand: all that was
  pending has been posted, and the batches that failed are the increase of \<^verbatim>\<open>dropped\<close>.
\<close>

lemma http_flush_settles:
  assumes "http_run dump opt evs (new_http_sink opt net) = Some s"
    and "\<not> sq_stopping s" and "process_alive s" and "length (accepted evs) < 2 ^ 64"
    and "answering (sq_out s)" and "0 < ho_timeout opt"
    and "\<forall>r \<in> set (concat (in_hand (sq_worker s) @ sq_queue s)). to_json dump r \<noteq> None"
  shows "\<exists>t n. http_flush dump opt s = Some t
    \<and> deliver_all (http_deliver dump opt) (in_hand (sq_worker s) @ sq_queue s) (sq_out s)
        = Some (n, sq_out t)
    \<and> sq_queue t = [] \<and> sq_worker t = Waiting \<and> sq_dropped t = sq_dropped s + of_nat n"
proof -
  have "\<forall>b \<in> set (in_hand (sq_worker s) @ sq_queue s).
      deliverable answering (http_deliver dump opt) b"
    using assms(7) by (intro ballI http_deliverable assms(6)) auto
  from sink_flush_drains [OF http_run_inv [OF assms(1)] assms(2,4,3,5) this]
  show ?thesis by (auto simp: drained_def http_flush_def)
qed

lemma http_flush_settles_witness:
  "\<exists>t. http_flush example_dump example_opt
         (the (http_run example_dump example_opt [Write [example_record], Write [example_record]]
            (new_http_sink example_opt example_net))) = Some t
    \<and> sq_queue t = []"
proof -
  let ?evs = "[Write [example_record], Write [example_record]]"
  define s where "s = the (http_run example_dump example_opt ?evs (new_http_sink example_opt example_net))"
  have "http_run example_dump example_opt ?evs (new_http_sink example_opt example_net) \<noteq> None"
    by code_simp
  then have s: "http_run example_dump example_opt ?evs (new_http_sink example_opt example_net) = Some s"
    by (simp add: s_def)
  have *: "\<not> sq_stopping s" "process_alive s" "length (accepted ?evs) < 2 ^ 64"
    "answering (sq_out s)" "0 < ho_timeout example_opt"
    "\<forall>r \<in> set (concat (in_hand (sq_worker s) @ sq_queue s)). to_json example_dump r \<noteq> None"
    unfolding s_def by code_simp+
  show ?thesis
    using http_flush_settles [OF s *] by (auto simp: s_def)
qed

text \<open>
  C40. The retry of a failed post does not cover the case it is meant for: when the peer has
  closed the kept-alive connection and the write finds that out, the worker neither retries
  nor counts the batch: the process ends with the batch in hand, no further event of the sink
  takes place, and a destructor that was waiting for the worker does not return.
\<close>

theorem http_closed_peer_terminates:
  assumes "sq_worker s = Holding batch" and "ndjson dump batch = Some body"
    and "0 \<le> hc_fd (sq_out s)" and "hc_sends (sq_out s) = Send_Broken_Pipe # sends"
  shows "\<exists>t. http_worker dump opt s = Some t \<and> sq_worker t = Terminated batch
    \<and> sq_dropped t = sq_dropped s \<and> sq_out t = sq_out s
    \<and> (\<forall>ev. http_run dump opt [ev] t = None)
    \<and> http_destroy dump opt s = None"
proof -
  have "post opt body (sq_out s) = Killed"
    using assms(3,4) by (simp add: post_def ensure_connected_open http_request_def)
  then have lost: "http_deliver dump opt batch (sq_out s) = None"
    using assms(2) by (simp add: http_deliver_def)
  show ?thesis
    using assms(1) lost
    by (simp add: http_worker_def http_run_def http_destroy_def sink_destroy_def
        sink_worker_def sink_exec_def sink_stop_def process_alive_def wait_until.simps)
qed

lemma http_closed_peer_terminates_witness:
  "\<exists>s t. http_run example_dump example_opt
       [Write [example_record], Worker, Worker, Worker, Write [example_record], Worker]
       (new_http_sink example_opt (example_net\<lparr>hc_sends := [Sent 4096, Send_Broken_Pipe]\<rparr>)) = Some s
    \<and> http_worker example_dump example_opt s = Some t \<and> sq_worker t = Terminated [example_record]"
proof -
  let ?r = "http_run example_dump example_opt
       [Write [example_record], Worker, Worker, Worker, Write [example_record], Worker]
       (new_http_sink example_opt (example_net\<lparr>hc_sends := [Sent 4096, Send_Broken_Pipe]\<rparr>))"
  define s where "s = the ?r"
  have "?r \<noteq> None" by code_simp
  then have r: "?r = Some s" by (simp add: s_def)
  have hand: "in_hand (sq_worker s) = [[example_record]]" "process_alive s"
    unfolding s_def by code_simp+
  then have "sq_worker s = Holding [example_record]"
    by (cases "sq_worker s") (simp_all add: process_alive_def)
  moreover have "ndjson example_dump [example_record] = Some [CHR ''{'', CHR ''}'', CHR 0x0A]"
    by code_simp
  moreover have "0 \<le> hc_fd (sq_out s)" "hc_sends (sq_out s) = [Send_Broken_Pipe]"
    unfolding s_def by code_simp+
  ultimately obtain t where "http_worker example_dump example_opt s = Some t"
    "sq_worker t = Terminated [example_record]"
    using http_closed_peer_terminates by blast
  with r show ?thesis by blast
qed






text \<open>
  The setting \<^verbatim>\<open>max_queued_batches = 0\<close> is accepted by both factories. The stdout sink
  then keeps one batch; the http sink pops an empty queue on its first batch (undefined
  behaviour), for it has no clamp.
\<close>

lemma zero_queue_setting:
  assumes "cc_get config ''max_queued_batches'' [] = ''0''" and "batch \<noteq> []"
  shows "(\<exists>t. sink_write batch (stdout_factory config) = Some t \<and> sq_queue t = [batch])
    \<and> (case http_factory config of
         None \<Rightarrow> True
       | Some opt \<Rightarrow> http_write batch (new_http_sink opt net) = None)"
proof -
  have "map_of config ''max_queued_batches'' = Some ''0''"
    using assms(1) by (auto simp: cc_get_def split: option.splits)
  then have "get_uint config ''max_queued_batches'' 1024 = 0"
    by (simp add: get_uint_def c_strtoul_digits dec_value_def digit_val_def)
  with assms(2) show ?thesis
    by (auto simp: stdout_factory_def http_factory_def new_stdout_sink_def new_http_sink_def
        new_queue_sink_def sink_write_def http_write_def split: option.splits)
qed

lemma zero_queue_setting_witness:
  "let config = [(''endpoint'', ''http://h''), (''max_queued_batches'', ''0'')]
   in http_write [example_record] (new_http_sink (the (http_factory config)) example_net) = None"
proof -
  let ?c = "[(''endpoint'', ''http://h''), (''max_queued_batches'', ''0'')]"
  have "cc_get ?c ''max_queued_batches'' [] = ''0''" by code_simp
  from zero_queue_setting [OF this, of "[example_record]" example_net]
  have "case http_factory ?c of
         None \<Rightarrow> True
       | Some opt \<Rightarrow> http_write [example_record] (new_http_sink opt example_net) = None" by simp
  moreover have "http_factory ?c \<noteq> None" by code_simp
  ultimately show ?thesis by auto
qed

end
