(* ===== verification/Plugins.thy ===== *)
theory Plugins
  imports PluginLoader Probes HttpSink
begin

text \<open>
  The five plugins of the tree, as their registration functions (\<^verbatim>\<open>st_register_probe\<close> and
  \<^verbatim>\<open>st_register_sink\<close> in \<^verbatim>\<open>src/probes\<close> and \<^verbatim>\<open>src/sinks\<close>). A probe object is what its \<^verbatim>\<open>on_event\<close>
  makes of the bytes of an event; a sink object is its class with what the factory gave the
  constructor.
\<close>

datatype sink_impl = Stdout_Json_Sink stdout_sink | Http_Sink http_options | Null_Sink

type_synonym handler = "u8 list \<Rightarrow> st_record option"
type_synonym plugin_object = "(handler, sink_impl) shared_object"

definition register_proc_lifecycle :: "handler registry \<Rightarrow> handler registry" where
  "register_proc_lifecycle = registry_add ''proc_lifecycle'' (\<lambda>_. Some proc_on_event)"

definition register_oom :: "handler registry \<Rightarrow> handler registry" where
  "register_oom = registry_add ''oom'' (\<lambda>_. Some oom_on_event)"

definition register_stdout_json :: "sink_impl registry \<Rightarrow> sink_impl registry" where
  "register_stdout_json = registry_add ''stdout_json'' 
     (\<lambda>config. Some (Stdout_Json_Sink (stdout_factory config)))"

definition register_http :: "sink_impl registry \<Rightarrow> sink_impl registry" where
  "register_http = registry_add ''http'' (\<lambda>config. map_option Http_Sink (http_factory config))"

definition register_null :: "sink_impl registry \<Rightarrow> sink_impl registry" where
  "register_null = registry_add ''null'' (\<lambda>_. Some Null_Sink)"

definition probe_object :: "(handler registry \<Rightarrow> handler registry) \<Rightarrow> plugin_object" where
  "probe_object reg = \<lparr>so_register_probe = Some reg, so_register_sink = None\<rparr>"

definition sink_object :: "(sink_impl registry \<Rightarrow> sink_impl registry) \<Rightarrow> plugin_object" where
  "sink_object reg = \<lparr>so_register_probe = None, so_register_sink = Some reg\<rparr>"

text \<open>The plugin directory as the build lays it out.\<close>

definition built_tree :: "string \<Rightarrow> string \<Rightarrow> plugin_object option" where
  "built_tree dir = map_of
     [(plugin_path dir ''probe'' ''proc_lifecycle'', probe_object register_proc_lifecycle),
      (plugin_path dir ''probe'' ''oom'', probe_object register_oom),
      (plugin_path dir ''sink'' ''stdout_json'', sink_object register_stdout_json),
      (plugin_path dir ''sink'' ''http'', sink_object register_http),
      (plugin_path dir ''sink'' ''null'', sink_object register_null)]"

lemma plugin_path_eq:
  "plugin_path dir kind n = plugin_path dir kind n' \<longleftrightarrow> n = n'"
  "plugin_path dir ''probe'' n \<noteq> plugin_path dir ''sink'' n'"
  by (simp_all add: plugin_path_def)

lemmas register_defs = register_proc_lifecycle_def register_oom_def register_stdout_json_def
  register_http_def register_null_def probe_object_def sink_object_def

text \<open>
  The sink an instance of the tree's plugins is, \<open>plugin\<close> and \<open>config\<close> being its section; there
  is none when the plugin is unknown or the http sink's endpoint is not valid.
\<close>

definition sink_of_section :: "string \<Rightarrow> component_config \<Rightarrow> sink_impl option" where
  "sink_of_section plugin config =
     (if plugin = ''stdout_json'' then Some (Stdout_Json_Sink (stdout_factory config))
      else if plugin = ''http'' then map_option Http_Sink (http_factory config)
      else if plugin = ''null'' then Some Null_Sink else None)"

text \<open>The handler of a probe of the tree.\<close>

definition handler_of :: "string \<Rightarrow> handler option" where
  "handler_of plugin =
     (if plugin = ''proc_lifecycle'' then Some proc_on_event
      else if plugin = ''oom'' then Some oom_on_event else None)"

text \<open>
  With the built tree, an instance loads exactly when its plugin is one of the tree's,
  under the instance id it was given; the http sink also needs a valid endpoint.
\<close>

lemma built_tree_loads:
  "fst (load_probe (built_tree (ld_plugin_dir l)) ident plugin config l) = handler_of plugin"
  "fst (load_sink (built_tree (ld_plugin_dir l)) ident plugin config l) = sink_of_section plugin config"
  by (auto simp: handler_of_def sink_of_section_def load_probe_def load_sink_def built_tree_def plugin_path_eq plugin_path_eq [symmetric]
      open_plugin_def register_defs registry_contains_def registry_create_def map_simps Let_def
      split: option.split)

end
