(* ===== verification/EventLoop.thy ===== *)
theory EventLoop
  imports Prelude
begin

text \<open>
  \<^verbatim>\<open>core/probe/bpf_probe.h\<close>, the life of a probe's libbpf skeleton, and
  \<^verbatim>\<open>core/event_loop.cpp\<close>, the multiplexer of the probes' ring buffers. Probes and emitters
  are known by address. What libbpf answers is an argument: whether a skeleton opens, loads
  and attaches, whether a ring buffer can be armed, which rings a poll finds ready.
\<close>

section \<open>The life of a skeleton\<close>

text \<open>\<open>bp_calls\<close> records the calls of the four skeleton functions, each with its skeleton.\<close>

datatype skel_call = Skel_Open nat | Skel_Load nat | Skel_Attach nat | Skel_Destroy nat

record bpf_probe =
  bp_skel :: "nat option"
  bp_calls :: "skel_call list"

definition new_bpf_probe :: bpf_probe where
  "new_bpf_probe = \<lparr>bp_skel = None, bp_calls = []\<rparr>"

definition bpf_open :: "nat option \<Rightarrow> bpf_probe \<Rightarrow> bool \<times> bpf_probe" where
  "bpf_open opened p =
     (case opened of
        None \<Rightarrow> (False, p\<lparr>bp_skel := None\<rparr>)
      | Some h \<Rightarrow> (True, p\<lparr>bp_skel := Some h, bp_calls := bp_calls p @ [Skel_Open h]\<rparr>))"

definition bpf_load :: "int \<Rightarrow> bpf_probe \<Rightarrow> bool \<times> bpf_probe" where
  "bpf_load err p =
     (case bp_skel p of
        None \<Rightarrow> (False, p)
      | Some h \<Rightarrow> (err = 0, p\<lparr>bp_calls := bp_calls p @ [Skel_Load h]\<rparr>))"

definition bpf_attach :: "int \<Rightarrow> bpf_probe \<Rightarrow> bool \<times> bpf_probe" where
  "bpf_attach err p =
     (case bp_skel p of
        None \<Rightarrow> (False, p)
      | Some h \<Rightarrow> (err = 0, p\<lparr>bp_calls := bp_calls p @ [Skel_Attach h]\<rparr>))"

definition bpf_detach :: "bpf_probe \<Rightarrow> bpf_probe" where
  "bpf_detach p =
     (case bp_skel p of
        None \<Rightarrow> p
      | Some h \<Rightarrow> p\<lparr>bp_skel := None, bp_calls := bp_calls p @ [Skel_Destroy h]\<rparr>)"

text \<open>\<^verbatim>\<open>ring_fd\<close> of every probe of the tree: the fd of its \<^verbatim>\<open>events\<close> map, while it has a skeleton.\<close>

definition bpf_ring_fd :: "(nat \<Rightarrow> int) \<Rightarrow> bpf_probe \<Rightarrow> int" where
  "bpf_ring_fd map_fd p = (case bp_skel p of None \<Rightarrow> - 1 | Some h \<Rightarrow> map_fd h)"

text \<open>What the daemon does with a fresh probe: \<^verbatim>\<open>open && load && attach\<close>, with short-circuit.\<close>

definition bring_up :: "nat option \<Rightarrow> int \<Rightarrow> int \<Rightarrow> bpf_probe \<Rightarrow> bool \<times> bpf_probe" where
  "bring_up opened load_err attach_err p =
     (let (ok1, p1) = bpf_open opened p in
      if \<not> ok1 then (False, p1)
      else let (ok2, p2) = bpf_load load_err p1 in
        if \<not> ok2 then (False, p2) else bpf_attach attach_err p2)"

text \<open>
  No skeleton leaks and none is destroyed twice: whatever fails while a fresh probe is
  brought up, and whether or not it was detached before (any number of times), destroying it
  has destroyed its skeleton exactly once, as the last call on it.
\<close>

lemma bpf_probe_no_leak:
  "bp_calls (bpf_detach ((bpf_detach ^^ n) (snd (bring_up opened load_err attach_err new_bpf_probe)))) =
     (case opened of
        None \<Rightarrow> []
      | Some h \<Rightarrow> [Skel_Open h, Skel_Load h] @ (if load_err = 0 then [Skel_Attach h] else [])
          @ [Skel_Destroy h])"
proof -
  have idem: "bpf_detach (bpf_detach p) = bpf_detach p" for p
    by (simp add: bpf_detach_def split: option.split)
  have "bpf_detach ((bpf_detach ^^ n) p) = bpf_detach p" for p
    by (induction n) (simp_all add: idem)
  then show ?thesis
    by (simp add: bring_up_def bpf_open_def bpf_load_def bpf_attach_def bpf_detach_def
        new_bpf_probe_def Let_def split: option.split)
qed

section \<open>The event loop\<close>

type_synonym probe_ptr = nat
type_synonym emitter_ptr = nat

record binding =
  b_probe :: probe_ptr
  b_out :: emitter_ptr

text \<open>\<open>el_rb\<close>: no \<^verbatim>\<open>ring_buffer\<close>, or the contexts of its rings in the order they were added.\<close>

record event_loop =
  el_rb :: "binding list option"
  el_bindings :: "binding list"

definition new_event_loop :: event_loop where
  "new_event_loop = \<lparr>el_rb = None, el_bindings = []\<rparr>"

text \<open>\<^verbatim>\<open>ring_buffer__new\<close> or \<^verbatim>\<open>ring_buffer__add\<close>, \<open>ok\<close> telling whether it succeeds.\<close>

definition arm_ring :: "bool \<Rightarrow> binding \<Rightarrow> binding list option \<Rightarrow> bool \<times> binding list option" where
  "arm_ring ok b rb =
     (case rb of
        None \<Rightarrow> if ok then (True, Some [b]) else (False, None)
      | Some bs \<Rightarrow> if ok then (True, Some (bs @ [b])) else (False, Some bs))"

definition loop_add ::
  "(probe_ptr \<Rightarrow> int) \<Rightarrow> (probe_ptr \<Rightarrow> bool) \<Rightarrow> probe_ptr \<Rightarrow> emitter_ptr \<Rightarrow> event_loop \<Rightarrow> bool \<times> event_loop"
  where
  "loop_add ring_fd armable probe out l =
     (if ring_fd probe < 0 then (True, l)
      else let b = \<lparr>b_probe = probe, b_out = out\<rparr>;
               bindings = el_bindings l @ [b];
               (ok, rb) = arm_ring (armable probe) b (el_rb l) in
        if \<not> ok then (False, l\<lparr>el_rb := rb, el_bindings := butlast bindings\<rparr>)
        else (True, l\<lparr>el_rb := rb, el_bindings := bindings\<rparr>))"

text \<open>The rebuild of \<^verbatim>\<open>remove\<close>: the new ring buffer, the surviving bindings, the dropped probes.\<close>

fun rearm ::
  "(probe_ptr \<Rightarrow> bool) \<Rightarrow> binding list \<Rightarrow> binding list option \<Rightarrow> binding list \<Rightarrow> probe_ptr list
     \<Rightarrow> binding list option \<times> binding list \<times> probe_ptr list" where
  "rearm armable [] rb surviving dropped = (rb, surviving, dropped)"
| "rearm armable (b # bs) rb surviving dropped =
     (let (ok, rb') = arm_ring (armable (b_probe b)) b rb in
      if ok then rearm armable bs rb' (surviving @ [b]) dropped
      else rearm armable bs rb' surviving (dropped @ [b_probe b]))"

text \<open>Erasing the first binding of a probe, if there is one.\<close>

fun erase_binding :: "probe_ptr \<Rightarrow> binding list \<Rightarrow> binding list option" where
  "erase_binding probe [] = None"
| "erase_binding probe (b # bs) =
     (if b_probe b = probe then Some bs else map_option ((#) b) (erase_binding probe bs))"

definition loop_remove ::
  "(probe_ptr \<Rightarrow> bool) \<Rightarrow> probe_ptr \<Rightarrow> event_loop \<Rightarrow> probe_ptr list \<times> event_loop" where
  "loop_remove armable probe l =
     (case erase_binding probe (el_bindings l) of
        None \<Rightarrow> ([], l)
      | Some bindings \<Rightarrow>
          if bindings = [] then ([], l\<lparr>el_rb := None, el_bindings := bindings\<rparr>)
          else (let (rb, surviving, dropped) = rearm armable bindings None [] [] in
                (dropped, l\<lparr>el_rb := rb, el_bindings := surviving\<rparr>)))"

definition loop_empty :: "event_loop \<Rightarrow> bool" where
  "loop_empty l \<longleftrightarrow> el_rb l = None"

text \<open>
  \<^verbatim>\<open>poll\<close>: an error of \<^verbatim>\<open>ring_buffer__poll\<close>, or the rings it finds ready (by their position)
  with the records it consumes from each, ring after ring. The result is whether the loop
  goes on, and the dispatched records: probe, emitter, bytes.
\<close>

definition EINTR :: int where "EINTR = 4"

definition loop_poll ::
  "int + (nat \<times> u8 list list) list \<Rightarrow> event_loop \<Rightarrow> bool \<times> (probe_ptr \<times> emitter_ptr \<times> u8 list) list" where
  "loop_poll outcome l =
     (case el_rb l of
        None \<Rightarrow> (True, [])
      | Some bs \<Rightarrow>
          (case outcome of
             Inl err \<Rightarrow> (\<not> (err < 0 \<and> err \<noteq> - EINTR), [])
           | Inr ready \<Rightarrow>
               (True, concat (map (\<lambda>(i, datas). if i < length bs
                 then map (\<lambda>d. (b_probe (bs ! i), b_out (bs ! i), d)) datas else []) ready))))"

section \<open>What is armed is what is bound\<close>

definition armed :: "binding list \<Rightarrow> binding list option" where
  "armed bs = (if bs = [] then None else Some bs)"

definition loop_inv :: "event_loop \<Rightarrow> bool" where
  "loop_inv l \<longleftrightarrow> el_rb l = armed (el_bindings l) \<and> distinct (map b_probe (el_bindings l))"

inductive loop_step :: "event_loop \<Rightarrow> event_loop \<Rightarrow> bool" where
  adds: "probe \<notin> b_probe ` set (el_bindings l)
     \<Longrightarrow> loop_add ring_fd armable probe out l = (ok, l') \<Longrightarrow> loop_step l l'"
| removes: "loop_remove armable probe l = (dropped, l') \<Longrightarrow> loop_step l l'"

inductive_cases loop_stepE: "loop_step l l'"

lemma arm_ring_armed: "arm_ring ok b (armed bs) = (ok, armed (if ok then bs @ [b] else bs))"
  by (simp add: arm_ring_def armed_def)

lemma rearm_eq:
  "rearm armable bs (armed sv) sv dr =
     (let sv' = sv @ filter (armable \<circ> b_probe) bs in
      (armed sv', sv', dr @ map b_probe (filter (Not \<circ> armable \<circ> b_probe) bs)))"
  by (induction bs arbitrary: sv dr) (simp_all add: arm_ring_armed Let_def)

lemma erase_binding_None: "erase_binding probe bs = None \<longleftrightarrow> probe \<notin> b_probe ` set bs"
  by (induction bs) auto

lemma erase_binding_Some:
  "erase_binding probe bs = Some bs' \<Longrightarrow> distinct (map b_probe bs) \<Longrightarrow>
     bs' = filter (\<lambda>b. b_probe b \<noteq> probe) bs"
proof (induction bs arbitrary: bs')
  case (Cons b bs)
  then show ?case
    by (cases "b_probe b = probe") (auto simp: filter_id_conv image_iff intro!: filter_True [symmetric])
qed simp

lemma loop_add_eq:
  assumes "loop_inv l"
  shows "loop_add ring_fd armable probe out l =
    (let bs = (if 0 \<le> ring_fd probe \<and> armable probe
               then el_bindings l @ [\<lparr>b_probe = probe, b_out = out\<rparr>] else el_bindings l)
     in (ring_fd probe < 0 \<or> armable probe, l\<lparr>el_rb := armed bs, el_bindings := bs\<rparr>))"
  using assms by (auto simp: loop_add_def loop_inv_def arm_ring_armed Let_def)

lemma loop_remove_eq:
  assumes "loop_inv l"
  shows "loop_remove armable probe l =
    (if probe \<in> b_probe ` set (el_bindings l)
     then let others = filter (\<lambda>b. b_probe b \<noteq> probe) (el_bindings l);
              bs = filter (armable \<circ> b_probe) others in
       (map b_probe (filter (Not \<circ> armable \<circ> b_probe) others),
        l\<lparr>el_rb := armed bs, el_bindings := bs\<rparr>)
     else ([], l))"
proof (cases "erase_binding probe (el_bindings l)")
  case None
  then have "probe \<notin> b_probe ` set (el_bindings l)"
    using erase_binding_None [of probe "el_bindings l"] by simp
  with None show ?thesis by (simp add: loop_remove_def)
next
  case (Some bs)
  with assms have bs: "bs = filter (\<lambda>b. b_probe b \<noteq> probe) (el_bindings l)"
    by (simp add: erase_binding_Some loop_inv_def)
  have "probe \<in> b_probe ` set (el_bindings l)"
    using Some erase_binding_None [of probe "el_bindings l"] by auto
  with Some show ?thesis
    using rearm_eq [of armable bs "[]" "[]"]
    by (auto simp: loop_remove_def bs Let_def armed_def [of "[]"])
qed

interpretation loop_sys: invariant_system "\<lambda>l. l = new_event_loop" loop_step loop_inv
proof
  fix l l'
  show "l = new_event_loop \<Longrightarrow> loop_inv l"
    by (simp add: new_event_loop_def loop_inv_def armed_def)
  show "loop_inv l \<Longrightarrow> loop_step l l' \<Longrightarrow> loop_inv l'"
    by (elim loop_stepE) (auto simp: loop_add_eq loop_remove_eq Let_def loop_inv_def
        distinct_map_filter split: if_splits)
qed

text \<open>
  Any history of additions and removals, with any pattern of libbpf failures, leaves the
  ring buffer exactly in step with the bindings: the same rings in the same order, one per
  probe, and no ring buffer at all when nothing is bound.
\<close>

lemma event_loop_armed:
  assumes "loop_step\<^sup>*\<^sup>* new_event_loop l"
  shows "el_rb l = (if el_bindings l = [] then None else Some (el_bindings l))
    \<and> distinct (map b_probe (el_bindings l))"
  using loop_sys.reachable_inv [OF refl assms] by (simp add: loop_inv_def armed_def)

lemma event_loop_armed_witness:
  "\<exists>l. loop_step\<^sup>*\<^sup>* new_event_loop l \<and> el_rb l = Some [\<lparr>b_probe = 2, b_out = 20\<rparr>]"
proof -
  let ?b = "\<lambda>i. \<lparr>b_probe = i, b_out = 10 * i\<rparr>"
  let ?l0 = "new_event_loop"
  let ?l1 = "\<lparr>el_rb = Some [?b 1], el_bindings = [?b 1]\<rparr>"
  let ?l2 = "\<lparr>el_rb = Some [?b 1, ?b 2], el_bindings = [?b 1, ?b 2]\<rparr>"
  let ?l3 = "\<lparr>el_rb = Some [?b 2], el_bindings = [?b 2]\<rparr>"
  have "loop_step ?l0 ?l1"
    by (rule loop_step.adds [of 1 _ "\<lambda>_. 5" "\<lambda>_. True" 10])
      (simp_all add: loop_add_def arm_ring_def new_event_loop_def Let_def)
  moreover have "loop_step ?l1 ?l2"
    by (rule loop_step.adds [of 2 _ "\<lambda>_. 6" "\<lambda>_. True" 20]) (simp_all add: loop_add_def arm_ring_def Let_def)
  moreover have "loop_step ?l2 ?l3"
    by (rule loop_step.removes [of "\<lambda>_. True" 1]) (simp add: loop_remove_def arm_ring_def)
  ultimately have "loop_step\<^sup>*\<^sup>* ?l0 ?l3"
    by (meson converse_rtranclp_into_rtranclp rtranclp.rtrancl_refl)
  from event_loop_armed [OF this] this show ?thesis by auto
qed

text \<open>
  Removing a probe accounts for every other one: it stays bound, in its place and
  armed, or it is reported as dropped because its ring could not be re-armed; the removed
  probe is in neither list.
\<close>

lemma loop_remove_partition:
  assumes "loop_step\<^sup>*\<^sup>* new_event_loop l" and "loop_remove armable probe l = (dropped, l')"
  shows "probe \<notin> set dropped \<and> probe \<notin> b_probe ` set (el_bindings l')
    \<and> (if probe \<in> b_probe ` set (el_bindings l)
       then el_bindings l' = [b \<leftarrow> el_bindings l. b_probe b \<noteq> probe \<and> armable (b_probe b)]
          \<and> dropped = [p \<leftarrow> map b_probe (el_bindings l). p \<noteq> probe \<and> \<not> armable p]
       else l' = l \<and> dropped = [])
    \<and> el_rb l' = (if el_bindings l' = [] then None else Some (el_bindings l'))"
proof -
  have inv: "loop_inv l" by (rule loop_sys.reachable_inv [OF refl assms(1)])
  then show ?thesis
    using assms(2)
    by (auto simp: loop_remove_eq Let_def armed_def loop_inv_def filter_map comp_def conj_commute
        split: if_splits)
qed

lemma loop_remove_partition_witness:
  "\<exists>l'. loop_remove (\<lambda>_. True) 3 new_event_loop = ([], l') \<and> 3 \<notin> b_probe ` set (el_bindings l')"
proof -
  obtain dropped l' where r: "loop_remove (\<lambda>_. True) 3 new_event_loop = (dropped, l')"
    by (metis prod.exhaust)
  from loop_remove_partition [OF rtranclp.rtrancl_refl r] r
  show ?thesis by (auto simp: new_event_loop_def)
qed

text \<open>
  Rings are drained one after the other, so the order of a poll's events is libbpf's
  order of rings, not the order in which the kernel emitted them.
\<close>

lemma poll_order_is_ring_order:
  assumes "el_rb l = Some bs" and "i < length bs" and "j < length bs"
  shows "loop_poll (Inr [(i, [x]), (j, [y])]) l =
    (True, [(b_probe (bs ! i), b_out (bs ! i), x), (b_probe (bs ! j), b_out (bs ! j), y)])"
  using assms by (simp add: loop_poll_def)

lemma loop_poll_bound:
  assumes "loop_inv l" and "(probe, out, data) \<in> set (snd (loop_poll outcome l))"
  shows "\<lparr>b_probe = probe, b_out = out\<rparr> \<in> set (el_bindings l)"
proof (cases "el_bindings l = []")
  case True
  with assms show ?thesis by (simp add: loop_poll_def loop_inv_def armed_def)
next
  case False
  with assms(1) have rb: "el_rb l = Some (el_bindings l)" by (simp add: loop_inv_def armed_def)
  show ?thesis
  proof (cases outcome)
    case (Inl e)
    with assms(2) rb show ?thesis by (simp add: loop_poll_def)
  next
    case (Inr ready)
    with assms(2) rb obtain i where "i < length (el_bindings l)"
      "probe = b_probe (el_bindings l ! i)" "out = b_out (el_bindings l ! i)"
      by (auto simp: loop_poll_def split: if_splits)
    then have "\<lparr>b_probe = probe, b_out = out\<rparr> = el_bindings l ! i" by simp
    with \<open>i < _\<close> show ?thesis by (metis nth_mem)
  qed
qed

end
