(* ===== verification/Attribution.thy ===== *)
theory Attribution
  imports Prelude
begin

text \<open>
  \<^verbatim>\<open>core/attribution/attribution.cpp\<close>, first half: what a cgroup path says about the Slurm
  job (\<^verbatim>\<open>split_path\<close>, \<^verbatim>\<open>parse_numeric_suffix\<close>, \<^verbatim>\<open>parse_cgroup_path\<close>) and where the
  cgroup tree is (\<^verbatim>\<open>discover_cgroup_root\<close>). The file system, \<^verbatim>\<open>glob(3)\<close> and the contents
  of \<^verbatim>\<open>cgroup.conf\<close> are arguments.
\<close>

section \<open>Parsing a cgroup path\<close>

record attribution =
  attr_job_id :: u32
  attr_step_id :: string
  attr_task_id :: "u32 option"

text \<open>The default member initialisers.\<close>

definition no_attribution :: attribution where
  "no_attribution = \<lparr>attr_job_id = 0, attr_step_id = [], attr_task_id = None\<rparr>"

lemma find_char_from_ge: "find_char_from c s start = Some i \<Longrightarrow> start \<le> i"
  by (auto simp: find_char_from_def)

text \<open>The scanning loop: from \<open>start\<close>, up to the next slash or the end of the path.\<close>

function split_loop :: "string \<Rightarrow> nat \<Rightarrow> string list \<Rightarrow> string list" where
  "split_loop path start parts =
     (if start < length path
      then let stop = (case find_char_from CHR ''/'' path start of
                         None \<Rightarrow> length path | Some slash \<Rightarrow> slash)
           in split_loop path (stop + 1)
                (if start < stop then parts @ [substr path start (stop - start)] else parts)
      else parts)"
  by pat_completeness auto
termination
  by (relation "measure (\<lambda>(path, start, parts). length path - start)")
    (auto split: option.splits dest!: find_char_from_ge)

declare split_loop.simps [simp del]

definition split_path :: "string \<Rightarrow> string list" where
  "split_path path = split_loop path 0 []"

definition parse_numeric_suffix :: "string \<Rightarrow> string \<Rightarrow> u32 option" where
  "parse_numeric_suffix seg pre =
     (if length seg \<le> length pre \<or> take (length pre) seg \<noteq> pre then None
      else let digits = drop (length pre) seg in
        if digits = [] then None
        else if \<not> list_all is_digit digits then None
        else let (v, erange) = c_strtoul digits in
          if erange \<or> 0xFFFFFFFF < v then None else Some (ucast v))"

text \<open>One iteration of the loop of \<^verbatim>\<open>parse_cgroup_path\<close>: the attribution and \<^verbatim>\<open>saw_job\<close>.\<close>

definition parse_segment :: "attribution \<times> bool \<Rightarrow> string \<Rightarrow> attribution \<times> bool" where
  "parse_segment st seg =
     (let (attr, saw_job) = st in
      case parse_numeric_suffix seg ''job_'' of
        Some job \<Rightarrow> (attr\<lparr>attr_job_id := job, attr_step_id := [], attr_task_id := None\<rparr>, True)
      | None \<Rightarrow>
          if take 5 seg = ''step_'' \<and> 5 < length seg
          then (attr\<lparr>attr_step_id := drop 5 seg, attr_task_id := None\<rparr>, saw_job)
          else (case parse_numeric_suffix seg ''task_'' of
                  Some task \<Rightarrow> (attr\<lparr>attr_task_id := Some task\<rparr>, saw_job)
                | None \<Rightarrow> (attr, saw_job)))"

definition parse_cgroup_path :: "string \<Rightarrow> attribution option" where
  "parse_cgroup_path relative_path =
     (let (attr, saw_job) = foldl parse_segment (no_attribution, False) (split_path relative_path)
      in if saw_job then Some attr else None)"

subsection \<open>The scanning loop computes the nonempty pieces between slashes\<close>

definition path_segments :: "string \<Rightarrow> string list" where
  "path_segments p = filter (\<lambda>s. s \<noteq> []) (split_on CHR ''/'' p)"

lemma path_segments_Nil [simp]: "path_segments [] = []"
  by (simp add: path_segments_def)

lemma path_segments_append [str_simps]:
  "path_segments (a @ CHR ''/'' # b) = path_segments a @ path_segments b"
  by (simp add: path_segments_def split_on_append)

lemma path_segments_slash [str_simps]: "path_segments (CHR ''/'' # b) = path_segments b"
  by (simp add: path_segments_def)

lemma path_segments_single [str_simps]:
  "CHR ''/'' \<notin> set s \<Longrightarrow> path_segments s = (if s = [] then [] else [s])"
  by (simp add: path_segments_def split_on_notin)

lemma split_loop_segments:
  "split_loop path start parts = parts @ path_segments (drop start path)"
proof (induction path start parts rule: split_loop.induct)
  case (1 path start parts)
  show ?case
  proof (cases "start < length path")
    case False
    then show ?thesis by (simp add: split_loop.simps [of path start])
  next
    case True
    note IH = 1 [OF True refl]
    show ?thesis
    proof (cases "find_char CHR ''/'' (drop start path)")
      case None
      then have "path_segments (drop start path) = [drop start path]"
        using True by (simp add: find_char_None_iff path_segments_single)
      with None True show ?thesis
        by (simp add: split_loop.simps [of path start] split_loop.simps [of path "Suc _"]
            find_char_from_def substr_def)
    next
      case (Some i)
      from find_char_SomeD [OF Some] have slash: "CHR ''/'' \<notin> set (take i (drop start path))"
        and eq: "drop start path =
          take i (drop start path) @ CHR ''/'' # drop (Suc i) (drop start path)" by blast+
      have "path_segments (drop start path) = (if i = 0 then [] else [take i (drop start path)])
          @ path_segments (drop (Suc (start + i)) path)"
        using slash find_char_less [OF Some] True
        by (subst eq) (auto simp: path_segments_append path_segments_single ac_simps)
      with IH Some True show ?thesis
        by (simp add: split_loop.simps [of path start] find_char_from_def substr_def split: if_splits)
    qed
  qed
qed

lemma split_path_segments: "split_path p = path_segments p"
  by (simp add: split_path_def split_loop_segments)

subsection \<open>Numbers in a segment\<close>

lemma u64_of_nat_le: "n < 2 ^ 64 \<Longrightarrow> 0xFFFFFFFF < (of_nat n :: u64) \<longleftrightarrow> 0xFFFFFFFF < n"
  by (simp add: word_less_nat_alt unat_of_nat)

lemma parse_numeric_suffix_append:
  assumes "\<forall>c \<in> set ds. is_digit c" and "ds \<noteq> []"
  shows "parse_numeric_suffix (pre @ ds) pre =
    (if dec_value ds < 2 ^ 32 then Some (of_nat (dec_value ds)) else None)"
  using assms
  by (auto simp: parse_numeric_suffix_def c_strtoul_digits list_all_iff u64_of_nat_le Let_def
      unsigned_of_nat take_bit_nat_eq_self)

lemma parse_numeric_suffix_prefix:
  "parse_numeric_suffix seg pre = Some v \<Longrightarrow>
     \<exists>ds. seg = pre @ ds \<and> ds \<noteq> [] \<and> (\<forall>c \<in> set ds. is_digit c)"
  by (rule exI [of _ "drop (length pre) seg"])
    (auto simp: parse_numeric_suffix_def list_all_iff Let_def split: if_splits,
      metis append_take_drop_id)

text \<open>
  \<^verbatim>\<open>parse_numeric_suffix\<close> accepts exactly the prefix followed by one or more digits
  whose value fits 32 bits, and returns that value: no trailing junk, no overflow.
\<close>

lemma parse_numeric_suffix_iff:
  "parse_numeric_suffix seg pre = Some v \<longleftrightarrow>
     (\<exists>ds. seg = pre @ ds \<and> ds \<noteq> [] \<and> (\<forall>c \<in> set ds. is_digit c) \<and> dec_value ds = unat v)"
proof
  assume some: "parse_numeric_suffix seg pre = Some v"
  from parse_numeric_suffix_prefix [OF some]
  obtain ds where ds: "seg = pre @ ds" "ds \<noteq> []" "\<forall>c \<in> set ds. is_digit c" by blast
  with some have "dec_value ds < 2 ^ 32" and "v = of_nat (dec_value ds)"
    by (simp_all add: parse_numeric_suffix_append split: if_splits)
  with ds show "\<exists>ds. seg = pre @ ds \<and> ds \<noteq> [] \<and> (\<forall>c \<in> set ds. is_digit c) \<and> dec_value ds = unat v"
    by (auto simp: unat_of_nat)
next
  assume "\<exists>ds. seg = pre @ ds \<and> ds \<noteq> [] \<and> (\<forall>c \<in> set ds. is_digit c) \<and> dec_value ds = unat v"
  then show "parse_numeric_suffix seg pre = Some v"
    using unsigned_less [of v, where 'a = nat] by (auto simp: parse_numeric_suffix_append)
qed

subsection \<open>Which job a path names\<close>

abbreviation is_job_segment :: "string \<Rightarrow> bool" where
  "is_job_segment seg \<equiv> parse_numeric_suffix seg ''job_'' \<noteq> None"

lemma parse_segment_saw [simp]:
  "snd (parse_segment st seg) \<longleftrightarrow> snd st \<or> is_job_segment seg"
  by (cases st) (auto simp: parse_segment_def split: option.splits)

lemma foldl_parse_saw:
  "snd (foldl parse_segment st segs) \<longleftrightarrow> snd st \<or> (\<exists>seg \<in> set segs. is_job_segment seg)"
  by (induction segs arbitrary: st) auto

text \<open>A job segment wipes whatever the outer segments said.\<close>

lemma parse_segment_job:
  "parse_numeric_suffix seg ''job_'' = Some j \<Longrightarrow>
     parse_segment st seg = (\<lparr>attr_job_id = j, attr_step_id = [], attr_task_id = None\<rparr>, True)"
  by (cases st) (simp add: parse_segment_def)

lemma parse_numeric_dec [str_simps]:
  "n < 2 ^ 32 \<Longrightarrow> parse_numeric_suffix (pre @ dec_of_nat n) pre = Some (of_nat n)"
  by (simp add: parse_numeric_suffix_append)

lemma parse_numeric_suffix_other:
  "take (length pre) seg \<noteq> pre \<Longrightarrow> parse_numeric_suffix seg pre = None"
  by (simp add: parse_numeric_suffix_def)

lemma parse_numeric_job:
  "n < 2 ^ 32 \<Longrightarrow>
     parse_numeric_suffix (CHR ''j'' # CHR ''o'' # CHR ''b'' # CHR ''_'' # dec_of_nat n) ''job_''
       = Some (of_nat n)"
  using parse_numeric_dec [of n "''job_''"] by simp

lemma parse_numeric_task:
  "n < 2 ^ 32 \<Longrightarrow>
     parse_numeric_suffix (CHR ''t'' # CHR ''a'' # CHR ''s'' # CHR ''k'' # CHR ''_'' # dec_of_nat n)
       ''task_'' = Some (of_nat n)"
  using parse_numeric_dec [of n "''task_''"] by simp

lemma dec_of_nat_no_slash [simp]: "CHR ''/'' \<notin> set (dec_of_nat n)"
  by simp

text \<open>
  A path is refused exactly when none of its segments is a well-formed \<^verbatim>\<open>job_\<close>
  segment (slurmstepd's own cgroup, for instance).
\<close>

lemma parse_cgroup_path_None_iff:
  "parse_cgroup_path p = None \<longleftrightarrow>
     (\<forall>seg \<in> set (path_segments p). parse_numeric_suffix seg ''job_'' = None)"
  using foldl_parse_saw [of "(no_attribution, False)" "path_segments p"]
  by (auto simp: parse_cgroup_path_def split_path_segments split: prod.splits)

lemma path_segments_name:
  "CHR ''/'' \<notin> set name \<Longrightarrow> name \<noteq> [] \<Longrightarrow>
     path_segments (outer @ CHR ''/'' # name) = path_segments outer @ [name]"
  "CHR ''/'' \<notin> set name \<Longrightarrow> name \<noteq> [] \<Longrightarrow>
     path_segments (outer @ CHR ''/'' # name @ CHR ''/'' # inner) =
       path_segments outer @ name # path_segments inner"
  by (simp_all add: path_segments_append path_segments_single [of name])

lemma path_segments_first:
  "CHR ''/'' \<notin> set name \<Longrightarrow> name \<noteq> [] \<Longrightarrow>
     path_segments (name @ CHR ''/'' # inner) = name # path_segments inner"
  by (simp add: path_segments_append path_segments_single [of name])

text \<open>
  The innermost job wins: below a \<^verbatim>\<open>job_\<close> directory the outer path has no influence, so
  two jobs are never mixed and the mount point does not matter.
\<close>

lemma parse_cgroup_path_innermost:
  assumes "parse_numeric_suffix job ''job_'' = Some j" and "CHR ''/'' \<notin> set job"
  shows "parse_cgroup_path (outer @ ''/'' @ job @ ''/'' @ inner) = parse_cgroup_path (job @ ''/'' @ inner)
    \<and> parse_cgroup_path (job @ ''/'' @ inner) \<noteq> None"
proof -
  from assms(1) have "job \<noteq> []" by (auto simp: parse_numeric_suffix_def)
  let ?st = "(\<lparr>attr_job_id = j, attr_step_id = [], attr_task_id = None\<rparr>, True)"
  have "foldl parse_segment (no_attribution, False) (path_segments (outer @ ''/'' @ job @ ''/'' @ inner))
      = foldl parse_segment ?st (path_segments inner)"
    using assms \<open>job \<noteq> []\<close> path_segments_name(2) [of job outer inner]
    by (simp add: parse_segment_job)
  moreover have "foldl parse_segment (no_attribution, False) (path_segments (job @ ''/'' @ inner))
      = foldl parse_segment ?st (path_segments inner)"
    using assms \<open>job \<noteq> []\<close> path_segments_first [of job inner]
    by (simp add: parse_segment_job)
  moreover have "snd (foldl parse_segment ?st (path_segments inner))"
    by (simp add: foldl_parse_saw)
  ultimately show ?thesis
    by (auto simp: parse_cgroup_path_def split_path_segments split: prod.splits)
qed

lemma parse_cgroup_path_innermost_witness:
  "parse_cgroup_path (''/x/job_1/step_2'' @ ''/'' @ ''job_7'' @ ''/'' @ ''user'') =
   parse_cgroup_path (''job_7'' @ ''/'' @ ''user'')"
proof -
  have "parse_numeric_suffix ''job_7'' ''job_'' = Some 7" by code_simp
  from parse_cgroup_path_innermost [OF this, of "''/x/job_1/step_2''" "''user''"]
  show ?thesis by simp
qed

text \<open>
  The layout Slurm documents for the cgroup of a job, a step or a task, and the
  attributions it can express.
\<close>

definition slurm_cgroup_path :: "string \<Rightarrow> attribution \<Rightarrow> string" where
  "slurm_cgroup_path mnt a =
     mnt @ ''/job_'' @ dec_of_nat (unat (attr_job_id a)) @
     (if attr_step_id a = [] then []
      else ''/step_'' @ attr_step_id a @
        (case attr_task_id a of None \<Rightarrow> []
         | Some t \<Rightarrow> ''/user/task_'' @ dec_of_nat (unat t)))"

definition slurm_attribution :: "attribution \<Rightarrow> bool" where
  "slurm_attribution a \<longleftrightarrow>
     CHR ''/'' \<notin> set (attr_step_id a) \<and> (attr_step_id a = [] \<longrightarrow> attr_task_id a = None)"

lemma unat_u32_less: "unat (w :: u32) < 4294967296"
  using unsigned_less [of w, where 'a = nat] by simp

lemmas attribution_segment_simps =
  parse_segment_def parse_numeric_suffix_other parse_numeric_job parse_numeric_task unat_u32_less

lemma path_segments_slurm:
  assumes "slurm_attribution a"
  shows "path_segments (slurm_cgroup_path mnt a) = path_segments mnt @
     (''job_'' @ dec_of_nat (unat (attr_job_id a))) #
     (if attr_step_id a = [] then []
      else (''step_'' @ attr_step_id a) #
        (case attr_task_id a of None \<Rightarrow> []
         | Some t \<Rightarrow> [''user'', ''task_'' @ dec_of_nat (unat t)]))"
  using assms
  by (cases "attr_task_id a")
    (simp_all add: slurm_cgroup_path_def slurm_attribution_def path_segments_def
      split_on_append split_on_notin)

lemma parse_slurm_path:
  assumes "slurm_attribution a"
  shows "parse_cgroup_path (slurm_cgroup_path mnt a) = Some a"
  using assms
  by (cases a, cases "attr_task_id a")
    (auto simp: parse_cgroup_path_def split_path_segments path_segments_slurm
      slurm_attribution_def attribution_segment_simps split: prod.splits)

text \<open>
  C31. Round trip with the documented layout: the path of a job, step or task directory,
  under any root, is parsed to exactly that attribution.
\<close>

theorem parse_slurm_cgroup_path:
  assumes "slurm_attribution a"
  shows "parse_cgroup_path (slurm_cgroup_path mnt a) = Some a"
  using assms by (rule parse_slurm_path)

lemma parse_slurm_cgroup_path_witness:
  "parse_cgroup_path ''/sys/fs/cgroup/job_42/step_batch/user/task_3'' =
     Some \<lparr>attr_job_id = 42, attr_step_id = ''batch'', attr_task_id = Some 3\<rparr>"
proof -
  let ?a = "\<lparr>attr_job_id = 42, attr_step_id = ''batch'', attr_task_id = Some 3\<rparr> :: attribution"
  have "slurm_attribution ?a" by (simp add: slurm_attribution_def)
  moreover have "slurm_cgroup_path ''/sys/fs/cgroup'' ?a = ''/sys/fs/cgroup/job_42/step_batch/user/task_3''"
    by code_simp
  ultimately show ?thesis
    using parse_slurm_cgroup_path [of ?a "''/sys/fs/cgroup''"] by simp
qed

section \<open>Finding the cgroup root\<close>

definition blanks :: "char set" where
  "blanks = {CHR '' '', CHR 0x09, CHR 0x0D, CHR 0x0A}"

definition trim :: "string \<Rightarrow> string" where
  "trim s =
     (case find_first_not_of blanks s of
        None \<Rightarrow> []
      | Some b \<Rightarrow>
          (case find_last_not_of blanks s of
             None \<Rightarrow> []
           | Some e \<Rightarrow> substr s b (e - b + 1)))"

text \<open>The two locals the scan of \<^verbatim>\<open>cgroup.conf\<close> assigns.\<close>

record root_conf =
  conf_mountpoint :: string
  conf_ignore_systemd :: bool

definition root_conf_default :: root_conf where
  "root_conf_default = \<lparr>conf_mountpoint = ''/sys/fs/cgroup'', conf_ignore_systemd = False\<rparr>"

text \<open>The lower-cased key and the value of a line, unless it is empty, a comment or has no \<^verbatim>\<open>=\<close>.\<close>

definition conf_setting :: "string \<Rightarrow> (string \<times> string) option" where
  "conf_setting line =
     (let t = trim line in
      if t = [] \<or> hd t = CHR ''#'' then None
      else case find_char CHR ''='' t of
        None \<Rightarrow> None
      | Some eq \<Rightarrow> Some (map to_lower (trim (take eq t)), trim (drop (eq + 1) t)))"

definition conf_line :: "root_conf \<Rightarrow> string \<Rightarrow> root_conf" where
  "conf_line c line =
     (case conf_setting line of
        None \<Rightarrow> c
      | Some (key, value) \<Rightarrow>
          if key = ''cgroupmountpoint'' \<and> value \<noteq> [] then c\<lparr>conf_mountpoint := value\<rparr>
          else if key = ''ignoresystemd''
          then c\<lparr>conf_ignore_systemd := (value = ''yes'' \<or> value = ''Yes'' \<or> value = ''YES'')\<rparr>
          else c)"

text \<open>\<^const>\<open>None\<close> is a file that cannot be opened.\<close>

definition read_cgroup_conf :: "string option \<Rightarrow> root_conf" where
  "read_cgroup_conf conf =
     (case conf of
        None \<Rightarrow> root_conf_default
      | Some text \<Rightarrow> foldl conf_line root_conf_default (getlines text))"

definition root_patterns :: "string \<Rightarrow> string list" where
  "root_patterns mountpoint =
     [mountpoint @ ''/system.slice/*slurmstepd*.scope'',
      mountpoint @ ''/*.slice/*slurmstepd*.scope'',
      mountpoint @ ''/slurm'']"

text \<open>
  The loop over the patterns: the first one that globs to something wins. \<open>glob\<close> is the
  outcome of \<^verbatim>\<open>glob(3)\<close>: \<^const>\<open>None\<close> for a nonzero return, else the paths found.
\<close>

fun first_match :: "(string \<Rightarrow> string list option) \<Rightarrow> string list \<Rightarrow> string option" where
  "first_match glob [] = None"
| "first_match glob (pattern # ps) =
     (case glob pattern of
        Some (found # _) \<Rightarrow> Some found
      | _ \<Rightarrow> first_match glob ps)"

definition discover_cgroup_root ::
  "(string \<Rightarrow> bool) \<Rightarrow> (string \<Rightarrow> string list option) \<Rightarrow> string \<Rightarrow> string option \<Rightarrow> string option"
  where
  "discover_cgroup_root is_dir glob override_path cgroup_conf =
     (if override_path \<noteq> []
      then (if is_dir override_path then Some override_path else None)
      else first_match glob (root_patterns (conf_mountpoint (read_cgroup_conf cgroup_conf))))"

subsection \<open>Properties of the search\<close>

text \<open>The value a configuration gives the mount point: the last nonempty setting.\<close>

definition mountpoint_settings :: "string \<Rightarrow> string list" where
  "mountpoint_settings text =
     [value. Some (key, value) \<leftarrow> map conf_setting (getlines text),
        key = ''cgroupmountpoint'' \<and> value \<noteq> []]"

definition last_or :: "'a \<Rightarrow> 'a list \<Rightarrow> 'a" where
  "last_or d xs = (if xs = [] then d else last xs)"

lemma conf_line_mountpoint:
  "conf_mountpoint (conf_line c line) =
     (case conf_setting line of
        Some (key, value) \<Rightarrow>
          if key = ''cgroupmountpoint'' \<and> value \<noteq> [] then value else conf_mountpoint c
      | None \<Rightarrow> conf_mountpoint c)"
  by (auto simp: conf_line_def split: option.split)

lemma foldl_conf_line_mountpoint:
  "conf_mountpoint (foldl conf_line c ls) =
     last_or (conf_mountpoint c)
       [value. Some (key, value) \<leftarrow> map conf_setting ls, key = ''cgroupmountpoint'' \<and> value \<noteq> []]"
proof (induction ls arbitrary: c)
  case Nil
  then show ?case by (simp add: last_or_def)
next
  case (Cons l ls)
  then show ?case
    by (auto simp: conf_line_mountpoint last_or_def split: option.splits)
qed

text \<open>
  With no override, the root is the first match of the three known layouts below the
  mount point, which is the last nonempty \<^verbatim>\<open>CgroupMountpoint\<close> setting of \<^verbatim>\<open>cgroup.conf\<close>
  (or the default). In particular \<^verbatim>\<open>IgnoreSystemd\<close> has no influence on the result.
\<close>

lemma discover_cgroup_root_search:
  "discover_cgroup_root is_dir glob [] (Some text) =
     first_match glob
       (root_patterns (last_or ''/sys/fs/cgroup'' (mountpoint_settings text)))"
  by (simp add: discover_cgroup_root_def read_cgroup_conf_def foldl_conf_line_mountpoint
      root_conf_default_def mountpoint_settings_def)

text \<open>
  An explicit override is final: the configuration and the known layouts are never
  consulted, and a path that is not a directory is an error rather than a fallback.
\<close>

lemma discover_cgroup_root_override:
  assumes "override_path \<noteq> []"
  shows "discover_cgroup_root is_dir glob override_path conf =
    (if is_dir override_path then Some override_path else None)"
  using assms by (simp add: discover_cgroup_root_def)

lemma discover_cgroup_root_override_witness:
  "discover_cgroup_root (\<lambda>_. False) (\<lambda>_. Some [''/a'']) ''/x'' None = None"
  by (subst discover_cgroup_root_override) simp_all

lemma first_match_Some:
  "first_match glob ps = Some r \<longleftrightarrow>
     (\<exists>before p after rest. ps = before @ p # after \<and> glob p = Some (r # rest)
        \<and> (\<forall>q \<in> set before. glob q = None \<or> glob q = Some []))"
proof (induction ps)
  case Nil
  then show ?case by simp
next
  case (Cons q qs)
  consider (hit) found rest where "glob q = Some (found # rest)"
    | (miss) "glob q = None \<or> glob q = Some []"
    by (metis list.exhaust option.exhaust)
  then show ?case
  proof cases
    case hit
    then show ?thesis
      by (auto simp: Cons_eq_append_conv intro: exI [of _ "[]"])
  next
    case miss
    then have "first_match glob (q # qs) = first_match glob qs" by auto
    with Cons miss show ?thesis
      by (auto simp: Cons_eq_append_conv) (metis append_Cons set_ConsD)+
  qed
qed

end
