(* ===== verification/Clock.thy ===== *)
theory Clock
  imports Prelude
begin

text \<open>
  \<^verbatim>\<open>core/utilities/clock.cpp\<close>: the two clocks and the offset between them. A clock reading
  is the input of the operations (\<^verbatim>\<open>clock_gettime\<close> is the system's); the function-local
  \<^verbatim>\<open>static\<close> of \<^verbatim>\<open>boot_offset_ns\<close> is the explicit cache it reads and writes.
\<close>

text \<open>
  \<^verbatim>\<open>struct timespec\<close>: the fields are signed 64-bit, kept here as the word that their cast
  to \<^verbatim>\<open>uint64_t\<close> yields.
\<close>

record timespec =
  tv_sec :: u64
  tv_nsec :: u64

record clock_reading =
  clock_monotonic :: timespec
  clock_realtime :: timespec

definition to_ns :: "timespec \<Rightarrow> u64" where
  "to_ns ts = tv_sec ts * 1000000000 + tv_nsec ts"

definition monotonic_ns :: "clock_reading \<Rightarrow> u64" where
  "monotonic_ns c = to_ns (clock_monotonic c)"

definition realtime_ns :: "clock_reading \<Rightarrow> u64" where
  "realtime_ns c = to_ns (clock_realtime c)"

text \<open>The result of a call and the value of the static after it.\<close>

definition boot_offset_ns :: "clock_reading \<Rightarrow> u64 option \<Rightarrow> u64 \<times> u64 option" where
  "boot_offset_ns c cache =
     (case cache of
        Some offset \<Rightarrow> (offset, cache)
      | None \<Rightarrow> (let offset = realtime_ns c - monotonic_ns c in (offset, Some offset)))"

text \<open>The results of a sequence of calls, each with its own clock readings.\<close>

fun boot_offset_calls :: "clock_reading list \<Rightarrow> u64 option \<Rightarrow> u64 list" where
  "boot_offset_calls [] cache = []"
| "boot_offset_calls (c # cs) cache =
     (let (offset, cache') = boot_offset_ns c cache in offset # boot_offset_calls cs cache')"

lemma boot_offset_cached [simp]: "boot_offset_ns c (Some o') = (o', Some o')"
  by (simp add: boot_offset_ns_def)

lemma boot_offset_first: "snd (boot_offset_ns c None) = Some (fst (boot_offset_ns c None))"
  by (simp add: boot_offset_ns_def Let_def)

lemma boot_offset_calls_cached:
  "boot_offset_calls cs (Some o') = replicate (length cs) o'"
  by (induction cs) auto

text \<open>
  Converting two timestamps with one offset keeps the time between them, so records of one
  job keep their order while the wall clock does not wrap.
\<close>

lemma to_ns_exact:
  assumes "unat (tv_sec ts) * 1000000000 + unat (tv_nsec ts) < 2 ^ 64"
  shows "unat (to_ns ts) = unat (tv_sec ts) * 1000000000 + unat (tv_nsec ts)"
proof -
  have "to_ns ts = of_nat (unat (tv_sec ts) * 1000000000 + unat (tv_nsec ts))"
    by (simp add: to_ns_def)
  with assms show ?thesis by (simp add: unat_of_nat del: of_nat_add of_nat_mult)
qed

text \<open>
  The offset is sampled once: whatever the clocks read later (an NTP step included),
  every call returns the offset of the first.
\<close>

lemma boot_offset_sampled_once:
  "boot_offset_calls (c # cs) None =
     replicate (Suc (length cs)) (realtime_ns c - monotonic_ns c)"
  by (simp add: boot_offset_calls_cached boot_offset_ns_def Let_def)

end
