(* ===== verification/Resolver.thy ===== *)
theory Resolver
  imports Attribution Clock
begin

text \<open>
  \<^verbatim>\<open>core/attribution/attribution.cpp\<close>, second half: \<^verbatim>\<open>CgroupResolver\<close>, the live map from
  cgroup ids to jobs. The startup walk reads a file system given as functions; everything
  later comes from the cgroup watcher's events, clock ticks and lookups. The process-wide
  boot offset is an argument (see \<^verbatim>\<open>Clock\<close>: it is sampled once).
\<close>

section \<open>State\<close>

record entry =
  e_attr :: attribution
  e_created_ns :: u64
  e_removed_ns :: u64

record resolver_stats =
  hits :: u64
  misses :: u64
  rescans :: u64
  stale :: u64

record resolver =
  r_root :: string
  r_grace_ns :: u64
  r_entries :: "u64 \<rightharpoonup> entry"
  r_stats :: resolver_stats

definition new_resolver :: "string \<Rightarrow> u64 \<Rightarrow> resolver" where
  "new_resolver root_dir grace_ns =
     \<lparr>r_root = root_dir, r_grace_ns = grace_ns, r_entries = Map.empty,
      r_stats = \<lparr>hits = 0, misses = 0, rescans = 0, stale = 0\<rparr>\<rparr>"

text \<open>The default argument of the constructor: 30 seconds.\<close>

definition default_grace_ns :: u64 where
  "default_grace_ns = 30 * 1000000000"

section \<open>The startup walk\<close>

record stat_info =
  st_ino :: u64
  st_ctim :: timespec
  st_isdir :: bool

datatype dirent_type = DT_DIR | DT_UNKNOWN | DT_OTHER

record file_system =
  fs_stat :: "string \<Rightarrow> stat_info option"
  fs_readdir :: "string \<Rightarrow> (string \<times> dirent_type) list option"

definition is_dir :: "file_system \<Rightarrow> string \<Rightarrow> bool" where
  "is_dir fs path = (case fs_stat fs path of None \<Rightarrow> False | Some st \<Rightarrow> st_isdir st)"

definition created_from_ctime :: "u64 \<Rightarrow> stat_info \<Rightarrow> u64" where
  "created_from_ctime offset st =
     (let ctime_realtime = tv_sec (st_ctim st) * 1000000000 + tv_nsec (st_ctim st)
      in if offset < ctime_realtime then ctime_realtime - offset else 0)"

definition add_dir :: "file_system \<Rightarrow> u64 \<Rightarrow> string \<Rightarrow> resolver \<Rightarrow> resolver" where
  "add_dir fs offset abs_path r =
     (case fs_stat fs abs_path of
        None \<Rightarrow> r
      | Some st \<Rightarrow>
          (case parse_cgroup_path abs_path of
             None \<Rightarrow> r
           | Some attr \<Rightarrow>
               r\<lparr>r_entries := (r_entries r)(st_ino st \<mapsto>
                 \<lparr>e_attr = attr, e_created_ns = created_from_ctime offset st, e_removed_ns = 0\<rparr>)\<rparr>))"

text \<open>The directory entries the inner loop pushes, in the order \<^verbatim>\<open>readdir\<close> returns them.\<close>

definition child_dirs :: "file_system \<Rightarrow> string \<Rightarrow> (string \<times> dirent_type) list \<Rightarrow> string list" where
  "child_dirs fs current ents =
     [current @ ''/'' @ name. (name, d_type) \<leftarrow> ents,
        name \<noteq> ''.'' \<and> name \<noteq> ''..'' \<and>
        (d_type = DT_DIR \<or> d_type = DT_UNKNOWN \<and> is_dir fs (current @ ''/'' @ name))]"

text \<open>
  The loop over the explicit stack, whose back is the end of the list. On an arbitrary
  file system it need not end: \<^const>\<open>None\<close>.
\<close>

partial_function (option) add_subtree_loop ::
  "file_system \<Rightarrow> u64 \<Rightarrow> string list \<Rightarrow> resolver \<Rightarrow> resolver option" where
  "add_subtree_loop fs offset stack r =
     (if stack = [] then Some r
      else let current = last stack;
               stack' = butlast stack;
               r' = (if current \<noteq> r_root r then add_dir fs offset current r else r)
           in case fs_readdir fs current of
                None \<Rightarrow> add_subtree_loop fs offset stack' r'
              | Some ents \<Rightarrow>
                  add_subtree_loop fs offset (stack' @ child_dirs fs current ents) r')"

declare add_subtree_loop.simps [code]

definition add_subtree :: "file_system \<Rightarrow> u64 \<Rightarrow> string \<Rightarrow> resolver \<Rightarrow> resolver option" where
  "add_subtree fs offset dir r = add_subtree_loop fs offset [dir] r"

definition resolver_scan :: "file_system \<Rightarrow> u64 \<Rightarrow> resolver \<Rightarrow> resolver option" where
  "resolver_scan fs offset r =
     map_option (\<lambda>r. r\<lparr>r_stats := (r_stats r)\<lparr>rescans := rescans (r_stats r) + 1\<rparr>\<rparr>)
       (add_subtree fs offset (r_root r) r)"

definition resolver_start :: "file_system \<Rightarrow> u64 \<Rightarrow> resolver \<Rightarrow> (bool \<times> resolver) option" where
  "resolver_start fs offset r =
     (if \<not> is_dir fs (r_root r) then Some (False, r)
      else map_option (\<lambda>r. (True, r)) (resolver_scan fs offset r))"

section \<open>Live operations\<close>

definition on_created :: "u64 \<Rightarrow> string \<Rightarrow> u64 \<Rightarrow> resolver \<Rightarrow> resolver" where
  "on_created cgroup_id path created_ns r =
     (case parse_cgroup_path path of
        None \<Rightarrow> r
      | Some attr \<Rightarrow>
          r\<lparr>r_entries := (r_entries r)(cgroup_id \<mapsto>
            \<lparr>e_attr = attr, e_created_ns = created_ns, e_removed_ns = 0\<rparr>)\<rparr>)"

definition on_removed :: "u64 \<Rightarrow> u64 \<Rightarrow> resolver \<Rightarrow> resolver" where
  "on_removed cgroup_id removed_ns r =
     (case r_entries r cgroup_id of
        None \<Rightarrow> r
      | Some e \<Rightarrow>
          if e_removed_ns e = 0
          then r\<lparr>r_entries := (r_entries r)(cgroup_id \<mapsto> e\<lparr>e_removed_ns := removed_ns\<rparr>)\<rparr>
          else r)"

text \<open>The subtraction is on \<^verbatim>\<open>uint64_t\<close> and wraps.\<close>

definition expired :: "u64 \<Rightarrow> u64 \<Rightarrow> entry \<Rightarrow> bool" where
  "expired grace_ns now e \<longleftrightarrow> e_removed_ns e \<noteq> 0 \<and> grace_ns < now - e_removed_ns e"

definition expire :: "u64 \<Rightarrow> resolver \<Rightarrow> resolver" where
  "expire now r =
     r\<lparr>r_entries := (\<lambda>k. case r_entries r k of
         None \<Rightarrow> None
       | Some e \<Rightarrow> if expired (r_grace_ns r) now e then None else Some e)\<rparr>"

definition resolver_tick :: "u64 \<Rightarrow> resolver \<Rightarrow> resolver" where
  "resolver_tick now r = expire now r"

definition resolve :: "u64 \<Rightarrow> u64 \<Rightarrow> resolver \<Rightarrow> attribution option \<times> resolver" where
  "resolve cgroup_id event_ts_ns r =
     (let s = r_stats r in
      case r_entries r cgroup_id of
        None \<Rightarrow> (None, r\<lparr>r_stats := s\<lparr>misses := misses s + 1\<rparr>\<rparr>)
      | Some e \<Rightarrow>
          if event_ts_ns \<noteq> 0 \<and> event_ts_ns < e_created_ns e
          then (None, r\<lparr>r_stats := s\<lparr>stale := stale s + 1\<rparr>\<rparr>)
          else (Some (e_attr e), r\<lparr>r_stats := s\<lparr>hits := hits s + 1\<rparr>\<rparr>))"

section \<open>Lookups\<close>

text \<open>What a lookup answers, apart from the counters.\<close>

definition lookup_attr :: "resolver \<Rightarrow> u64 \<Rightarrow> u64 \<Rightarrow> attribution option" where
  "lookup_attr r cgroup_id ts =
     (case r_entries r cgroup_id of
        None \<Rightarrow> None
      | Some e \<Rightarrow> if ts \<noteq> 0 \<and> ts < e_created_ns e then None else Some (e_attr e))"

lemma resolve_fst: "fst (resolve k ts r) = lookup_attr r k ts"
  by (simp add: resolve_def lookup_attr_def Let_def split: option.split)

lemma resolve_entries [simp]: "r_entries (snd (resolve k ts r)) = r_entries r"
  by (simp add: resolve_def Let_def split: option.split)

lemma resolve_frame [simp]:
  "r_root (snd (resolve k ts r)) = r_root r" "r_grace_ns (snd (resolve k ts r)) = r_grace_ns r"
  by (simp_all add: resolve_def Let_def split: option.split)

text \<open>
  What the pipeline relies on: an answer that depends on the map alone, and lookups that
  do not change later answers.
\<close>

locale job_resolver =
  fixes query :: "u64 \<Rightarrow> u64 \<Rightarrow> 'r \<Rightarrow> attribution option \<times> 'r"
    and answer :: "'r \<Rightarrow> u64 \<Rightarrow> u64 \<Rightarrow> attribution option"
  assumes query_answer: "fst (query k ts r) = answer r k ts"
    and query_frame: "answer (snd (query k ts r)) = answer r"
begin

abbreviation query_pair :: "u64 \<times> u64 \<Rightarrow> 'r \<Rightarrow> attribution option \<times> 'r" where
  "query_pair q r \<equiv> query (fst q) (snd q) r"

lemma query_all_frame: "answer (snd (thread_list query_pair qs r)) = answer r"
  by (induction qs arbitrary: r) (simp_all add: query_frame)

lemma query_all_answers:
  "fst (thread_list query_pair qs r) = map (\<lambda>(k, ts). answer r k ts) qs"
  by (induction qs arbitrary: r) (auto simp: query_answer query_frame)

end

interpretation res: job_resolver resolve lookup_attr
  by unfold_locales (simp_all add: resolve_fst lookup_attr_def fun_eq_iff)

text \<open>The lookups made for a sequence of events, given as pairs of cgroup id and timestamp.\<close>

definition resolve_all :: "(u64 \<times> u64) list \<Rightarrow> resolver \<Rightarrow> attribution option list \<times> resolver" where
  "resolve_all = thread_list (\<lambda>q. resolve (fst q) (snd q))"

definition answered :: "resolver_stats \<Rightarrow> u64" where
  "answered s = hits s + misses s + stale s"

lemma resolve_answered: "answered (r_stats (snd (resolve k ts r))) = answered (r_stats r) + 1"
  by (simp add: resolve_def answered_def Let_def split: option.split)

lemma resolve_all_answered:
  "answered (r_stats (snd (resolve_all qs r))) = answered (r_stats r) + of_nat (length qs)"
  by (induction qs arbitrary: r) (simp_all add: resolve_all_def resolve_answered)

text \<open>
  A sequence of lookups answers each from the same map, and each is counted exactly
  once, as a hit, a miss or a stale entry (the counters are 64 bits wide and wrap).
\<close>

lemma resolve_all_counted:
  "fst (resolve_all qs r) = map (\<lambda>(k, ts). lookup_attr r k ts) qs
   \<and> answered (r_stats (snd (resolve_all qs r))) = answered (r_stats r) + of_nat (length qs)"
  using res.query_all_answers [of qs r] resolve_all_answered [of qs r]
  by (simp add: resolve_all_def)

section \<open>The life of one cgroup id\<close>

text \<open>
  What the watcher and the poll loop feed the resolver, and a run over such a history.
\<close>

datatype cgroup_event =
    Cgroup_Created u64 string u64
  | Cgroup_Removed u64 u64
  | Clock_Tick u64

fun resolver_step :: "resolver \<Rightarrow> cgroup_event \<Rightarrow> resolver" where
  "resolver_step r (Cgroup_Created k path ts) = on_created k path ts r"
| "resolver_step r (Cgroup_Removed k ts) = on_removed k ts r"
| "resolver_step r (Clock_Tick now) = resolver_tick now r"

definition resolver_run :: "resolver \<Rightarrow> cgroup_event list \<Rightarrow> resolver" where
  "resolver_run = foldl resolver_step"

text \<open>
  The specification: each id lives its own life, independent of every other id: unknown,
  live since its creation, or in the grace period since its removal.
\<close>

datatype life =
    Unknown
  | Live attribution u64
  | Grace attribution u64 u64

definition life_of :: "resolver \<Rightarrow> u64 \<Rightarrow> life" where
  "life_of r k =
     (case r_entries r k of
        None \<Rightarrow> Unknown
      | Some e \<Rightarrow>
          if e_removed_ns e = 0 then Live (e_attr e) (e_created_ns e)
          else Grace (e_attr e) (e_created_ns e) (e_removed_ns e))"

fun life_step :: "u64 \<Rightarrow> u64 \<Rightarrow> life \<Rightarrow> cgroup_event \<Rightarrow> life" where
  "life_step grace k l (Cgroup_Created k' path ts) =
     (if k' = k then (case parse_cgroup_path path of None \<Rightarrow> l | Some a \<Rightarrow> Live a ts) else l)"
| "life_step grace k l (Cgroup_Removed k' ts) =
     (case l of Live a c \<Rightarrow> if k' = k \<and> ts \<noteq> 0 then Grace a c ts else l | _ \<Rightarrow> l)"
| "life_step grace k l (Clock_Tick now) =
     (case l of Grace a c rm \<Rightarrow> if grace < now - rm then Unknown else l | _ \<Rightarrow> l)"

lemma resolver_step_frame [simp]:
  "r_root (resolver_step r ev) = r_root r" "r_grace_ns (resolver_step r ev) = r_grace_ns r"
  "r_stats (resolver_step r ev) = r_stats r"
  by (cases ev; simp add: on_created_def on_removed_def resolver_tick_def expire_def
      split: option.split)+

lemma life_of_step: "life_of (resolver_step r ev) k = life_step (r_grace_ns r) k (life_of r k) ev"
  by (cases ev)
    (auto simp: life_of_def on_created_def on_removed_def resolver_tick_def expire_def
      expired_def split: option.splits)

lemma life_of_run:
  "life_of (resolver_run r evs) k = foldl (life_step (r_grace_ns r) k) (life_of r k) evs"
  by (induction evs arbitrary: r) (simp_all add: resolver_run_def life_of_step)

lemma resolver_run_frame [simp]: "r_grace_ns (resolver_run r evs) = r_grace_ns r"
  by (induction evs arbitrary: r) (simp_all add: resolver_run_def)

lemma resolve_life:
  "fst (resolve k ts r) =
     (let check = (\<lambda>a c. if ts \<noteq> 0 \<and> ts < c then None else Some a) in
      case life_of r k of Unknown \<Rightarrow> None | Live a c \<Rightarrow> check a c | Grace a c _ \<Rightarrow> check a c)"
  by (simp add: resolve_fst lookup_attr_def life_of_def Let_def split: option.split)

text \<open>
  C19. Refinement: after any history, the state of each id is the one its own life cycle
  prescribes; events of other ids have no influence.
\<close>

theorem resolver_run_life:
  "life_of (resolver_run r evs) k = foldl (life_step (r_grace_ns r) k) (life_of r k) evs"
  by (rule life_of_run)

text \<open>
  A recycled id of a job cgroup never inherits the previous job: right after the
  creation event, whatever the map held, an event of the new cgroup resolves to the new
  job and an older one to nothing.
\<close>

lemma on_created_no_inheritance:
  assumes "parse_cgroup_path path = Some a"
  shows "fst (resolve k ts (on_created k path created r)) =
    (if ts \<noteq> 0 \<and> ts < created then None else Some a)"
  using assms by (simp add: resolve_fst lookup_attr_def on_created_def)

lemma on_created_no_inheritance_witness:
  "fst (resolve 5 20 (on_created 5 ''/job_2'' 10 (on_created 5 ''/job_1'' 3 (new_resolver [] 1)))) =
     Some \<lparr>attr_job_id = 2, attr_step_id = [], attr_task_id = None\<rparr>"
proof -
  have "parse_cgroup_path ''/job_2'' = Some \<lparr>attr_job_id = 2, attr_step_id = [], attr_task_id = None\<rparr>"
    by code_simp
  from on_created_no_inheritance [OF this, of 5 20 10] show ?thesis by simp
qed

text \<open>
  Events that leave a live entry of \<open>k\<close> alone, and events that leave an entry removed at \<open>t\<close>
  alone: no job cgroup is created under the id, the id is not removed while live, and no
  clock reading after the removal is later than the grace period.
\<close>

fun spares_live :: "u64 \<Rightarrow> cgroup_event \<Rightarrow> bool" where
  "spares_live k (Cgroup_Created k' path _) \<longleftrightarrow> k' \<noteq> k \<or> parse_cgroup_path path = None"
| "spares_live k (Cgroup_Removed k' ts) \<longleftrightarrow> k' \<noteq> k"
| "spares_live k (Clock_Tick _) \<longleftrightarrow> True"

fun spares_removed :: "u64 \<Rightarrow> u64 \<Rightarrow> u64 \<Rightarrow> cgroup_event \<Rightarrow> bool" where
  "spares_removed grace k t (Cgroup_Created k' path _) \<longleftrightarrow> k' \<noteq> k \<or> parse_cgroup_path path = None"
| "spares_removed grace k t (Cgroup_Removed _ _) \<longleftrightarrow> True"
| "spares_removed grace k t (Clock_Tick now) \<longleftrightarrow> t \<le> now \<and> unat now - unat t \<le> unat grace"

lemma spares_live_run:
  "list_all (spares_live k) evs \<Longrightarrow> foldl (life_step grace k) (Live a c) evs = Live a c"
proof (induction evs)
  case (Cons ev evs)
  then show ?case by (cases ev) (auto split: option.split)
qed simp

lemma within_grace: "t \<le> now \<Longrightarrow> grace < now - t \<longleftrightarrow> unat grace < unat now - unat t" for t :: u64
  by (simp add: word_less_nat_alt unat_sub)

lemma spares_removed_run:
  "list_all (spares_removed grace k t) evs \<Longrightarrow> foldl (life_step grace k) (Grace a c t) evs = Grace a c t"
proof (induction evs)
  case (Cons ev evs)
  then show ?case by (cases ev) (auto simp: within_grace split: option.split)
qed simp

text \<open>
  C21. The lifetime of an attribution: from the creation of a job cgroup on, through any other
  cgroup events and clock readings, until its removal and for the whole grace period after
  it, an event of the cgroup resolves to that job, unless its timestamp precedes the creation
  (the guard against recycled ids); the first clock reading past the grace period forgets the
  id.
\<close>

theorem attribution_lifetime:
  assumes "parse_cgroup_path path = Some a" and "list_all (spares_live k) before" and "t \<noteq> 0"
    and "list_all (spares_removed (r_grace_ns r) k t) after"
  shows "let r1 = resolver_run r (Cgroup_Created k path c # before);
             r2 = resolver_run r1 (Cgroup_Removed k t # after)
    in fst (resolve k ts r1) = (if ts \<noteq> 0 \<and> ts < c then None else Some a)
       \<and> fst (resolve k ts r2) = fst (resolve k ts r1)
       \<and> (t \<le> now \<and> unat (r_grace_ns r) < unat now - unat t \<longrightarrow>
            fst (resolve k ts (resolver_run r2 [Clock_Tick now])) = None)"
proof -
  let ?r1 = "resolver_run r (Cgroup_Created k path c # before)"
  let ?r2 = "resolver_run ?r1 (Cgroup_Removed k t # after)"
  have 1: "life_of ?r1 k = Live a c"
    using assms(1) spares_live_run [OF assms(2)] by (simp add: life_of_run)
  then have 2: "life_of ?r2 k = Grace a c t"
    using assms(3) spares_removed_run [OF assms(4)] by (simp add: life_of_run)
  then have "life_of (resolver_run ?r2 [Clock_Tick now]) k = Unknown"
    if "t \<le> now" "unat (r_grace_ns r) < unat now - unat t"
    using that by (simp add: life_of_run [of _ "[_]"] within_grace)
  with 1 2 show ?thesis by (simp add: Let_def resolve_life)
qed

lemma attribution_lifetime_witness:
  "fst (resolve 5 40 (resolver_run (new_resolver [] 100)
      [Cgroup_Created 5 ''/job_1'' 10, Cgroup_Created 6 ''/job_2'' 11, Cgroup_Removed 5 20, Clock_Tick 120])) =
     Some \<lparr>attr_job_id = 1, attr_step_id = [], attr_task_id = None\<rparr>"
proof -
  have "parse_cgroup_path ''/job_1'' = Some \<lparr>attr_job_id = 1, attr_step_id = [], attr_task_id = None\<rparr>"
    by code_simp
  moreover have "list_all (spares_live 5) [Cgroup_Created 6 ''/job_2'' 11]" by simp
  moreover have "list_all (spares_removed (r_grace_ns (new_resolver [] 100)) 5 20) [Clock_Tick 120]"
    by (simp add: new_resolver_def)
  ultimately show ?thesis
    using attribution_lifetime [of "''/job_1''" _ 5 "[Cgroup_Created 6 ''/job_2'' 11]" 20
        "new_resolver [] 100" "[Clock_Tick 120]" 10 40]
    by (simp add: Let_def resolver_run_def)
qed

text \<open>
  The guard against recycled ids has a gap: when the kernel gives the id of a removed job
  cgroup to a cgroup that is no job's, the old entry stays, and an event of the new cgroup,
  stamped after its creation, is attributed to the old job until the grace period ends.
\<close>

lemma recycled_id_keeps_old_job:
  assumes "parse_cgroup_path path = Some a" and "parse_cgroup_path path' = None"
    and "c \<le> t" and "t \<le> c'" and "c' \<le> ts"
  shows "fst (resolve k ts (resolver_run r
    [Cgroup_Created k path c, Cgroup_Removed k t, Cgroup_Created k path' c'])) = Some a"
proof -
  have "\<not> ts < c" using assms(3-5) by (simp add: not_less)
  then show ?thesis
    using assms(1,2) by (simp add: resolve_life life_of_run Let_def)
qed

text \<open>
  The grace period, in plain numbers: with the clock past the removal, a tick keeps a
  removed entry exactly while no more than the grace period has gone by, and never touches
  a live one.
\<close>

lemma tick_grace:
  assumes "r_entries r k = Some e" and "e_removed_ns e \<le> now"
  shows "r_entries (resolver_tick now r) k =
    (if e_removed_ns e = 0 \<or> unat now - unat (e_removed_ns e) \<le> unat (r_grace_ns r)
     then Some e else None)"
proof -
  have "unat (now - e_removed_ns e) = unat now - unat (e_removed_ns e)"
    using assms(2) by (rule unat_sub)
  with assms(1) show ?thesis
    by (auto simp: resolver_tick_def expire_def expired_def word_less_nat_alt)
qed

lemma tick_grace_witness:
  "r_entries (resolver_tick 101
     (on_removed 5 50 (on_created 5 ''/job_1'' 10 (new_resolver [] 50)))) 5 = None"
proof -
  let ?e = "\<lparr>e_attr = \<lparr>attr_job_id = 1, attr_step_id = [], attr_task_id = None\<rparr>,
    e_created_ns = 10, e_removed_ns = 50\<rparr> :: entry"
  let ?r = "on_removed 5 50 (on_created 5 ''/job_1'' 10 (new_resolver [] 50))"
  have job: "parse_cgroup_path ''/job_1'' = Some \<lparr>attr_job_id = 1, attr_step_id = [], attr_task_id = None\<rparr>"
    by code_simp
  have "r_entries ?r 5 = Some ?e" and "r_grace_ns ?r = 50"
    by (simp_all add: on_created_def on_removed_def job new_resolver_def)
  with tick_grace [of ?r 5 ?e 101] show ?thesis by simp
qed

section \<open>The startup walk visits the whole tree\<close>

text \<open>
  The subdirectories of a directory, the directories below it, and two documented properties
  of a directory tree: \<^verbatim>\<open>readdir\<close> may leave the type of an entry open but does not report a
  wrong one, and there is some weight (the number of directories below, say) of which the
  children use up less than the parent has, so that the tree is finite.
\<close>

definition subdirs :: "file_system \<Rightarrow> string \<Rightarrow> string list" where
  "subdirs fs p =
     (case fs_readdir fs p of
        None \<Rightarrow> []
      | Some ents \<Rightarrow>
          filter (is_dir fs) (map (\<lambda>n. p @ ''/'' @ n) (filter (\<lambda>n. n \<noteq> ''.'' \<and> n \<noteq> ''..'') (map fst ents))))"

inductive below :: "file_system \<Rightarrow> string \<Rightarrow> string \<Rightarrow> bool" for fs where
  below_refl: "below fs d d"
| below_step: "c \<in> set (subdirs fs d) \<Longrightarrow> below fs c p \<Longrightarrow> below fs d p"

inductive_cases below_cases: "below fs d p"

definition honest_types :: "file_system \<Rightarrow> bool" where
  "honest_types fs \<longleftrightarrow>
     (\<forall>p ents name t. fs_readdir fs p = Some ents \<longrightarrow> (name, t) \<in> set ents \<longrightarrow>
        name \<noteq> ''.'' \<longrightarrow> name \<noteq> ''..'' \<longrightarrow> t \<noteq> DT_UNKNOWN \<longrightarrow>
        (t = DT_DIR \<longleftrightarrow> is_dir fs (p @ ''/'' @ name)))"

definition finite_tree :: "file_system \<Rightarrow> (string \<Rightarrow> nat) \<Rightarrow> bool" where
  "finite_tree fs weight \<longleftrightarrow> (\<forall>p. sum_list (map weight (subdirs fs p)) < weight p)"

lemma child_dirs_subdirs:
  assumes "honest_types fs" and "fs_readdir fs p = Some ents"
  shows "child_dirs fs p ents = subdirs fs p"
proof -
  have dir: "is_dir fs (p @ CHR ''/'' # name)"
    if "(name, DT_DIR) \<in> set ents" "name \<noteq> ''.''" "name \<noteq> ''..''" for name
    using assms that unfolding honest_types_def by fastforce
  have not_dir: "t = DT_DIR \<or> t = DT_UNKNOWN"
    if "(name, t) \<in> set ents" "is_dir fs (p @ CHR ''/'' # name)" "name \<noteq> ''.''" "name \<noteq> ''..''" for name t
    using assms that unfolding honest_types_def by fastforce
  have "child_dirs fs p es = filter (is_dir fs)
      (map (\<lambda>n. p @ ''/'' @ n) (filter (\<lambda>n. n \<noteq> ''.'' \<and> n \<noteq> ''..'') (map fst es)))"
    if "set es \<subseteq> set ents" for es
    using that by (induction es) (auto simp: child_dirs_def dest: dir not_dir)
  then have "child_dirs fs p ents = filter (is_dir fs)
      (map (\<lambda>n. p @ ''/'' @ n) (filter (\<lambda>n. n \<noteq> ''.'' \<and> n \<noteq> ''..'') (map fst ents)))" by blast
  then show ?thesis using assms(2) by (simp only: subdirs_def option.case)
qed

lemma below_iff: "below fs d p \<longleftrightarrow> p = d \<or> (\<exists>c \<in> set (subdirs fs d). below fs c p)"
  by (auto intro: below.intros elim: below_cases)

lemma add_dir_frame [simp]:
  "r_root (add_dir fs offset p r) = r_root r" "r_grace_ns (add_dir fs offset p r) = r_grace_ns r"
  "r_stats (add_dir fs offset p r) = r_stats r"
  by (simp_all add: add_dir_def split: option.split)

definition visit :: "file_system \<Rightarrow> u64 \<Rightarrow> string \<Rightarrow> resolver \<Rightarrow> resolver" where
  "visit fs offset p r = (if p \<noteq> r_root r then add_dir fs offset p r else r)"

lemma add_subtree_loop_Nil: "add_subtree_loop fs offset [] r = Some r"
  by (simp add: add_subtree_loop.simps)

lemma add_subtree_loop_snoc:
  assumes "honest_types fs"
  shows "add_subtree_loop fs offset (stack @ [d]) r =
     add_subtree_loop fs offset (stack @ subdirs fs d) (visit fs offset d r)"
proof (cases "fs_readdir fs d")
  case None
  then have "subdirs fs d = []" by (simp add: subdirs_def)
  with None show ?thesis by (subst add_subtree_loop.simps) (simp add: visit_def Let_def)
next
  case (Some ents)
  then show ?thesis
    by (subst add_subtree_loop.simps) (simp add: child_dirs_subdirs [OF assms] visit_def Let_def)
qed

text \<open>The loop ends, having visited exactly the directories below those on its stack.\<close>

lemma add_subtree_loop_visits:
  assumes "finite_tree fs weight" and honest: "honest_types fs"
  shows "\<exists>ds. add_subtree_loop fs offset stack r = Some (fold (visit fs offset) ds r)
           \<and> set ds = {p. \<exists>d \<in> set stack. below fs d p}"
proof (induction "sum_list (map weight stack)" arbitrary: stack r rule: less_induct)
  case less
  show ?case
  proof (cases stack rule: rev_cases)
    case Nil
    then show ?thesis by (intro exI [of _ "[]"]) (simp add: add_subtree_loop_Nil)
  next
    case (snoc st d)
    from assms(1) have "sum_list (map weight (subdirs fs d)) < weight d"
      by (simp add: finite_tree_def)
    with snoc have "sum_list (map weight (st @ subdirs fs d)) < sum_list (map weight stack)"
      by simp
    from less [OF this, of "visit fs offset d r"] obtain ds where
      run: "add_subtree_loop fs offset (st @ subdirs fs d) (visit fs offset d r)
        = Some (fold (visit fs offset) ds (visit fs offset d r))"
      and ds: "set ds = {p. \<exists>d \<in> set (st @ subdirs fs d). below fs d p}" by blast
    have "set (d # ds) = {p. \<exists>d \<in> set stack. below fs d p}"
      unfolding snoc using ds below_iff [of fs d] by auto
    with run snoc show ?thesis
      by (intro exI [of _ "d # ds"]) (simp add: add_subtree_loop_snoc [OF honest])
  qed
qed

text \<open>What a directory contributes to the map.\<close>

definition dir_entry :: "file_system \<Rightarrow> u64 \<Rightarrow> string \<Rightarrow> (u64 \<times> entry) option" where
  "dir_entry fs offset p =
     (case fs_stat fs p of
        None \<Rightarrow> None
      | Some st \<Rightarrow> map_option (\<lambda>a. (st_ino st,
          \<lparr>e_attr = a, e_created_ns = created_from_ctime offset st, e_removed_ns = 0\<rparr>))
          (parse_cgroup_path p))"

lemma visit_entries:
  "r_entries (visit fs offset p r) =
     (if p = r_root r then r_entries r
      else case dir_entry fs offset p of None \<Rightarrow> r_entries r | Some (k, e) \<Rightarrow> (r_entries r)(k \<mapsto> e))"
  by (simp add: visit_def add_dir_def dir_entry_def split: option.split)

lemma visit_root [simp]: "r_root (visit fs offset p r) = r_root r"
  by (simp add: visit_def)

lemma fold_visit_root [simp]: "r_root (fold (visit fs offset) ds r) = r_root r"
  by (induction ds arbitrary: r) simp_all

lemma fold_visit_entries:
  assumes "r_entries (fold (visit fs offset) ds r) k = Some e"
  shows "r_entries r k = Some e
    \<or> (\<exists>p \<in> set ds. p \<noteq> r_root r \<and> dir_entry fs offset p = Some (k, e))"
  using assms
proof (induction ds arbitrary: r)
  case Nil
  then show ?case by simp
next
  case (Cons d ds)
  from Cons.IH [of "visit fs offset d r"] Cons.prems
  have "r_entries (visit fs offset d r) k = Some e
    \<or> (\<exists>p \<in> set ds. p \<noteq> r_root r \<and> dir_entry fs offset p = Some (k, e))" by simp
  then show ?case
    by (auto simp: visit_entries split: if_splits option.splits)
qed

lemma visit_entries_mono: "r_entries r k \<noteq> None \<Longrightarrow> r_entries (visit fs offset p r) k \<noteq> None"
  by (auto simp: visit_entries split: option.split)

lemma fold_visit_mono:
  "r_entries r k \<noteq> None \<Longrightarrow> r_entries (fold (visit fs offset) ds r) k \<noteq> None"
  by (induction ds arbitrary: r) (simp_all del: not_None_eq add: visit_entries_mono)

lemma fold_visit_complete:
  assumes "p \<in> set ds" and "p \<noteq> r_root r" and "dir_entry fs offset p = Some (k, e)"
  shows "r_entries (fold (visit fs offset) ds r) k \<noteq> None"
  using assms
proof (induction ds arbitrary: r)
  case Nil
  then show ?case by simp
next
  case (Cons d ds)
  show ?case
  proof (cases "p = d")
    case True
    with Cons.prems have "r_entries (visit fs offset d r) k \<noteq> None"
      by (simp add: visit_entries)
    then show ?thesis by (simp add: fold_visit_mono)
  next
    case False
    with Cons show ?thesis by simp
  qed
qed

text \<open>
  C20. The startup walk of a finite directory tree ends, whether or not \<^verbatim>\<open>readdir\<close> reports the
  types of the entries, and the map it builds is exact: an id gets an entry iff some job directory below the root (the root itself apart) has
  that inode number, and every entry is the one of such a directory.
\<close>

theorem resolver_start_complete:
  assumes "finite_tree fs weight" and "honest_types fs" and "is_dir fs dir"
  shows "\<exists>r. resolver_start fs offset (new_resolver dir grace) = Some (True, r)
    \<and> (\<forall>k. r_entries r k \<noteq> None \<longleftrightarrow>
          (\<exists>p e. below fs dir p \<and> p \<noteq> dir \<and> dir_entry fs offset p = Some (k, e)))
    \<and> (\<forall>k e. r_entries r k = Some e \<longrightarrow>
          (\<exists>p. below fs dir p \<and> p \<noteq> dir \<and> dir_entry fs offset p = Some (k, e)))"
proof -
  let ?init = "new_resolver dir grace"
  from add_subtree_loop_visits [OF assms(1,2), of offset "[dir]" ?init] obtain ds where
    run: "add_subtree fs offset dir ?init = Some (fold (visit fs offset) ds ?init)"
    and ds: "set ds = {p. below fs dir p}" by (auto simp: add_subtree_def)
  let ?r = "fold (visit fs offset) ds ?init"
  have sound: "\<exists>p. below fs dir p \<and> p \<noteq> dir \<and> dir_entry fs offset p = Some (k, e)"
    if "r_entries ?r k = Some e" for k e
    using fold_visit_entries [OF that] ds by (auto simp: new_resolver_def)
  have complete: "r_entries ?r k \<noteq> None"
    if "below fs dir p" "p \<noteq> dir" "dir_entry fs offset p = Some (k, e)" for k p e
  proof -
    from that ds have "p \<in> set ds" and "p \<noteq> r_root ?init" by (simp_all add: new_resolver_def)
    then show ?thesis using that(3) by (rule fold_visit_complete)
  qed
  from run assms(3) have "resolver_start fs offset ?init =
      Some (True, ?r\<lparr>r_stats := (r_stats ?r)\<lparr>rescans := rescans (r_stats ?r) + 1\<rparr>\<rparr>)"
    by (simp add: resolver_start_def resolver_scan_def new_resolver_def)
  with sound complete show ?thesis by (auto simp del: not_None_eq) blast+
qed

definition example_fs :: file_system where
  "example_fs =
     \<lparr>fs_stat = (\<lambda>p. if p = ''/c'' then Some \<lparr>st_ino = 1, st_ctim = \<lparr>tv_sec = 9, tv_nsec = 0\<rparr>, st_isdir = True\<rparr>
        else if p = ''/c/job_1'' then Some \<lparr>st_ino = 7, st_ctim = \<lparr>tv_sec = 9, tv_nsec = 5\<rparr>, st_isdir = True\<rparr>
        else None),
      fs_readdir = (\<lambda>p. if p = ''/c'' then Some [(''.'', DT_DIR), (''job_1'', DT_UNKNOWN), (''f'', DT_OTHER)]
        else None)\<rparr>"

lemma example_fs_subdirs: "subdirs example_fs p = (if p = ''/c'' then [''/c/job_1''] else [])"
  by (simp add: subdirs_def example_fs_def is_dir_def)

lemma example_tree:
  "finite_tree example_fs (\<lambda>p. if p = ''/c'' then 2 else 1)" "honest_types example_fs"
proof -
  show "finite_tree example_fs (\<lambda>p. if p = ''/c'' then 2 else 1)"
    by (simp add: finite_tree_def example_fs_subdirs)
  show "honest_types example_fs"
    by (auto simp: honest_types_def example_fs_def is_dir_def split: if_splits)
qed

lemma resolver_start_complete_witness:
  "\<exists>r. resolver_start example_fs 0 (new_resolver ''/c'' 30) = Some (True, r) \<and> r_entries r 7 \<noteq> None"
proof -
  note example_tree
  moreover have "is_dir example_fs ''/c''" by (simp add: is_dir_def example_fs_def)
  moreover have "below example_fs ''/c'' ''/c/job_1''"
    by (rule below_step [of "''/c/job_1''"]) (simp_all add: example_fs_subdirs below_refl)
  moreover have "parse_cgroup_path ''/c/job_1'' \<noteq> None" by code_simp
  then obtain e where "dir_entry example_fs 0 ''/c/job_1'' = Some (7, e)"
    by (auto simp: dir_entry_def example_fs_def)
  moreover have "''/c/job_1'' \<noteq> ''/c''" by simp
  ultimately show ?thesis
    using resolver_start_complete [of example_fs _ "''/c''" 0 30] by blast
qed

end
