(* ===== verification/Pipeline.thy ===== *)
theory Pipeline
  imports Resolver SinkQueue
begin

text \<open>
  \<^verbatim>\<open>core/pipeline/pipeline.cpp\<close>: enrichment, batching and fan-out. The sinks are known by
  address; what the pipeline does to them is the list of calls an operation returns, in
  order. The resolver, which the pipeline only borrows, is passed through. The user
  database is a function argument (\<^verbatim>\<open>getpwuid_r\<close>: the name, if there is an entry), the boot
  offset a number (see \<open>Clock\<close>).
\<close>

section \<open>State\<close>

type_synonym sink_ptr = nat

datatype sink_call = Sink_Write sink_ptr batch | Sink_Flush sink_ptr | Sink_Destroy sink_ptr

record pipeline_options =
  po_node :: string
  po_cluster :: string
  po_batch_size :: u64
  po_flush_interval :: int

record pipeline_stats =
  ps_records :: u64
  ps_unattributed :: u64

text \<open>\<open>pl_last_flush\<close> is a \<^verbatim>\<open>steady_clock\<close> time point, in nanoseconds.\<close>

record pipeline =
  pl_opt :: pipeline_options
  pl_sinks :: "sink_ptr list"
  pl_batch :: batch
  pl_last_flush :: int
  pl_user_cache :: "u32 \<rightharpoonup> string"
  pl_stats :: pipeline_stats

definition new_pipeline :: "pipeline_options \<Rightarrow> sink_ptr list \<Rightarrow> int \<Rightarrow> pipeline" where
  "new_pipeline opt sinks now =
     \<lparr>pl_opt = opt, pl_sinks = sinks, pl_batch = [], pl_last_flush = now,
      pl_user_cache = Map.empty, pl_stats = \<lparr>ps_records = 0, ps_unattributed = 0\<rparr>\<rparr>"

text \<open>
  The constructor: after the members it reserves room for a whole batch, which throws
  \<^verbatim>\<open>length_error\<close> beyond \<^verbatim>\<open>max_size()\<close> and \<^verbatim>\<open>bad_alloc\<close> when the allocator refuses. \<open>room\<close> is the
  number of records it grants. (\<^verbatim>\<open>ship\<close> reserves the same room again; that it is still there is
  taken for granted, like memory everywhere else in the model.)
\<close>

definition make_pipeline :: "nat \<Rightarrow> pipeline_options \<Rightarrow> sink_ptr list \<Rightarrow> int \<Rightarrow> pipeline option" where
  "make_pipeline room opt sinks now =
     (if room < unat (po_batch_size opt) then None else Some (new_pipeline opt sinks now))"

section \<open>Enrichment\<close>

text \<open>An entry without a name, and no entry, are both cached as the empty string.\<close>

definition lookup_user :: "(u32 \<Rightarrow> string option) \<Rightarrow> u32 \<Rightarrow> pipeline \<Rightarrow> string option \<times> pipeline" where
  "lookup_user pw uid p =
     (case pl_user_cache p uid of
        Some name \<Rightarrow> (if name = [] then None else Some name, p)
      | None \<Rightarrow>
          (let name = (case pw uid of None \<Rightarrow> [] | Some n \<Rightarrow> n) in
           (if name = [] then None else Some name,
            p\<lparr>pl_user_cache := (pl_user_cache p)(uid \<mapsto> name)\<rparr>)))"

definition set_user :: "(u32 \<Rightarrow> string option) \<Rightarrow> st_record \<Rightarrow> pipeline \<Rightarrow> st_record \<times> pipeline" where
  "set_user pw r p =
     (case rec_uid r of
        None \<Rightarrow> (r, p)
      | Some uid \<Rightarrow>
          (case lookup_user pw uid p of
             (None, p') \<Rightarrow> (r, p')
           | (Some user, p') \<Rightarrow> (r\<lparr>rec_user := Some user\<rparr>, p')))"

definition set_attribution :: "attribution \<Rightarrow> st_record \<Rightarrow> st_record" where
  "set_attribution a r =
     (let r' = r\<lparr>rec_job_id := Some (attr_job_id a)\<rparr>;
          r'' = (if attr_step_id a \<noteq> [] then r'\<lparr>rec_step_id := Some (attr_step_id a)\<rparr> else r')
      in r''\<lparr>rec_task_id := attr_task_id a\<rparr>)"

definition enrich ::
  "u64 \<Rightarrow> (u32 \<Rightarrow> string option) \<Rightarrow> st_record \<Rightarrow> pipeline \<Rightarrow> resolver \<Rightarrow> st_record \<times> pipeline \<times> resolver"
  where
  "enrich offset pw r p res =
     (let event_monotonic_ns = rec_ts_ns r;
          r1 = r\<lparr>rec_ts_ns := event_monotonic_ns + offset, rec_node := po_node (pl_opt p),
                 rec_cluster := po_cluster (pl_opt p)\<rparr>;
          (r2, p2) = set_user pw r1 p;
          (attr, res') = resolve (rec_cgroup_id r2) event_monotonic_ns res
      in case attr of
           Some a \<Rightarrow> (set_attribution a r2, p2, res')
         | None \<Rightarrow>
             (r2, p2\<lparr>pl_stats := (pl_stats p2)\<lparr>ps_unattributed := ps_unattributed (pl_stats p2) + 1\<rparr>\<rparr>,
              res'))"

section \<open>Batching and shipping\<close>

definition ship :: "pipeline \<Rightarrow> pipeline \<times> sink_call list" where
  "ship p =
     (if pl_batch p = [] then (p, [])
      else (p\<lparr>pl_batch := []\<rparr>, map (\<lambda>s. Sink_Write s (pl_batch p)) (pl_sinks p)))"

text \<open>\<open>add_record\<close> is the part of \<^verbatim>\<open>emit\<close> after the enrichment.\<close>

definition add_record :: "st_record \<Rightarrow> pipeline \<Rightarrow> pipeline \<times> sink_call list" where
  "add_record r p =
     (let p' = p\<lparr>pl_stats := (pl_stats p)\<lparr>ps_records := ps_records (pl_stats p) + 1\<rparr>,
                 pl_batch := pl_batch p @ [r]\<rparr>
      in if unat (po_batch_size (pl_opt p')) \<le> length (pl_batch p') then ship p' else (p', []))"

definition pipeline_emit ::
  "u64 \<Rightarrow> (u32 \<Rightarrow> string option) \<Rightarrow> st_record \<Rightarrow> pipeline \<Rightarrow> resolver
     \<Rightarrow> (pipeline \<times> sink_call list) \<times> resolver" where
  "pipeline_emit offset pw r p res =
     (let (r', p', res') = enrich offset pw r p res in (add_record r' p', res'))"

text \<open>
  The comparison converts the interval from milliseconds to the clock's nanoseconds, in
  64 bits.
\<close>

definition flush_due :: "int \<Rightarrow> pipeline \<Rightarrow> bool" where
  "flush_due now p \<longleftrightarrow> \<not> now - pl_last_flush p < s64 (po_flush_interval (pl_opt p) * 1000000)"

definition pipeline_tick :: "int \<Rightarrow> pipeline \<Rightarrow> pipeline \<times> sink_call list" where
  "pipeline_tick now p =
     (if \<not> flush_due now p then (p, [])
      else (let (p', calls) = ship p in (p'\<lparr>pl_last_flush := now\<rparr>, calls)))"

definition pipeline_flush :: "int \<Rightarrow> pipeline \<Rightarrow> pipeline \<times> sink_call list" where
  "pipeline_flush now p =
     (let (p', calls) = ship p in
      (p'\<lparr>pl_last_flush := now\<rparr>, calls @ map Sink_Flush (pl_sinks p')))"

definition set_sinks :: "sink_ptr list \<Rightarrow> pipeline \<Rightarrow> pipeline" where
  "set_sinks sinks p = p\<lparr>pl_sinks := sinks\<rparr>"

section \<open>Runs\<close>

text \<open>
  What the daemon's thread does to the pipeline, and to the resolver behind its back. Each
  emission comes with the user database as it is at that moment.
\<close>

datatype pipeline_event =
    Emit "u32 \<Rightarrow> string option" st_record
  | Tick int
  | Flush int
  | Resolver_Event cgroup_event

fun pipeline_step ::
  "u64 \<Rightarrow> pipeline_event \<Rightarrow> pipeline \<times> resolver \<Rightarrow> sink_call list \<times> (pipeline \<times> resolver)" where
  "pipeline_step offset (Emit pw r) (p, res) =
     (let ((p', calls), res') = pipeline_emit offset pw r p res in (calls, (p', res')))"
| "pipeline_step offset (Tick now) (p, res) =
     (let (p', calls) = pipeline_tick now p in (calls, (p', res)))"
| "pipeline_step offset (Flush now) (p, res) =
     (let (p', calls) = pipeline_flush now p in (calls, (p', res)))"
| "pipeline_step offset (Resolver_Event ev) (p, res) = ([], (p, resolver_step res ev))"

definition pipeline_run ::
  "u64 \<Rightarrow> pipeline_event list \<Rightarrow> pipeline \<times> resolver \<Rightarrow> sink_call list list \<times> (pipeline \<times> resolver)" where
  "pipeline_run offset = thread_list (pipeline_step offset)"

text \<open>The records a run puts into batches, enriched, in order.\<close>

fun step_record :: "u64 \<Rightarrow> pipeline_event \<Rightarrow> pipeline \<times> resolver \<Rightarrow> st_record list" where
  "step_record offset (Emit pw r) (p, res) = [fst (enrich offset pw r p res)]"
| "step_record offset _ _ = []"

fun run_records :: "u64 \<Rightarrow> pipeline_event list \<Rightarrow> pipeline \<times> resolver \<Rightarrow> st_record list" where
  "run_records offset [] s = []"
| "run_records offset (ev # evs) s =
     step_record offset ev s @ run_records offset evs (snd (pipeline_step offset ev s))"

text \<open>The batches a list of calls writes to one sink.\<close>

fun written_to :: "sink_ptr \<Rightarrow> sink_call list \<Rightarrow> batch list" where
  "written_to q [] = []"
| "written_to q (Sink_Write s b # cs) = (if s = q then [b] else []) @ written_to q cs"
| "written_to q (_ # cs) = written_to q cs"

lemma written_to_append [simp]: "written_to q (a @ b) = written_to q a @ written_to q b"
  by (induction q a rule: written_to.induct) auto

lemma written_to_flushes [simp]: "written_to q (map Sink_Flush ss) = []"
  by (induction ss) auto

lemma written_to_writes:
  "distinct ss \<Longrightarrow> written_to q (map (\<lambda>s. Sink_Write s b) ss) = (if q \<in> set ss then [b] else [])"
  by (induction ss) auto

section \<open>What each operation does to the batches\<close>

lemma lookup_user_frame [simp]:
  "pl_opt (snd (lookup_user pw uid p)) = pl_opt p" "pl_sinks (snd (lookup_user pw uid p)) = pl_sinks p"
  "pl_batch (snd (lookup_user pw uid p)) = pl_batch p"
  "pl_last_flush (snd (lookup_user pw uid p)) = pl_last_flush p"
  "pl_stats (snd (lookup_user pw uid p)) = pl_stats p"
  by (simp_all add: lookup_user_def Let_def split: option.split)

lemma set_user_eq:
  "set_user pw r p =
     (case rec_uid r of
        None \<Rightarrow> (r, p)
      | Some uid \<Rightarrow>
          ((case fst (lookup_user pw uid p) of None \<Rightarrow> r | Some user \<Rightarrow> r\<lparr>rec_user := Some user\<rparr>),
           snd (lookup_user pw uid p)))"
  by (simp add: set_user_def split: option.split prod.split)

lemma set_user_frame [simp]:
  "pl_opt (snd (set_user pw r p)) = pl_opt p" "pl_sinks (snd (set_user pw r p)) = pl_sinks p"
  "pl_batch (snd (set_user pw r p)) = pl_batch p"
  "pl_last_flush (snd (set_user pw r p)) = pl_last_flush p"
  "pl_stats (snd (set_user pw r p)) = pl_stats p"
  by (simp_all add: set_user_eq split: option.split)

lemma enrich_frame [simp]:
  "pl_opt (fst (snd (enrich offset pw r p res))) = pl_opt p"
  "pl_sinks (fst (snd (enrich offset pw r p res))) = pl_sinks p"
  "pl_batch (fst (snd (enrich offset pw r p res))) = pl_batch p"
  "pl_last_flush (fst (snd (enrich offset pw r p res))) = pl_last_flush p"
  "ps_records (pl_stats (fst (snd (enrich offset pw r p res)))) = ps_records (pl_stats p)"
  by (simp_all add: enrich_def Let_def split: option.split prod.split)
    (metis set_user_frame snd_conv)+

lemma ship_frame [simp]:
  "pl_opt (fst (ship p)) = pl_opt p" "pl_sinks (fst (ship p)) = pl_sinks p" "pl_batch (fst (ship p)) = []"
  by (simp_all add: ship_def)

text \<open>\<open>unfolded\<close> forms of the operations, without the pairs.\<close>

lemma pipeline_step_eq:
  "pipeline_step offset (Emit pw r) (p, res) =
     (snd (add_record (fst (enrich offset pw r p res)) (fst (snd (enrich offset pw r p res)))),
      (fst (add_record (fst (enrich offset pw r p res)) (fst (snd (enrich offset pw r p res)))),
       snd (snd (enrich offset pw r p res))))"
  "pipeline_step offset (Tick now) (p, res) =
     (if flush_due now p then (snd (ship p), ((fst (ship p))\<lparr>pl_last_flush := now\<rparr>, res)) else ([], (p, res)))"
  "pipeline_step offset (Flush now) (p, res) =
     (snd (ship p) @ map Sink_Flush (pl_sinks p), ((fst (ship p))\<lparr>pl_last_flush := now\<rparr>, res))"
  by (simp_all add: pipeline_emit_def pipeline_tick_def pipeline_flush_def split: prod.split)
    (metis fst_conv ship_frame(2))

lemma add_record_eq:
  "add_record r p =
     (let p' = p\<lparr>pl_stats := (pl_stats p)\<lparr>ps_records := ps_records (pl_stats p) + 1\<rparr>,
                 pl_batch := pl_batch p @ [r]\<rparr>
      in if length (pl_batch p) + 1 < unat (po_batch_size (pl_opt p)) then (p', []) else ship p')"
  by (auto simp: add_record_def Let_def)

lemma step_frame [simp]:
  "pl_opt (fst (snd (pipeline_step offset ev s))) = pl_opt (fst s)"
  "pl_sinks (fst (snd (pipeline_step offset ev s))) = pl_sinks (fst s)"
  by (cases s; cases ev; simp add: pipeline_step_eq add_record_eq Let_def del: pipeline_step.simps(1-3))+

text \<open>Nothing lost, duplicated or reordered.\<close>

lemma step_conserves:
  assumes "distinct (pl_sinks (fst s))" and "q \<in> set (pl_sinks (fst s))"
  shows "concat (written_to q (fst (pipeline_step offset ev s))) @ pl_batch (fst (snd (pipeline_step offset ev s)))
    = pl_batch (fst s) @ step_record offset ev s"
  using assms
  by (cases s; cases ev)
    (auto simp: pipeline_step_eq add_record_eq ship_def Let_def written_to_writes
      simp del: pipeline_step.simps(1-3))

text \<open>Batches are never empty and never larger than configured.\<close>

definition batch_limit :: "pipeline \<Rightarrow> nat" where
  "batch_limit p = max 1 (unat (po_batch_size (pl_opt p)))"

definition batch_ok :: "pipeline \<Rightarrow> bool" where
  "batch_ok p \<longleftrightarrow> length (pl_batch p) < batch_limit p"

lemma written_to_set: "b \<in> set (written_to q calls) \<longleftrightarrow> Sink_Write q b \<in> set calls"
  by (induction q calls rule: written_to.induct) auto

lemma step_bounds:
  assumes "batch_ok (fst s)"
  shows "batch_ok (fst (snd (pipeline_step offset ev s)))"
    and "Sink_Write q b \<in> set (fst (pipeline_step offset ev s))
      \<Longrightarrow> b \<noteq> [] \<and> length b \<le> batch_limit (fst s)"
  using assms
  by (cases s; cases ev; auto simp: pipeline_step_eq add_record_eq ship_def Let_def batch_ok_def
      batch_limit_def simp del: pipeline_step.simps(1-3) split: if_splits)+

section \<open>Properties\<close>

lemma run_conserves:
  "distinct (pl_sinks (fst s)) \<Longrightarrow> q \<in> set (pl_sinks (fst s)) \<Longrightarrow>
     concat (written_to q (concat (fst (pipeline_run offset evs s))))
         @ pl_batch (fst (snd (pipeline_run offset evs s)))
       = pl_batch (fst s) @ run_records offset evs s"
proof (induction evs arbitrary: s)
  case Nil
  then show ?case by (simp add: pipeline_run_def)
next
  case (Cons ev evs)
  have "concat (written_to q (concat (fst (pipeline_run offset evs (snd (pipeline_step offset ev s))))))
         @ pl_batch (fst (snd (pipeline_run offset evs (snd (pipeline_step offset ev s)))))
       = pl_batch (fst (snd (pipeline_step offset ev s)))
           @ run_records offset evs (snd (pipeline_step offset ev s))"
    by (rule Cons.IH) (use Cons.prems in simp_all)
  with step_conserves [OF Cons.prems, of offset ev] show ?case
    by (simp add: pipeline_run_def)
qed

text \<open>
  Conservation and order: over any sequence of emissions, ticks, flushes and cgroup
  events, the batches a sink is given, put end to end and followed by the pending batch,
  are exactly the enriched records in emission order. No record is lost, duplicated or
  reordered on its way through the pipeline, and every sink gets the same.
\<close>

lemma pipeline_conserves:
  assumes "distinct (pl_sinks p)" and "q \<in> set (pl_sinks p)"
    and "pipeline_run offset evs (p, res) = (calls, (p', res'))"
  shows "concat (written_to q (concat calls)) @ pl_batch p'
    = pl_batch p @ run_records offset evs (p, res)"
  using run_conserves [of "(p, res)" q offset evs] assms by simp

definition example_pipeline :: pipeline where
  "example_pipeline = new_pipeline \<lparr>po_node = ''n1'', po_cluster = ''c'', po_batch_size = 2,
     po_flush_interval = 1000\<rparr> [7, 8] 0"

lemma pipeline_conserves_witness:
  "let evs = [Emit (\<lambda>_. None) example_record, Tick 1, Emit (\<lambda>_. Some ''u'') bad_record, Flush 5];
       (calls, (p', _)) = pipeline_run 100 evs (example_pipeline, new_resolver [] 0)
   in concat (written_to 8 (concat calls)) @ pl_batch p'
        = run_records 100 evs (example_pipeline, new_resolver [] 0)
      \<and> length (concat (written_to 8 (concat calls))) = 2"
proof -
  let ?evs = "[Emit (\<lambda>_. None) example_record, Tick 1, Emit (\<lambda>_. Some ''u'') bad_record, Flush 5]"
  obtain calls p' res' where run: "pipeline_run 100 ?evs (example_pipeline, new_resolver [] 0)
      = (calls, (p', res'))" by (metis prod.exhaust)
  have d: "distinct (pl_sinks example_pipeline)" "8 \<in> set (pl_sinks example_pipeline)"
    by (simp_all add: example_pipeline_def new_pipeline_def)
  have "length (concat (written_to 8 (concat (fst (pipeline_run 100 ?evs
      (example_pipeline, new_resolver [] 0)))))) = 2"
    by code_simp
  with pipeline_conserves [OF d run] run show ?thesis
    by (simp add: example_pipeline_def new_pipeline_def)
qed

lemma run_bounds:
  "batch_ok (fst s) \<Longrightarrow>
     batch_ok (fst (snd (pipeline_run offset evs s)))
     \<and> (\<forall>q b. Sink_Write q b \<in> set (concat (fst (pipeline_run offset evs s)))
          \<longrightarrow> b \<noteq> [] \<and> length b \<le> batch_limit (fst s))"
proof (induction evs arbitrary: s)
  case Nil
  then show ?case by (simp add: pipeline_run_def)
next
  case (Cons ev evs)
  have same: "batch_limit (fst (snd (pipeline_step offset ev s))) = batch_limit (fst s)"
    by (simp add: batch_limit_def)
  from Cons.IH [OF step_bounds(1) [OF Cons.prems, of offset ev]] same
    step_bounds(2) [OF Cons.prems, of _ _ offset ev]
  show ?case by (auto simp: pipeline_run_def)
qed

text \<open>
  C26. The batch size is a bound: from its construction on, the pipeline never writes an
  empty batch nor one larger than \<^verbatim>\<open>batch_size\<close> (taken as 1 when it is 0), and what it holds
  back stays below that size and below the room it has reserved, whatever sinks it has, or none.
\<close>

theorem pipeline_batch_bounds:
  assumes "make_pipeline room opt sinks now = Some p"
    and "pipeline_run offset evs (p, res) = (calls, (p', res'))"
  shows "(\<forall>q b. Sink_Write q b \<in> set (concat calls) \<longrightarrow> b \<noteq> [] \<and> length b \<le> max 1 (unat (po_batch_size opt)))
    \<and> length (pl_batch p') < max 1 (unat (po_batch_size opt)) \<and> length (pl_batch p') \<le> room"
proof -
  from assms(1) have p: "p = new_pipeline opt sinks now" and room: "unat (po_batch_size opt) \<le> room"
    by (auto simp: make_pipeline_def split: if_splits)
  have "batch_ok (fst (p, res))" and "batch_limit p = max 1 (unat (po_batch_size opt))"
    by (simp_all add: p batch_ok_def batch_limit_def new_pipeline_def)
  moreover have "pl_opt p' = opt"
  proof -
    have "pl_opt (fst (snd (pipeline_run offset evs s))) = pl_opt (fst s)" for s
      by (induction evs arbitrary: s) (simp_all add: pipeline_run_def)
    from this [of "(p, res)"] assms(2) show ?thesis by (simp add: p new_pipeline_def)
  qed
  ultimately show ?thesis
    using run_bounds [of "(p, res)" offset evs] assms(2) room by (auto simp: batch_ok_def batch_limit_def)
qed

lemma pipeline_batch_bounds_witness:
  "\<exists>calls p' res'. pipeline_run 0 [Emit (\<lambda>_. None) example_record, Emit (\<lambda>_. None) example_record, Emit (\<lambda>_. None) example_record]
       (example_pipeline, new_resolver [] 0) = (calls, (p', res'))
     \<and> length (hd (written_to 7 (concat calls))) \<le> 2 \<and> length (pl_batch p') < 2"
proof -
  let ?evs = "[Emit (\<lambda>_. None) example_record, Emit (\<lambda>_. None) example_record, Emit (\<lambda>_. None) example_record]"
  obtain calls p' res' where run: "pipeline_run 0 ?evs (example_pipeline, new_resolver [] 0)
      = (calls, (p', res'))" by (metis prod.exhaust)
  have "written_to 7 (concat (fst (pipeline_run 0 ?evs (example_pipeline, new_resolver [] 0)))) \<noteq> []"
    by code_simp
  with run have "hd (written_to 7 (concat calls)) \<in> set (written_to 7 (concat calls))" by simp
  then have "Sink_Write 7 (hd (written_to 7 (concat calls))) \<in> set (concat calls)"
    by (simp only: written_to_set)
  moreover have "make_pipeline 2 \<lparr>po_node = ''n1'', po_cluster = ''c'', po_batch_size = 2,
      po_flush_interval = 1000\<rparr> [7, 8] 0 = Some example_pipeline"
    by (simp add: make_pipeline_def example_pipeline_def)
  ultimately show ?thesis using pipeline_batch_bounds [OF _ run] run by fastforce
qed

text \<open>
  Timeliness: a tick at or after the flush interval leaves nothing pending: what was
  pending is written to every sink in order, once, and the interval starts again; a tick
  before it does nothing at all.
\<close>

lemma pipeline_tick_ships:
  "pipeline_tick now p =
     (if now - pl_last_flush p \<ge> s64 (po_flush_interval (pl_opt p) * 1000000)
      then (p\<lparr>pl_batch := [], pl_last_flush := now\<rparr>,
            if pl_batch p = [] then [] else map (\<lambda>q. Sink_Write q (pl_batch p)) (pl_sinks p))
      else (p, []))"
  by (auto simp: pipeline_tick_def flush_due_def ship_def)

text \<open>
  Enrichment, field by field: the timestamp moves to wall clock while the attribution
  is looked up with the original one; node and cluster are the daemon's; user, job, step and
  task are set exactly when the lookups have an answer (a task id is reset by an attribution
  without one); every other field is the probe's; and the record is counted as unattributed
  exactly when it got no job.
\<close>

lemma enrich_spec:
  "case enrich offset pw r p res of (r', p', res') \<Rightarrow>
     r' = r\<lparr>rec_ts_ns := rec_ts_ns r + offset,
       rec_node := po_node (pl_opt p), rec_cluster := po_cluster (pl_opt p),
       rec_user := (case Option.bind (rec_uid r) (\<lambda>uid. fst (lookup_user pw uid p)) of
          None \<Rightarrow> rec_user r | Some name \<Rightarrow> Some name),
       rec_job_id := (case lookup_attr res (rec_cgroup_id r) (rec_ts_ns r) of
          None \<Rightarrow> rec_job_id r | Some a \<Rightarrow> Some (attr_job_id a)),
       rec_step_id := (case lookup_attr res (rec_cgroup_id r) (rec_ts_ns r) of
          None \<Rightarrow> rec_step_id r
        | Some a \<Rightarrow> if attr_step_id a = [] then rec_step_id r else Some (attr_step_id a)),
       rec_task_id := (case lookup_attr res (rec_cgroup_id r) (rec_ts_ns r) of
          None \<Rightarrow> rec_task_id r | Some a \<Rightarrow> attr_task_id a)\<rparr>
     \<and> ps_unattributed (pl_stats p') = ps_unattributed (pl_stats p)
          + of_bool (lookup_attr res (rec_cgroup_id r) (rec_ts_ns r) = None)
     \<and> lookup_attr res' = lookup_attr res"
proof -
  define L where "L = lookup_attr res (rec_cgroup_id r) (rec_ts_ns r)"
  obtain res' where ans: "resolve (rec_cgroup_id r) (rec_ts_ns r) res = (L, res')"
    using res.query_answer [of "rec_cgroup_id r" "rec_ts_ns r" res] unfolding L_def
    by (metis prod.collapse)
  have frame: "lookup_attr res' = lookup_attr res"
    using res.query_frame [of "rec_cgroup_id r" "rec_ts_ns r" res] ans by simp
  define U where "U = Option.bind (rec_uid r) (\<lambda>uid. fst (lookup_user pw uid p))"
  have user: "set_user pw q p = ((case U of None \<Rightarrow> q | Some user \<Rightarrow> q\<lparr>rec_user := Some user\<rparr>),
      snd (set_user pw q p))" if "rec_uid q = rec_uid r" for q
    using that by (simp add: set_user_eq U_def split: option.split)
  define q where "q = r\<lparr>rec_ts_ns := rec_ts_ns r + offset, rec_node := po_node (pl_opt p),
                 rec_cluster := po_cluster (pl_opt p)\<rparr>"
  have q: "rec_uid q = rec_uid r" by (simp add: q_def)
  define p2 where "p2 = snd (set_user pw q p)"
  have p2: "pl_stats p2 = pl_stats p" by (simp add: p2_def)
  have step: "set_user pw q p = ((case U of None \<Rightarrow> q | Some user \<Rightarrow> q\<lparr>rec_user := Some user\<rparr>), p2)"
    unfolding p2_def by (rule user [OF q])
  have "rec_cgroup_id (case U of None \<Rightarrow> q | Some user \<Rightarrow> q\<lparr>rec_user := Some user\<rparr>) = rec_cgroup_id r"
    by (simp add: q_def split: option.split)
  then have "enrich offset pw r p res =
      (case L of
         Some a \<Rightarrow> (set_attribution a (case U of None \<Rightarrow> q | Some user \<Rightarrow> q\<lparr>rec_user := Some user\<rparr>), p2, res')
       | None \<Rightarrow> ((case U of None \<Rightarrow> q | Some user \<Rightarrow> q\<lparr>rec_user := Some user\<rparr>),
             p2\<lparr>pl_stats := (pl_stats p2)\<lparr>ps_unattributed := ps_unattributed (pl_stats p2) + 1\<rparr>\<rparr>, res'))"
    by (simp add: enrich_def Let_def step ans flip: q_def)
  then show ?thesis
    unfolding L_def [symmetric] U_def [symmetric]
    by (cases L; cases U) (simp_all add: frame p2 set_attribution_def Let_def q_def)
qed

text \<open>
  One question per user: once a uid has been looked up, every later lookup gives the
  same answer, whatever was looked up in between and however the user database changes; a
  uid without an entry is remembered as well.
\<close>

lemma user_looked_up_once:
  "fst (lookup_user pw' uid
      (snd (thread_list (\<lambda>(pw, u). lookup_user pw u) reqs (snd (lookup_user pw uid p)))))
    = fst (lookup_user pw uid p)"
proof -
  define ans where "ans = (\<lambda>name :: string. if name = [] then None else Some name)"
  have first: "\<exists>name. pl_user_cache (snd (lookup_user pw uid p)) uid = Some name
      \<and> fst (lookup_user pw uid p) = ans name"
    by (auto simp: lookup_user_def Let_def ans_def split: option.split)
  have keep: "pl_user_cache (snd (thread_list (\<lambda>(pw, u). lookup_user pw u) reqs q)) uid = Some name"
    if "pl_user_cache q uid = Some name" for q name
    using that
  proof (induction reqs arbitrary: q)
    case (Cons req reqs)
    have "pl_user_cache (snd (lookup_user (fst req) (snd req) q)) uid = Some name"
      using Cons.prems by (auto simp: lookup_user_def Let_def split: option.split)
    with Cons.IH show ?case by (simp add: case_prod_beta)
  qed simp
  from first obtain name where n: "pl_user_cache (snd (lookup_user pw uid p)) uid = Some name"
    "fst (lookup_user pw uid p) = ans name" by blast
  have "fst (lookup_user pw' uid q) = ans name" if "pl_user_cache q uid = Some name" for q
    using that by (simp add: lookup_user_def ans_def)
  with keep [OF n(1)] n(2) show ?thesis by metis
qed

end
