(* ===== verification/Watcher.thy ===== *)
theory Watcher
  imports Wire Resolver
begin

text \<open>
  The cgroup watcher: \<^verbatim>\<open>cgroup_watcher.bpf.c\<close> (what the kernel side puts into the ring
  buffer on mkdir and rmdir), \<^verbatim>\<open>cgroup_watcher_events.h\<close> (the struct),
  \<^verbatim>\<open>core/attribution/translate.cpp\<close> and \<^verbatim>\<open>cgroup_watcher.cpp\<close> (the handler that feeds
  the resolver). The kernel helpers are arguments: the clock, the kernfs id, the old
  contents of the reserved ring-buffer record, whether the reservation succeeds.
\<close>

section \<open>The event\<close>

definition ST_CGROUP_PATH_LEN :: nat where "ST_CGROUP_PATH_LEN = 256"

definition ST_CGROUP_EVENT_CREATE :: u32 where "ST_CGROUP_EVENT_CREATE = 1"
definition ST_CGROUP_EVENT_REMOVE :: u32 where "ST_CGROUP_EVENT_REMOVE = 2"

record st_cgroup_event =
  ce_hdr :: st_event_hdr
  ce_path :: string

definition cgroup_event_size :: nat where
  "cgroup_event_size = hdr_size + ST_CGROUP_PATH_LEN"

definition cgroup_event_valid :: "st_cgroup_event \<Rightarrow> bool" where
  "cgroup_event_valid e \<longleftrightarrow> length (ce_path e) = ST_CGROUP_PATH_LEN"

definition encode_cgroup_event :: "st_cgroup_event \<Rightarrow> u8 list" where
  "encode_cgroup_event e = encode_hdr (ce_hdr e) @ put_chars (ce_path e)"

definition decode_cgroup_event :: "u8 list \<Rightarrow> st_cgroup_event" where
  "decode_cgroup_event bs =
     \<lparr>ce_hdr = decode_hdr bs, ce_path = chars_at bs hdr_size ST_CGROUP_PATH_LEN\<rparr>"

interpretation cgroup_wire:
  wire_format cgroup_event_size encode_cgroup_event decode_cgroup_event cgroup_event_valid
  by unfold_locales
    (simp_all add: encode_cgroup_event_def decode_cgroup_event_def cgroup_event_valid_def
      cgroup_event_size_def chars_at_put)

section \<open>Kernel side\<close>

text \<open>
  \<^verbatim>\<open>emit\<close> for a tracepoint hit at time \<open>now\<close> on the cgroup \<open>kn_id\<close>. \<open>old\<close> is what the
  reserved record held; \<^const>\<open>None\<close> as a path is the null pointer, as a result a failed
  reservation (nothing is submitted).
\<close>

definition watcher_emit ::
  "u32 \<Rightarrow> bool \<Rightarrow> string \<Rightarrow> u64 \<Rightarrow> u64 \<Rightarrow> string option \<Rightarrow> st_cgroup_event option" where
  "watcher_emit type reserved old now kn_id path =
     (if \<not> reserved then None
      else Some
        \<lparr>ce_hdr = \<lparr>hdr_ts_ns = now, hdr_cgroup_id = kn_id, hdr_type = type,
           hdr_pid = 0, hdr_tid = 0, hdr_uid = 0\<rparr>,
         ce_path = (case path of
             Some p \<Rightarrow> probe_read_str old ST_CGROUP_PATH_LEN p
           | None \<Rightarrow> NUL # drop 1 old)\<rparr>)"

definition on_mkdir :: "bool \<Rightarrow> string \<Rightarrow> u64 \<Rightarrow> u64 \<Rightarrow> string option \<Rightarrow> st_cgroup_event option" where
  "on_mkdir = watcher_emit ST_CGROUP_EVENT_CREATE"

definition on_rmdir :: "bool \<Rightarrow> string \<Rightarrow> u64 \<Rightarrow> u64 \<Rightarrow> string option \<Rightarrow> st_cgroup_event option" where
  "on_rmdir = watcher_emit ST_CGROUP_EVENT_REMOVE"

section \<open>Userspace side\<close>

record cgroup_update =
  upd_created :: bool
  upd_cgroup_id :: u64
  upd_ts_ns :: u64
  upd_path :: string

definition translate_cgroup :: "st_cgroup_event \<Rightarrow> cgroup_update option" where
  "translate_cgroup e =
     (let h = ce_hdr e;
          out = (\<lambda>created. \<lparr>upd_created = created, upd_cgroup_id = hdr_cgroup_id h,
                   upd_ts_ns = hdr_ts_ns h, upd_path = c_string (ce_path e) ST_CGROUP_PATH_LEN\<rparr>)
      in if hdr_type h = ST_CGROUP_EVENT_CREATE then Some (out True)
         else if hdr_type h = ST_CGROUP_EVENT_REMOVE then Some (out False)
         else None)"

definition watcher_on_event :: "u8 list \<Rightarrow> resolver \<Rightarrow> resolver" where
  "watcher_on_event data r =
     (case handle_event cgroup_event_size decode_cgroup_event translate_cgroup data of
        None \<Rightarrow> r
      | Some u \<Rightarrow>
          if upd_created u then on_created (upd_cgroup_id u) (upd_path u) (upd_ts_ns u) r
          else on_removed (upd_cgroup_id u) (upd_ts_ns u) r)"

section \<open>From the tracepoint to the resolver\<close>

lemma watcher_emit_valid:
  "watcher_emit ty True old now k p = Some e \<Longrightarrow> length old = ST_CGROUP_PATH_LEN \<Longrightarrow>
     cgroup_event_valid e"
  by (auto simp: watcher_emit_def cgroup_event_valid_def ST_CGROUP_PATH_LEN_def
      probe_read_str_length split: option.split)

lemma type_codes [simp]: "ST_CGROUP_EVENT_REMOVE \<noteq> ST_CGROUP_EVENT_CREATE"
  by (simp add: ST_CGROUP_EVENT_CREATE_def ST_CGROUP_EVENT_REMOVE_def)

lemmas watcher_simps =
  watcher_on_event_def translate_cgroup_def on_mkdir_def on_rmdir_def watcher_emit_def

lemma mkdir_reaches_resolver:
  assumes "on_mkdir True old now k (Some path) = Some e"
    and "length old = ST_CGROUP_PATH_LEN" and "NUL \<notin> set path"
  shows "watcher_on_event (encode_cgroup_event e @ rest) r = on_created k (take 255 path) now r"
proof -
  from assms(1,2) have "cgroup_event_valid e"
    unfolding on_mkdir_def by (rule watcher_emit_valid)
  then have "handle_event cgroup_event_size decode_cgroup_event translate_cgroup
      (encode_cgroup_event e @ rest) = translate_cgroup e"
    by (rule cgroup_wire.handle_encoded)
  moreover have "takeWhile (\<lambda>c. c \<noteq> NUL) path = path"
    using assms(3) by (auto simp: takeWhile_eq_all_conv)
  then have "c_string (probe_read_str old ST_CGROUP_PATH_LEN path) ST_CGROUP_PATH_LEN = take 255 path"
    using assms(2) c_string_probe_read_str [of 256 old path]
    by (simp add: ST_CGROUP_PATH_LEN_def del: takeWhile_eq_all_conv)
  ultimately show ?thesis
    using assms(1) by (auto simp: watcher_simps)
qed

text \<open>
  A directory creation reaches the resolver as exactly one \<^verbatim>\<open>on_created\<close> call with
  the kernel's id, the kernel's timestamp and the path up to 255 characters, whatever the
  ring-buffer record held before and whatever follows it in the buffer.
\<close>

lemma watcher_mkdir_delivered:
  assumes "on_mkdir True old now k (Some path) = Some e"
    and "length old = ST_CGROUP_PATH_LEN" and "NUL \<notin> set path"
  shows "watcher_on_event (encode_cgroup_event e @ rest) r = on_created k (take 255 path) now r"
  using assms by (rule mkdir_reaches_resolver)

lemma watcher_mkdir_delivered_witness:
  "watcher_on_event (encode_cgroup_event
      (the (on_mkdir True (replicate 256 CHR ''x'') 10 5 (Some ''/job_1'')))) (new_resolver [] 1) =
   on_created 5 ''/job_1'' 10 (new_resolver [] 1)"
proof -
  let ?old = "replicate 256 CHR ''x''"
  have "on_mkdir True ?old 10 5 (Some ''/job_1'') = Some (the (on_mkdir True ?old 10 5 (Some ''/job_1'')))"
    by (simp add: on_mkdir_def watcher_emit_def)
  from watcher_mkdir_delivered [OF this, of "[]" "new_resolver [] 1"]
  show ?thesis by (simp add: ST_CGROUP_PATH_LEN_def NUL_def)
qed

lemma watcher_rmdir_delivered:
  assumes "on_rmdir True old now k p = Some e" and "length old = ST_CGROUP_PATH_LEN"
  shows "watcher_on_event (encode_cgroup_event e @ rest) r = on_removed k now r"
proof -
  from assms have "cgroup_event_valid e"
    unfolding on_rmdir_def by (rule watcher_emit_valid)
  then have "handle_event cgroup_event_size decode_cgroup_event translate_cgroup
      (encode_cgroup_event e @ rest) = translate_cgroup e"
    by (rule cgroup_wire.handle_encoded)
  with assms(1) show ?thesis by (auto simp: watcher_simps)
qed

lemma watcher_drops_short: "length data < cgroup_event_size \<Longrightarrow> watcher_on_event data r = r"
  by (simp add: watcher_on_event_def cgroup_wire.handle_short)

text \<open>
  Robustness of the handler: bytes that are too short for the struct or carry an
  unknown type leave the resolver unchanged, and no input at all touches its counters.
\<close>

lemma watcher_on_event_robust:
  "(length data < cgroup_event_size
      \<or> hdr_type (decode_hdr data) \<notin> {ST_CGROUP_EVENT_CREATE, ST_CGROUP_EVENT_REMOVE}
      \<longrightarrow> watcher_on_event data r = r)
   \<and> r_stats (watcher_on_event data r) = r_stats r"
  by (auto simp: watcher_on_event_def handle_event_def translate_cgroup_def Let_def
      decode_cgroup_event_def on_created_def on_removed_def split: option.split)

lemma watcher_on_event_robust_witness:
  "watcher_on_event (replicate 287 0) (new_resolver [] 1) = new_resolver [] 1"
proof -
  have "length (replicate 287 (0 :: u8)) < cgroup_event_size"
    by (simp add: cgroup_event_size_def hdr_size_def ST_CGROUP_PATH_LEN_def)
  with watcher_on_event_robust [of "replicate 287 0" "new_resolver [] 1"] show ?thesis by blast
qed

text \<open>
  A path that fills the buffer is cut at 255 characters, and the cut can fall inside the
  job number: the resolver then files the cgroup under another job.
\<close>

lemma long_path_other_job:
  "parse_cgroup_path (take 255 (CHR ''/'' # replicate 248 CHR ''a'' @ ''/job_12/step_0''))
     = Some \<lparr>attr_job_id = 1, attr_step_id = [], attr_task_id = None\<rparr>
   \<and> parse_cgroup_path (CHR ''/'' # replicate 248 CHR ''a'' @ ''/job_12/step_0'')
     = Some \<lparr>attr_job_id = 12, attr_step_id = ''0'', attr_task_id = None\<rparr>"
  unfolding parse_cgroup_path_def split_path_segments by code_simp

end
