(* ===== verification/ConfigFile.thy ===== *)
theory ConfigFile
  imports Config Records
begin

text \<open>
  \<^verbatim>\<open>core/config/config_file.cpp\<close>: from a parsed JSON document to a configuration. The JSON
  library is an argument: \<open>parse\<close> (a value, the message of a \<^verbatim>\<open>parse_error\<close>, or another of its
  exceptions, as \<^verbatim>\<open>out_of_range\<close> for a number no double can hold), \<open>dump\<close>, the text of a floating-point number, and the message of a type error. A parsed
  object is a \<^verbatim>\<open>std::map\<close>, so its members come sorted by key, each once.
\<close>

datatype json_parsed = Parsed json | Parse_Error string | Parse_Throws

record json_lib =
  lib_parse :: "string \<Rightarrow> json_parsed"
  lib_dump :: "json \<Rightarrow> string"
  lib_float :: "real \<Rightarrow> string"
  lib_type_error :: "json \<Rightarrow> string"

section \<open>Leaves\<close>

definition one_shot :: "string \<Rightarrow> component_config" where
  "one_shot value = cc_set ''v'' value []"

text \<open>An unsigned number is read as \<^verbatim>\<open>int64_t\<close>, which wraps above \<open>2 ^ 63\<close>.\<close>

fun stringify :: "json_lib \<Rightarrow> json \<Rightarrow> string" where
  "stringify lib (JString s) = s"
| "stringify lib (JBool b) = (if b then ''true'' else ''false'')"
| "stringify lib (JInt i) = dec_of_int (s64 i)"
| "stringify lib (JUnsigned n) = dec_of_int (s64 (int n))"
| "stringify lib (JFloat x) = lib_float lib x"
| "stringify lib v = lib_dump lib v"

text \<open>\<^verbatim>\<open>v.get<std::string>()\<close>, which throws on anything that is not a string.\<close>

fun json_get_string :: "json_lib \<Rightarrow> json \<Rightarrow> string + string" where
  "json_get_string lib (JString s) = Inr s"
| "json_get_string lib v = Inl (lib_type_error lib v)"

fun json_is_object :: "json \<Rightarrow> bool" where
  "json_is_object (JObject _) = True"
| "json_is_object _ = False"

section \<open>Sections\<close>

definition drop_disabled ::
  "(string, component_config) std_map \<Rightarrow> (string, component_config) std_map" where
  "drop_disabled components = filter (\<lambda>(_, c). get_bool c ''enabled'' True) components"

definition load_component :: "json_lib \<Rightarrow> (string \<times> json) list \<Rightarrow> component_config \<Rightarrow> component_config" where
  "load_component lib members c = foldl (\<lambda>c (key, v). cc_set key (stringify lib v) c) c members"

text \<open>
  The loop of \<^verbatim>\<open>load_components\<close>; \<^verbatim>\<open>components[name]\<close> default-constructs an absent entry.
\<close>

fun load_components ::
  "json_lib \<Rightarrow> string \<Rightarrow> (string \<times> json) list \<Rightarrow> (string, component_config) std_map \<Rightarrow>
     string + (string, component_config) std_map" where
  "load_components lib section_name [] components = Inr components"
| "load_components lib section_name ((name, value) # items) components =
     (if \<not> json_is_object value
      then Inl (CHR 0x22 # section_name @ ''.'' @ name @ CHR 0x22 # '' must be an object'')
      else let c = (case map_find components name of None \<Rightarrow> [] | Some c \<Rightarrow> c) in
        load_components lib section_name items
          (map_set name (load_component lib (json_members value) c) components))"

text \<open>
  What a handler of \<^verbatim>\<open>load_object\<close> may do with a key: throw, refuse it, or update the
  configuration.
\<close>

datatype handled = Thrown string | Refused | Handled config

fun load_object_items ::
  "(string \<Rightarrow> json \<Rightarrow> config \<Rightarrow> handled) \<Rightarrow> string \<Rightarrow> (string \<times> json) list \<Rightarrow> config \<Rightarrow>
     string + config" where
  "load_object_items handler section_name [] config = Inr config"
| "load_object_items handler section_name ((key, v) # items) config =
     (case handler key v config of
        Thrown what \<Rightarrow> Inl what
      | Refused \<Rightarrow> Inl (''unknown key '' @ CHR 0x22 # key @ CHR 0x22 # '' in '' @
          CHR 0x22 # section_name @ [CHR 0x22])
      | Handled config' \<Rightarrow> load_object_items handler section_name items config')"

definition load_object ::
  "(string \<Rightarrow> json \<Rightarrow> config \<Rightarrow> handled) \<Rightarrow> string \<Rightarrow> json \<Rightarrow> config \<Rightarrow> string + config" where
  "load_object handler section_name section config =
     (if \<not> json_is_object section
      then Inl (CHR 0x22 # section_name @ CHR 0x22 # '' must be an object'')
      else load_object_items handler section_name (json_members section) config)"

text \<open>An assignment from a value that must be a string.\<close>

definition assign_string :: "json_lib \<Rightarrow> json \<Rightarrow> (string \<Rightarrow> config) \<Rightarrow> handled" where
  "assign_string lib v f =
     (case json_get_string lib v of Inl what \<Rightarrow> Thrown what | Inr s \<Rightarrow> Handled (f s))"

definition node_handler :: "json_lib \<Rightarrow> string \<Rightarrow> json \<Rightarrow> config \<Rightarrow> handled" where
  "node_handler lib key v c =
     (if key = ''cluster'' then assign_string lib v (\<lambda>s. c\<lparr>cfg_cluster := s\<rparr>)
      else if key = ''node'' then assign_string lib v (\<lambda>s. c\<lparr>cfg_node := s\<rparr>)
      else if key = ''plugin_dir'' then assign_string lib v (\<lambda>s. c\<lparr>cfg_plugin_dir := s\<rparr>)
      else if key = ''batch_size''
      then Handled (c\<lparr>cfg_batch_size := get_uint (one_shot (stringify lib v)) ''v'' (cfg_batch_size c)\<rparr>)
      else if key = ''flush_interval''
      then Handled (c\<lparr>cfg_flush_interval :=
             get_duration (one_shot (stringify lib v)) ''v'' (cfg_flush_interval c)\<rparr>)
      else if key = ''verbose''
      then Handled (c\<lparr>cfg_verbose := get_bool (one_shot (stringify lib v)) ''v'' (cfg_verbose c)\<rparr>)
      else Refused)"

definition slurm_handler :: "json_lib \<Rightarrow> string \<Rightarrow> json \<Rightarrow> config \<Rightarrow> handled" where
  "slurm_handler lib key v c =
     (if key = ''cgroup_root'' then assign_string lib v (\<lambda>s. c\<lparr>cfg_cgroup_root := s\<rparr>) else Refused)"

text \<open>One top-level member.\<close>

definition load_section :: "json_lib \<Rightarrow> string \<Rightarrow> json \<Rightarrow> config \<Rightarrow> string + config" where
  "load_section lib sect value c =
     (if sect = ''node'' then load_object (node_handler lib) ''node'' value c
      else if sect = ''slurm'' then load_object (slurm_handler lib) ''slurm'' value c
      else if sect = ''probes''
      then (if \<not> json_is_object value then Inl (CHR 0x22 # ''probes'' @ CHR 0x22 # '' must be an object'')
            else map_sum id (\<lambda>m. c\<lparr>cfg_probes := m\<rparr>)
              (load_components lib ''probes'' (json_members value) (cfg_probes c)))
      else if sect = ''sinks''
      then (if \<not> json_is_object value then Inl (CHR 0x22 # ''sinks'' @ CHR 0x22 # '' must be an object'')
            else map_sum id (\<lambda>m. c\<lparr>cfg_sinks := m\<rparr>)
              (load_components lib ''sinks'' (json_members value) (cfg_sinks c)))
      else Inl (''unknown top-level key '' @ CHR 0x22 # sect @ [CHR 0x22]))"

fun load_sections :: "json_lib \<Rightarrow> (string \<times> json) list \<Rightarrow> config \<Rightarrow> string + config" where
  "load_sections lib [] c = Inr c"
| "load_sections lib ((sect, value) # items) c =
     (case load_section lib sect value c of
        Inl err \<Rightarrow> Inl err
      | Inr c' \<Rightarrow> load_sections lib items c')"

text \<open>
  \<open>content\<close> is \<^const>\<open>None\<close> when the file cannot be opened. \<^const>\<open>Inl\<close> carries the error text.
  Only \<^verbatim>\<open>parse_error\<close> is caught around \<^verbatim>\<open>parse\<close>; any other exception leaves the function, which
  is \<^const>\<open>None\<close>: nothing above catches it, so the process ends.
\<close>

definition load_config_file :: "json_lib \<Rightarrow> string \<Rightarrow> string option \<Rightarrow> (string + config) option" where
  "load_config_file lib path content =
     (case content of
        None \<Rightarrow> Some (Inl (''cannot open '' @ path))
      | Some raw \<Rightarrow>
          (case lib_parse lib raw of
             Parse_Error what \<Rightarrow> Some (Inl (path @ '': '' @ what))
           | Parse_Throws \<Rightarrow> None
           | Parsed doc \<Rightarrow>
               if \<not> json_is_object doc then Some (Inl (path @ '': top level must be an object''))
               else (case load_sections lib (json_members doc) default_config of
                   Inl err \<Rightarrow> Some (Inl (path @ '': '' @ err))
                 | Inr c \<Rightarrow> Some (Inr (c\<lparr>cfg_probes := drop_disabled (cfg_probes c),
                     cfg_sinks := drop_disabled (cfg_sinks c)\<rparr>)))))"

section \<open>What the component sections yield\<close>

lemma load_component_append:
  "load_component lib ms c = fold (\<lambda>(k, v) m. map_set k v m) (map (\<lambda>(k, v). (k, stringify lib v)) ms) c"
  unfolding load_component_def by (induction ms arbitrary: c) (auto simp: cc_set_def)

lemma map_find_load_component:
  "map_find (load_component lib ms []) key = map_option (stringify lib) (map_of (rev ms) key)"
proof -
  have "map_find (load_component lib ms []) = map_of (rev (map (\<lambda>(k, v). (k, stringify lib v)) ms))"
    by (simp add: load_component_append smap.find_fold_put)
  then show ?thesis by (simp add: rev_map map_of_map)
qed

lemma load_components_find:
  assumes "load_components lib n items m = Inr m'" and "distinct (map fst items)"
    and "\<forall>k \<in> fst ` set items. map_find m k = None"
  shows "map_find m' k = (case map_of items k of
      Some v \<Rightarrow> Some (load_component lib (json_members v) []) | None \<Rightarrow> map_find m k)
    \<and> (\<forall>(k, v) \<in> set items. json_is_object v)"
  using assms
proof (induction items arbitrary: m)
  case Nil
  then show ?case by simp
next
  case (Cons item items)
  obtain name v where item: "item = (name, v)" by (cases item)
  with Cons.prems have obj: "json_is_object v" and absent: "map_find m name = None"
    and fresh: "name \<notin> fst ` set items"
    by (auto split: if_splits)
  let ?m = "map_set name (load_component lib (json_members v) []) m"
  from Cons.prems(1) obj absent item have run: "load_components lib n items ?m = Inr m'" by simp
  moreover have "\<forall>k \<in> fst ` set items. map_find ?m k = None"
    using Cons.prems(3) fresh item by (auto simp: map_simps)
  ultimately have IH: "map_find m' k = (case map_of items k of
      Some v \<Rightarrow> Some (load_component lib (json_members v) []) | None \<Rightarrow> map_find ?m k)
    \<and> (\<forall>(k, v) \<in> set items. json_is_object v)"
    using Cons.prems(2) item by (intro Cons.IH) auto
  have "map_of items name = None" using fresh by (simp add: map_of_eq_None_iff)
  with IH obj item show ?case by (auto simp: map_simps split: option.split)
qed

lemma load_components_ok:
  "load_components lib n items m = Inr m' \<Longrightarrow> map_ok m \<Longrightarrow> map_ok m'"
proof (induction items arbitrary: m)
  case (Cons item items)
  then show ?case
    by (cases item) (auto simp: Let_def map_ok_set split: if_splits)
qed simp

lemma handler_frame:
  "node_handler lib key v c = Handled c' \<Longrightarrow> cfg_probes c' = cfg_probes c \<and> cfg_sinks c' = cfg_sinks c"
  "slurm_handler lib key v c = Handled c' \<Longrightarrow> cfg_probes c' = cfg_probes c \<and> cfg_sinks c' = cfg_sinks c"
  by (auto simp: node_handler_def slurm_handler_def assign_string_def split: if_splits sum.splits)

lemma load_object_items_frame:
  assumes "\<And>key v c c'. handler key v c = Handled c' \<Longrightarrow>
      cfg_probes c' = cfg_probes c \<and> cfg_sinks c' = cfg_sinks c"
    and "load_object_items handler n items c = Inr c'"
  shows "cfg_probes c' = cfg_probes c \<and> cfg_sinks c' = cfg_sinks c"
  using assms(2)
proof (induction items arbitrary: c)
  case (Cons item items)
  then show ?case by (cases item) (auto dest: assms(1) split: handled.splits)
qed simp

lemma load_section_probes:
  assumes "load_section lib sect v c = Inr c'"
  shows "sect \<noteq> ''probes'' \<Longrightarrow> cfg_probes c' = cfg_probes c"
    and "sect = ''probes'' \<Longrightarrow> json_is_object v
      \<and> load_components lib ''probes'' (json_members v) (cfg_probes c) = Inr (cfg_probes c')"
    and "sect \<noteq> ''sinks'' \<Longrightarrow> cfg_sinks c' = cfg_sinks c"
    and "sect = ''sinks'' \<Longrightarrow> json_is_object v
      \<and> load_components lib ''sinks'' (json_members v) (cfg_sinks c) = Inr (cfg_sinks c')"
  using assms
    load_object_items_frame [of "node_handler lib" "''node''" "json_members v" c c', OF handler_frame(1)]
    load_object_items_frame [of "slurm_handler lib" "''slurm''" "json_members v" c c', OF handler_frame(2)]
  by (auto simp: load_section_def load_object_def map_sum_def split: if_splits sum.splits)

lemma load_sections_probes_absent:
  "load_sections lib items c = Inr c' \<Longrightarrow> ''probes'' \<notin> fst ` set items \<Longrightarrow> cfg_probes c' = cfg_probes c"
proof (induction items arbitrary: c)
  case (Cons item items)
  then show ?case
    by (cases item) (auto dest: load_section_probes(1) split: sum.splits)
qed simp

lemma load_sections_probes:
  assumes "load_sections lib items c = Inr c'" and "distinct (map fst items)"
    and "(''probes'', v) \<in> set items"
  shows "json_is_object v
    \<and> load_components lib ''probes'' (json_members v) (cfg_probes c) = Inr (cfg_probes c')"
  using assms
proof (induction items arbitrary: c)
  case (Cons item items)
  obtain sect w where item: "item = (sect, w)" by (cases item)
  with Cons.prems(1) obtain c1 where c1: "load_section lib sect w c = Inr c1"
    and rest: "load_sections lib items c1 = Inr c'" by (auto split: sum.splits)
  show ?case
  proof (cases "sect = ''probes''")
    case True
    with Cons.prems item have "w = v" and "''probes'' \<notin> fst ` set items"
      by (force simp: image_iff)+
    with load_section_probes(2) [OF c1 True] load_sections_probes_absent [OF rest] show ?thesis
      by simp
  next
    case False
    with Cons.prems item rest have "json_is_object v
        \<and> load_components lib ''probes'' (json_members v) (cfg_probes c1) = Inr (cfg_probes c')"
      by (intro Cons.IH) auto
    with load_section_probes(1) [OF c1 False] show ?thesis by simp
  qed
qed simp

lemma load_sections_ok:
  "load_sections lib items c = Inr c' \<Longrightarrow> config_ok c \<Longrightarrow> config_ok c'"
proof (induction items arbitrary: c)
  case (Cons item items)
  obtain sect w where item: "item = (sect, w)" by (cases item)
  with Cons.prems(1) obtain c1 where c1: "load_section lib sect w c = Inr c1"
    and rest: "load_sections lib items c1 = Inr c'" by (auto split: sum.splits)
  have "config_ok c1"
    using load_section_probes [OF c1] Cons.prems(2)
    by (cases "sect = ''probes''"; cases "sect = ''sinks''")
      (auto simp: config_ok_def dest: load_components_ok)
  with Cons.IH [OF rest] show ?case .
qed simp

lemma load_ok:
  assumes "load_config_file lib path content = Some (Inr c)"
  shows "config_ok c"
proof -
  from assms obtain raw doc c0 where
    run: "load_sections lib (json_members doc) default_config = Inr c0"
    and c: "c = c0\<lparr>cfg_probes := drop_disabled (cfg_probes c0), cfg_sinks := drop_disabled (cfg_sinks c0)\<rparr>"
    by (auto simp: load_config_file_def split: option.splits json_parsed.splits sum.splits if_splits)
  have "config_ok c0"
    using run by (rule load_sections_ok) (simp add: config_ok_def default_config_def)
  with c show ?thesis by (auto simp: config_ok_def drop_disabled_def)
qed

text \<open>
  A loaded configuration is always well formed: its component tables are sorted by id
  and list each id once, which the reload difference relies on.
\<close>

lemma load_config_file_ok:
  assumes "load_config_file lib path content = Some (Inr c)"
  shows "config_ok c"
  using assms by (rule load_ok)

text \<open>A library over which the witnesses run: it knows one document.\<close>

definition example_doc :: json where
  "example_doc =
     JObject [(''node'', JObject [(''batch_size'', JUnsigned 8), (''plugin_dir'', JString ''/p'')]),
       (''probes'', JObject [(''oom'', JObject []),
          (''proc_lifecycle'', JObject [(''enabled'', JBool False)])]),
       (''sinks'', JObject [(''null'', JObject [])])]"

definition example_lib :: json_lib where
  "example_lib =
     \<lparr>lib_parse = (\<lambda>s. if s = ''doc'' then Parsed example_doc else Parse_Error ''parse error''),
      lib_dump = (\<lambda>_. []), lib_float = (\<lambda>_. []), lib_type_error = (\<lambda>_. ''type_error'')\<rparr>"

lemma example_load:
  "load_config_file example_lib ''f'' (Some ''doc'') =
     Some (Inr (default_config\<lparr>cfg_batch_size := 8, cfg_plugin_dir := ''/p'',
       cfg_probes := [(''oom'', [])], cfg_sinks := [(''null'', [])]\<rparr>))"
proof -
  have "get_uint (one_shot (dec_of_int (s64 8))) ''v'' 64 = 8" by code_simp
  then show ?thesis
    by (simp add: load_config_file_def example_lib_def example_doc_def load_section_def
        load_object_def node_handler_def assign_string_def default_config_def load_component_def
        drop_disabled_def get_bool_def cc_set_def to_lower_def)
qed

lemma load_config_file_ok_witness:
  "config_ok (default_config\<lparr>cfg_batch_size := 8, cfg_plugin_dir := ''/p'',
     cfg_probes := [(''oom'', [])], cfg_sinks := [(''null'', [])]\<rparr>)"
  by (rule load_config_file_ok [OF example_load])

text \<open>
  Presence means enabled: with a section \<^verbatim>\<open>"probes"\<close> in the file, an id is configured
  exactly when it is a member that does not say \<^verbatim>\<open>"enabled": false\<close>, and it then has
  exactly the settings written there, as text.
\<close>

lemma load_config_file_probes:
  assumes "load_config_file lib path (Some raw) = Some (Inr c)" and "lib_parse lib raw = Parsed (JObject items)"
    and "distinct (map fst items)" and "(''probes'', JObject ps) \<in> set items"
    and "distinct (map fst ps)"
  shows "map_find (cfg_probes c) k =
    (case map_of ps k of
       None \<Rightarrow> None
     | Some v \<Rightarrow> (let s = load_component lib (json_members v) [] in
         if get_bool s ''enabled'' True then Some s else None))
    \<and> map_find (load_component lib ms []) key = map_option (stringify lib) (map_of (rev ms) key)"
proof -
  from assms(1,2) obtain c0 where
    run: "load_sections lib items default_config = Inr c0"
    and c: "cfg_probes c = drop_disabled (cfg_probes c0)"
    by (auto simp: load_config_file_def split: sum.splits)
  from load_sections_probes [OF run assms(3,4)]
  have comps: "load_components lib ''probes'' ps [] = Inr (cfg_probes c0)"
    by (simp add: default_config_def)
  have "map_ok (cfg_probes c0)" using load_components_ok [OF comps] by simp
  from map_find_filter [OF this, of "\<lambda>(_, c). get_bool c ''enabled'' True" k]
    load_components_find [OF comps assms(5), of k]
  have "map_find (cfg_probes c) k =
    (case map_of ps k of
       None \<Rightarrow> None
     | Some v \<Rightarrow> (let s = load_component lib (json_members v) [] in
         if get_bool s ''enabled'' True then Some s else None))"
    by (cases "map_find (cfg_probes c) k") (auto simp: c drop_disabled_def Let_def split: option.splits)
  with map_find_load_component show ?thesis by blast
qed

lemma load_config_file_probes_witness:
  "map_find (cfg_probes (default_config\<lparr>cfg_batch_size := 8, cfg_plugin_dir := ''/p'',
     cfg_probes := [(''oom'', [])], cfg_sinks := [(''null'', [])]\<rparr>)) ''proc_lifecycle'' = None"
proof -
  let ?ps = "[(''oom'', JObject []), (''proc_lifecycle'', JObject [(''enabled'', JBool False)])]"
  have "lib_parse example_lib ''doc'' = Parsed (JObject (json_members example_doc))"
    by (simp add: example_lib_def example_doc_def)
  moreover have "distinct (map fst (json_members example_doc))"
    and "(''probes'', JObject ?ps) \<in> set (json_members example_doc)" and "distinct (map fst ?ps)"
    by (simp_all add: example_doc_def)
  ultimately have "map_find (cfg_probes (default_config\<lparr>cfg_batch_size := 8, cfg_plugin_dir := ''/p'',
     cfg_probes := [(''oom'', [])], cfg_sinks := [(''null'', [])]\<rparr>)) ''proc_lifecycle'' =
    (case map_of ?ps ''proc_lifecycle'' of
       None \<Rightarrow> None
     | Some v \<Rightarrow> (let s = load_component example_lib (json_members v) [] in
         if get_bool s ''enabled'' True then Some s else None))"
    using load_config_file_probes [OF example_load] by blast
  then show ?thesis
    by (simp add: load_component_def cc_set_def get_bool_def to_lower_def)
qed

section \<open>Strictness\<close>

text \<open>
  The shape a document must have: the known keys, each section and component an object, and
  strings for \<^verbatim>\<open>cluster\<close>, \<^verbatim>\<open>node\<close>, \<^verbatim>\<open>plugin_dir\<close> and \<^verbatim>\<open>cgroup_root\<close>. The other settings may have
  any type: what they cannot be read as leaves the default.
\<close>

fun json_is_string :: "json \<Rightarrow> bool" where
  "json_is_string (JString _) = True"
| "json_is_string _ = False"

definition node_key_wf :: "string \<times> json \<Rightarrow> bool" where
  "node_key_wf kv \<longleftrightarrow>
     fst kv \<in> {''cluster'', ''node'', ''plugin_dir''} \<and> json_is_string (snd kv)
     \<or> fst kv \<in> {''batch_size'', ''flush_interval'', ''verbose''}"

definition slurm_key_wf :: "string \<times> json \<Rightarrow> bool" where
  "slurm_key_wf kv \<longleftrightarrow> fst kv = ''cgroup_root'' \<and> json_is_string (snd kv)"

definition section_wf :: "string \<times> json \<Rightarrow> bool" where
  "section_wf kv \<longleftrightarrow>
     json_is_object (snd kv)
     \<and> (fst kv = ''node'' \<and> list_all node_key_wf (json_members (snd kv))
        \<or> fst kv = ''slurm'' \<and> list_all slurm_key_wf (json_members (snd kv))
        \<or> fst kv \<in> {''probes'', ''sinks''}
            \<and> list_all (\<lambda>m. json_is_object (snd m)) (json_members (snd kv)))"

definition document_wf :: "json \<Rightarrow> bool" where
  "document_wf doc \<longleftrightarrow> json_is_object doc \<and> list_all section_wf (json_members doc)"

definition succeeds :: "'e + 'a \<Rightarrow> bool" where
  "succeeds x \<longleftrightarrow> (case x of Inl _ \<Rightarrow> False | Inr _ \<Rightarrow> True)"

lemma succeeds_simps [simp]: "succeeds (Inr a)" "\<not> succeeds (Inl e)" "succeeds (map_sum f g x) = succeeds x"
  by (simp_all add: succeeds_def map_sum_def split: sum.split)

lemma assign_string_wf: "(\<exists>c'. assign_string lib v f = Handled c') \<longleftrightarrow> json_is_string v"
  by (cases v) (simp_all add: assign_string_def)

lemma assign_string_not_Refused: "assign_string lib v f \<noteq> Refused"
  by (simp add: assign_string_def split: sum.split)

lemma node_handler_wf: "(\<exists>c'. node_handler lib k v c = Handled c') \<longleftrightarrow> node_key_wf (k, v)"
  by (auto simp: node_handler_def node_key_wf_def assign_string_wf)

lemma slurm_handler_wf: "(\<exists>c'. slurm_handler lib k v c = Handled c') \<longleftrightarrow> slurm_key_wf (k, v)"
  by (auto simp: slurm_handler_def slurm_key_wf_def assign_string_wf)

lemma load_object_items_succeeds:
  assumes "\<And>k v c. (\<exists>c'. handler k v c = Handled c') \<longleftrightarrow> good (k, v)"
  shows "succeeds (load_object_items handler n items c) \<longleftrightarrow> list_all good items"
proof (induction items arbitrary: c)
  case (Cons item items)
  obtain k v where item: "item = (k, v)" by (cases item)
  from assms [of k v c] Cons show ?case
    by (cases "handler k v c") (auto simp: item)
qed simp

lemma load_components_succeeds:
  "succeeds (load_components lib n items m) \<longleftrightarrow> list_all (\<lambda>i. json_is_object (snd i)) items"
  by (induction lib n items m rule: load_components.induct) (auto simp: Let_def)

lemma load_section_succeeds: "succeeds (load_section lib sect v c) \<longleftrightarrow> section_wf (sect, v)"
  using load_object_items_succeeds [of "node_handler lib" node_key_wf, OF node_handler_wf]
    load_object_items_succeeds [of "slurm_handler lib" slurm_key_wf, OF slurm_handler_wf]
  by (auto simp: load_section_def load_object_def section_wf_def load_components_succeeds)

lemma load_sections_succeeds: "succeeds (load_sections lib items c) \<longleftrightarrow> list_all section_wf items"
proof (induction items arbitrary: c)
  case (Cons item items)
  obtain sect v where item: "item = (sect, v)" by (cases item)
  show ?case
    using load_section_succeeds [of lib sect v c] Cons
    by (cases "load_section lib sect v c") (auto simp: item)
qed simp

text \<open>
  C29. The loader is strict about names and structure: it yields a configuration exactly for a
  readable file whose text parses to a document of the right shape. Any unknown key of \<^verbatim>\<open>"node"\<close>,
  \<^verbatim>\<open>"slurm"\<close> or the top level, any section or component that is not an object, and a
  \<^verbatim>\<open>cluster\<close>, \<^verbatim>\<open>node\<close>, \<^verbatim>\<open>plugin_dir\<close> or \<^verbatim>\<open>cgroup_root\<close> that is not a string refuses the whole file; the
  other settings are taken with any JSON type. A parser exception other than \<^verbatim>\<open>parse_error\<close> is
  the one way not to return.
\<close>

theorem load_config_file_strict:
  "((\<exists>c. load_config_file lib path content = Some (Inr c)) \<longleftrightarrow>
      (\<exists>raw doc. content = Some raw \<and> lib_parse lib raw = Parsed doc \<and> document_wf doc))
   \<and> (load_config_file lib path content = None \<longleftrightarrow>
      (\<exists>raw. content = Some raw \<and> lib_parse lib raw = Parse_Throws))"
proof (cases "\<exists>raw doc. content = Some raw \<and> lib_parse lib raw = Parsed doc")
  case True
  then obtain raw doc where doc: "content = Some raw" "lib_parse lib raw = Parsed doc" by blast
  have "(\<exists>c. load_config_file lib path content = Some (Inr c)) \<longleftrightarrow>
      json_is_object doc \<and> succeeds (load_sections lib (json_members doc) default_config)"
    using doc by (auto simp: load_config_file_def split: sum.split)
  moreover have "load_config_file lib path content \<noteq> None"
    using doc by (simp add: load_config_file_def split: sum.split)
  ultimately show ?thesis using doc by (simp add: document_wf_def load_sections_succeeds)
next
  case False
  then show ?thesis by (auto simp: load_config_file_def split: option.split json_parsed.split)
qed

end
