(* ===== verification/Daemon.thy ===== *)
theory Daemon
  imports Plugins EventLoop Pipeline Watcher ConfigFile
begin

text \<open>
  \<^verbatim>\<open>core/daemon.cpp\<close>: assembly, reload and the main loop. Objects made with \<^verbatim>\<open>make_unique\<close> or
  by a plugin factory get fresh addresses from a counter. A probe object is the translation
  its \<^verbatim>\<open>on_event\<close> applies to a record of its ring; what the daemon does to sinks, probes and
  plugins is kept in a log, in order.
\<close>

section \<open>State\<close>

record loaded_sink =
  ls_id :: string
  ls_sink :: sink_ptr

record loaded_probe =
  lp_id :: string
  lp_probe :: probe_ptr
  lp_emitter :: emitter_ptr
  lp_handler :: handler

datatype daemon_call =
    Sink_Made string sink_ptr sink_impl
  | Probe_Made string probe_ptr
  | Watcher_Made probe_ptr
  | Sink_Call sink_call
  | Probe_Detach probe_ptr
  | Probe_Destroy probe_ptr
  | Unload_Sink string
  | Unload_Probe string

record daemon =
  d_config :: config
  d_config_path :: string
  d_loader :: loader
  d_resolver :: "resolver option"
  d_watcher :: "probe_ptr option"
  d_sinks :: "loaded_sink list"
  d_probes :: "loaded_probe list"
  d_pipeline :: "pipeline option"
  d_loop :: event_loop
  d_fresh :: nat
  d_log :: "daemon_call list"

text \<open>Address 0 is the pipeline, which is the watcher's emitter; the counter starts above it.\<close>

definition pipeline_emitter :: emitter_ptr where "pipeline_emitter = 0"

definition new_daemon :: "config \<Rightarrow> string \<Rightarrow> daemon" where
  "new_daemon config config_path =
     \<lparr>d_config = config, d_config_path = config_path, d_loader = new_loader (cfg_plugin_dir config),
      d_resolver = None, d_watcher = None, d_sinks = [], d_probes = [], d_pipeline = None,
      d_loop = new_event_loop, d_fresh = 1, d_log = []\<rparr>"

text \<open>\<^verbatim>\<open>erase(find_if(...))\<close> on a vector.\<close>

fun erase_first :: "('a \<Rightarrow> bool) \<Rightarrow> 'a list \<Rightarrow> 'a list" where
  "erase_first P [] = []"
| "erase_first P (x # xs) = (if P x then xs else x # erase_first P xs)"

text \<open>
  What the outside answers during one operation: the objects on disk, whether a probe opens,
  loads and attaches, its ring's descriptor, whether libbpf can arm that ring (one answer per
  ring, however often an operation rebuilds the ring buffer), and for how many records a vector
  can get room.
\<close>

record daemon_env =
  en_disk :: "string \<Rightarrow> plugin_object option"
  en_open :: "probe_ptr \<Rightarrow> bool"
  en_load :: "probe_ptr \<Rightarrow> bool"
  en_attach :: "probe_ptr \<Rightarrow> bool"
  en_ring_fd :: "probe_ptr \<Rightarrow> int"
  en_armable :: "probe_ptr \<Rightarrow> bool"
  en_record_room :: nat

definition comes_up :: "daemon_env \<Rightarrow> probe_ptr \<Rightarrow> bool" where
  "comes_up env p \<longleftrightarrow> en_open env p \<and> en_load env p \<and> en_attach env p"

definition log_calls :: "daemon_call list \<Rightarrow> daemon \<Rightarrow> daemon" where
  "log_calls calls d = d\<lparr>d_log := d_log d @ calls\<rparr>"

section \<open>Components\<close>

definition wire_sinks :: "daemon \<Rightarrow> daemon" where
  "wire_sinks d =
     (case d_pipeline d of
        None \<Rightarrow> d
      | Some p \<Rightarrow> d\<lparr>d_pipeline := Some (set_sinks (map ls_sink (d_sinks d)) p)\<rparr>)"

definition add_sink :: "daemon_env \<Rightarrow> string \<Rightarrow> component_config \<Rightarrow> daemon \<Rightarrow> daemon" where
  "add_sink env ident config d =
     (case load_sink (en_disk env) ident (plugin_of ident config) config (d_loader d) of
        (None, l) \<Rightarrow> d\<lparr>d_loader := l\<rparr>
      | (Some sink, l) \<Rightarrow>
          wire_sinks ((log_calls [Sink_Made ident (d_fresh d) sink] d)\<lparr>d_loader := l,
            d_sinks := d_sinks d @ [\<lparr>ls_id = ident, ls_sink = d_fresh d\<rparr>],
            d_fresh := d_fresh d + 1\<rparr>))"

definition remove_sink :: "string \<Rightarrow> daemon \<Rightarrow> daemon" where
  "remove_sink ident d =
     (case find (\<lambda>s. ls_id s = ident) (d_sinks d) of
        None \<Rightarrow> d
      | Some s \<Rightarrow>
          (let d1 = wire_sinks (d\<lparr>d_sinks := erase_first (\<lambda>s. ls_id s = ident) (d_sinks d)\<rparr>);
               d2 = log_calls [Sink_Call (Sink_Flush (ls_sink s)), Sink_Call (Sink_Destroy (ls_sink s)),
                      Unload_Sink ident] d1
           in d2\<lparr>d_loader := unload_sink ident (d_loader d2)\<rparr>))"

text \<open>
  A probe that fails on its way up is destroyed (its destructor detaches it) and its plugin
  unloaded.
\<close>

definition add_probe :: "daemon_env \<Rightarrow> string \<Rightarrow> component_config \<Rightarrow> daemon \<Rightarrow> daemon" where
  "add_probe env ident config d =
     (case load_probe (en_disk env) ident (plugin_of ident config) config (d_loader d) of
        (None, l) \<Rightarrow> d\<lparr>d_loader := l\<rparr>
      | (Some handler, l) \<Rightarrow>
          (let probe = d_fresh d;
               d1 = (log_calls [Probe_Made ident probe] d)\<lparr>d_loader := l, d_fresh := d_fresh d + 1\<rparr> in
           if \<not> comes_up env probe
           then log_calls [Probe_Destroy probe, Unload_Probe ident]
                  (d1\<lparr>d_loader := unload_probe ident l\<rparr>)
           else (let emitter = d_fresh d1; d2 = d1\<lparr>d_fresh := d_fresh d1 + 1\<rparr>;
                     (ok, lp) = loop_add (en_ring_fd env) (en_armable env) probe emitter (d_loop d2) in
             if \<not> ok
             then log_calls [Probe_Detach probe, Probe_Destroy probe, Unload_Probe ident]
                    (d2\<lparr>d_loop := lp, d_loader := unload_probe ident l\<rparr>)
             else d2\<lparr>d_loop := lp, d_probes := d_probes d2 @
                    [\<lparr>lp_id = ident, lp_probe = probe, lp_emitter = emitter, lp_handler = handler\<rparr>]\<rparr>)))"

text \<open>Detaching, forgetting and unloading one probe of the list.\<close>

definition forget_probe :: "(loaded_probe \<Rightarrow> bool) \<Rightarrow> loaded_probe \<Rightarrow> daemon \<Rightarrow> daemon" where
  "forget_probe found lp d =
     log_calls [Probe_Detach (lp_probe lp), Probe_Destroy (lp_probe lp), Unload_Probe (lp_id lp)]
       (d\<lparr>d_probes := erase_first found (d_probes d), d_loader := unload_probe (lp_id lp) (d_loader d)\<rparr>)"

fun forget_dropped :: "probe_ptr list \<Rightarrow> daemon \<Rightarrow> daemon" where
  "forget_dropped [] d = d"
| "forget_dropped (dead # ps) d =
     (case find (\<lambda>p. lp_probe p = dead) (d_probes d) of
        None \<Rightarrow> forget_dropped ps d
      | Some lp \<Rightarrow> forget_dropped ps (forget_probe (\<lambda>p. lp_probe p = dead) lp d))"

definition remove_probe :: "daemon_env \<Rightarrow> string \<Rightarrow> daemon \<Rightarrow> daemon" where
  "remove_probe env ident d =
     (case find (\<lambda>p. lp_id p = ident) (d_probes d) of
        None \<Rightarrow> d
      | Some lp \<Rightarrow>
          (let (also_dropped, el) = loop_remove (en_armable env) (lp_probe lp) (d_loop d) in
           forget_dropped also_dropped (forget_probe (\<lambda>p. lp_id p = ident) lp (d\<lparr>d_loop := el\<rparr>))))"

definition start_cgroup_watcher :: "daemon_env \<Rightarrow> daemon \<Rightarrow> bool \<times> daemon" where
  "start_cgroup_watcher env d =
     (let w = d_fresh d; d1 = (log_calls [Watcher_Made w] d)\<lparr>d_fresh := d_fresh d + 1\<rparr> in
      if \<not> comes_up env w then (False, log_calls [Probe_Destroy w] (d1\<lparr>d_watcher := None\<rparr>))
      else let (ok, el) = loop_add (en_ring_fd env) (en_armable env) w pipeline_emitter (d_loop d1) in
        if \<not> ok
        then (False, log_calls [Probe_Detach w, Probe_Destroy w] (d1\<lparr>d_loop := el, d_watcher := None\<rparr>))
        else (True, d1\<lparr>d_loop := el, d_watcher := Some w\<rparr>))"

section \<open>Startup\<close>

definition pipeline_options_of :: "config \<Rightarrow> pipeline_options" where
  "pipeline_options_of c =
     \<lparr>po_node = cfg_node c, po_cluster = cfg_cluster c, po_batch_size = cfg_batch_size c,
      po_flush_interval = cfg_flush_interval c\<rparr>"

text \<open>
  The part of \<^verbatim>\<open>start\<close> after the resolver is running. \<open>now\<close> is the steady clock when the
  pipeline is built; \<^const>\<open>None\<close> if building it throws, which nothing catches.
\<close>

definition start_components :: "daemon_env \<Rightarrow> int \<Rightarrow> daemon \<Rightarrow> (bool \<times> daemon) option" where
  "start_components env now d =
     (let d1 = fold (\<lambda>(ident, config). add_sink env ident config) (cfg_sinks (d_config d)) d in
      if d_sinks d1 = [] then Some (False, d1)
      else case make_pipeline (en_record_room env) (pipeline_options_of (d_config d1)) [] now of
        None \<Rightarrow> None
      | Some p \<Rightarrow>
          (let d2 = wire_sinks (d1\<lparr>d_pipeline := Some p\<rparr>);
               (watching, d3) = start_cgroup_watcher env d2 in
           if \<not> watching then Some (False, d3)
           else let d4 = fold (\<lambda>(ident, config). add_probe env ident config) (cfg_probes (d_config d3)) d3 in
             Some (d_probes d4 \<noteq> [], d4)))"

text \<open>
  \<^verbatim>\<open>start\<close>: \<^const>\<open>None\<close> if it does not return: the startup walk never ends, or the pipeline
  cannot be built. \<open>glob\<close> and \<open>cgroup_conf\<close> are what
  \<^verbatim>\<open>discover_cgroup_root\<close> reads.
\<close>

definition daemon_start ::
  "daemon_env \<Rightarrow> file_system \<Rightarrow> (string \<Rightarrow> string list option) \<Rightarrow> string option \<Rightarrow> u64 \<Rightarrow> int \<Rightarrow> daemon
     \<Rightarrow> (bool \<times> daemon) option" where
  "daemon_start env fs glob cgroup_conf offset now d =
     (if cfg_plugin_dir (d_config d) = [] then Some (False, d)
      else case discover_cgroup_root (is_dir fs) glob (cfg_cgroup_root (d_config d)) cgroup_conf of
        None \<Rightarrow> Some (False, d)
      | Some cgroup_root \<Rightarrow>
          (case resolver_start fs offset (new_resolver cgroup_root default_grace_ns) of
             None \<Rightarrow> None
           | Some (ok, res) \<Rightarrow>
               (let d1 = d\<lparr>d_resolver := Some res\<rparr> in
                if \<not> ok then Some (False, d1) else start_components env now d1)))"

section \<open>Reload\<close>

text \<open>\<open>loaded\<close> is what \<^verbatim>\<open>load_config_file\<close> returned.\<close>

definition reload_config :: "daemon_env \<Rightarrow> string + config \<Rightarrow> daemon \<Rightarrow> daemon" where
  "reload_config env loaded d =
     (if d_config_path d = [] then d
      else case loaded of
        Inl error \<Rightarrow> d
      | Inr next_config \<Rightarrow>
          (case diff_for_reload (d_config d) next_config of
             None \<Rightarrow> d
           | Some diff \<Rightarrow>
               (let d1 = fold remove_sink (removed_sinks diff) d;
                    d2 = fold (\<lambda>i. add_sink env i (the (map_find (cfg_sinks next_config) i)))
                           (added_sinks diff) d1;
                    d3 = fold (remove_probe env) (removed_probes diff) d2;
                    d4 = fold (\<lambda>i. add_probe env i (the (map_find (cfg_probes next_config) i)))
                           (added_probes diff) d3
                in d4\<lparr>d_config := (d_config d4)\<lparr>cfg_sinks := cfg_sinks next_config,
                                          cfg_probes := cfg_probes next_config\<rparr>\<rparr>)))"

section \<open>The main loop\<close>

text \<open>
  One event of a poll. The watcher's goes to the resolver; a probe's is translated, stamped
  with the id of the instance its emitter belongs to (\<^verbatim>\<open>InstanceEmitter\<close>) and emitted.
\<close>

definition instance_emit ::
  "u64 \<Rightarrow> (u32 \<Rightarrow> string option) \<Rightarrow> string \<Rightarrow> st_record \<Rightarrow> daemon \<Rightarrow> daemon" where
  "instance_emit offset pw ident r d =
     (case (d_pipeline d, d_resolver d) of
        (Some p, Some res) \<Rightarrow>
          (let ((p', calls), res') = pipeline_emit offset pw (r\<lparr>rec_probe := ident\<rparr>) p res in
           log_calls (map Sink_Call calls) (d\<lparr>d_pipeline := Some p', d_resolver := Some res'\<rparr>))
      | _ \<Rightarrow> d)"

definition dispatch ::
  "u64 \<Rightarrow> (u32 \<Rightarrow> string option) \<Rightarrow> probe_ptr \<times> emitter_ptr \<times> u8 list \<Rightarrow> daemon \<Rightarrow> daemon" where
  "dispatch offset pw ev d =
     (case ev of (probe, out, data) \<Rightarrow>
        if d_watcher d = Some probe
        then d\<lparr>d_resolver := map_option (watcher_on_event data) (d_resolver d)\<rparr>
        else (case find (\<lambda>lp. lp_probe lp = probe \<and> lp_emitter lp = out) (d_probes d) of
            None \<Rightarrow> d
          | Some lp \<Rightarrow>
              (case lp_handler lp data of
                 None \<Rightarrow> d
               | Some r \<Rightarrow> instance_emit offset pw (lp_id lp) r d)))"

text \<open>What one iteration of \<^verbatim>\<open>run\<close> meets: the poll, the clocks, and the file a pending reload reads.\<close>

record tick_input =
  ti_poll :: "int + (nat \<times> u8 list list) list"
  ti_monotonic :: u64
  ti_steady :: int
  ti_reload :: "(daemon_env \<times> (string + config)) option"
  ti_users :: "u32 \<Rightarrow> string option"

definition on_pipeline :: "(pipeline \<Rightarrow> pipeline \<times> sink_call list) \<Rightarrow> daemon \<Rightarrow> daemon" where
  "on_pipeline f d =
     (case d_pipeline d of
        None \<Rightarrow> d
      | Some p \<Rightarrow> (let (p', calls) = f p in log_calls (map Sink_Call calls) (d\<lparr>d_pipeline := Some p'\<rparr>)))"

definition daemon_tick :: "u64 \<Rightarrow> tick_input \<Rightarrow> daemon \<Rightarrow> bool \<times> daemon" where
  "daemon_tick offset inp d =
     (let (go_on, events) = loop_poll (ti_poll inp) (d_loop d);
          d1 = fold (dispatch offset (ti_users inp)) events d in
      if \<not> go_on then (False, d1)
      else let d2 = d1\<lparr>d_resolver := map_option (resolver_tick (ti_monotonic inp)) (d_resolver d1)\<rparr>;
               d3 = on_pipeline (pipeline_tick (ti_steady inp)) d2 in
        (True, case ti_reload inp of
           None \<Rightarrow> d3
         | Some (env, loaded) \<Rightarrow> reload_config env loaded d3))"

text \<open>\<open>stop\<close> becomes nonzero after the given iterations; \<open>now\<close> is the clock at the final flush.\<close>

fun daemon_loop :: "u64 \<Rightarrow> tick_input list \<Rightarrow> daemon \<Rightarrow> int \<times> daemon" where
  "daemon_loop offset [] d = (0, d)"
| "daemon_loop offset (inp # inps) d =
     (let (go_on, d') = daemon_tick offset inp d in
      if \<not> go_on then (1, d') else daemon_loop offset inps d')"

definition daemon_run :: "u64 \<Rightarrow> tick_input list \<Rightarrow> int \<Rightarrow> daemon \<Rightarrow> int \<times> daemon" where
  "daemon_run offset inps now d =
     (let (rc, d') = daemon_loop offset inps d in (rc, on_pipeline (pipeline_flush now) d'))"

text \<open>\<^verbatim>\<open>report_shutdown\<close>: the numbers of its message; \<open>dropped\<close> asks a sink.\<close>

definition report_shutdown :: "(sink_ptr \<Rightarrow> u64) \<Rightarrow> daemon \<Rightarrow> u64 \<times> resolver_stats option \<times> u64" where
  "report_shutdown dropped d =
     ((case d_pipeline d of None \<Rightarrow> 0 | Some p \<Rightarrow> ps_records (pl_stats p)),
      map_option r_stats (d_resolver d),
      sum_list (map (\<lambda>s. dropped (ls_sink s)) (d_sinks d)))"

text \<open>The destructor's body.\<close>

definition daemon_destroy :: "daemon \<Rightarrow> daemon" where
  "daemon_destroy d =
     log_calls ((case d_watcher d of None \<Rightarrow> [] | Some w \<Rightarrow> [Probe_Detach w])
       @ map (\<lambda>lp. Probe_Detach (lp_probe lp)) (d_probes d)) d"

section \<open>The invariant\<close>

text \<open>
  Instances and the loader's handles are the same set; instances are distinct, at distinct
  addresses; the pipeline writes to exactly the loaded sinks; every binding of the event loop
  belongs to a loaded probe, with its own emitter, or to the watcher; every loaded probe is
  bound; only configured instances run.
\<close>

definition sinks_inv :: "daemon \<Rightarrow> bool" where
  "sinks_inv d \<longleftrightarrow>
     distinct (map ls_id (d_sinks d)) \<and> distinct (map ls_sink (d_sinks d))
     \<and> dom (map_find (ld_sink_handles (d_loader d))) = ls_id ` set (d_sinks d)
     \<and> (\<forall>s \<in> set (d_sinks d). ls_sink s < d_fresh d)
     \<and> (\<forall>p. d_pipeline d = Some p \<longrightarrow> pl_sinks p = map ls_sink (d_sinks d))"

definition binding_of :: "loaded_probe \<Rightarrow> binding" where
  "binding_of lp = \<lparr>b_probe = lp_probe lp, b_out = lp_emitter lp\<rparr>"

definition watcher_binding :: "probe_ptr \<Rightarrow> binding" where
  "watcher_binding w = \<lparr>b_probe = w, b_out = pipeline_emitter\<rparr>"

definition probes_inv :: "daemon \<Rightarrow> bool" where
  "probes_inv d \<longleftrightarrow>
     distinct (map lp_id (d_probes d)) \<and> distinct (map lp_probe (d_probes d))
     \<and> dom (map_find (ld_probe_handles (d_loader d))) = lp_id ` set (d_probes d)
     \<and> (\<forall>lp \<in> set (d_probes d). lp_probe lp < d_fresh d \<and> d_watcher d \<noteq> Some (lp_probe lp))
     \<and> (\<forall>w. d_watcher d = Some w \<longrightarrow> w < d_fresh d)
     \<and> loop_inv (d_loop d)
     \<and> set (el_bindings (d_loop d)) \<subseteq> binding_of ` set (d_probes d) \<union> watcher_binding ` set_option (d_watcher d)
     \<and> binding_of ` set (d_probes d) \<subseteq> set (el_bindings (d_loop d))"

definition daemon_inv :: "daemon \<Rightarrow> bool" where
  "daemon_inv d \<longleftrightarrow> loader_inv (d_loader d) \<and> sinks_inv d \<and> probes_inv d"

text \<open>Environments in which a probe that came up has a ring: what every probe of the tree does.\<close>

definition rings_ok :: "daemon_env \<Rightarrow> bool" where
  "rings_ok env \<longleftrightarrow> (\<forall>p. comes_up env p \<longrightarrow> 0 \<le> en_ring_fd env p)"

section \<open>What the operations leave alone\<close>

lemma log_calls_simps [simp]:
  "d_config (log_calls cs d) = d_config d" "d_config_path (log_calls cs d) = d_config_path d"
  "d_loader (log_calls cs d) = d_loader d" "d_resolver (log_calls cs d) = d_resolver d"
  "d_watcher (log_calls cs d) = d_watcher d" "d_sinks (log_calls cs d) = d_sinks d"
  "d_probes (log_calls cs d) = d_probes d" "d_pipeline (log_calls cs d) = d_pipeline d"
  "d_loop (log_calls cs d) = d_loop d" "d_fresh (log_calls cs d) = d_fresh d"
  "d_log (log_calls cs d) = d_log d @ cs"
  by (simp_all add: log_calls_def)

lemma wire_sinks_simps [simp]:
  "d_config (wire_sinks d) = d_config d" "d_config_path (wire_sinks d) = d_config_path d"
  "d_loader (wire_sinks d) = d_loader d" "d_resolver (wire_sinks d) = d_resolver d"
  "d_watcher (wire_sinks d) = d_watcher d" "d_sinks (wire_sinks d) = d_sinks d"
  "d_probes (wire_sinks d) = d_probes d" "d_loop (wire_sinks d) = d_loop d"
  "d_fresh (wire_sinks d) = d_fresh d" "d_log (wire_sinks d) = d_log d"
  "d_pipeline (wire_sinks d) = map_option (set_sinks (map ls_sink (d_sinks d))) (d_pipeline d)"
  by (simp_all add: wire_sinks_def split: option.split)

lemma add_sink_frame [simp]:
  "d_config (add_sink env i c d) = d_config d" "d_config_path (add_sink env i c d) = d_config_path d"
  "d_resolver (add_sink env i c d) = d_resolver d" "d_watcher (add_sink env i c d) = d_watcher d"
  "d_probes (add_sink env i c d) = d_probes d" "d_loop (add_sink env i c d) = d_loop d"
  by (simp_all add: add_sink_def split: prod.split option.split)

lemma remove_sink_frame [simp]:
  "d_config (remove_sink i d) = d_config d" "d_config_path (remove_sink i d) = d_config_path d"
  "d_resolver (remove_sink i d) = d_resolver d" "d_watcher (remove_sink i d) = d_watcher d"
  "d_probes (remove_sink i d) = d_probes d" "d_loop (remove_sink i d) = d_loop d"
  "d_fresh (remove_sink i d) = d_fresh d"
  by (simp_all add: remove_sink_def Let_def split: option.split)

lemma forget_probe_simps [simp]:
  "d_config (forget_probe P lp d) = d_config d" "d_config_path (forget_probe P lp d) = d_config_path d"
  "d_resolver (forget_probe P lp d) = d_resolver d" "d_watcher (forget_probe P lp d) = d_watcher d"
  "d_sinks (forget_probe P lp d) = d_sinks d" "d_pipeline (forget_probe P lp d) = d_pipeline d"
  "d_loop (forget_probe P lp d) = d_loop d" "d_fresh (forget_probe P lp d) = d_fresh d"
  "d_probes (forget_probe P lp d) = erase_first P (d_probes d)"
  "d_loader (forget_probe P lp d) = unload_probe (lp_id lp) (d_loader d)"
  by (simp_all add: forget_probe_def)

lemma forget_dropped_frame [simp]:
  "d_config (forget_dropped ps d) = d_config d" "d_config_path (forget_dropped ps d) = d_config_path d"
  "d_resolver (forget_dropped ps d) = d_resolver d" "d_watcher (forget_dropped ps d) = d_watcher d"
  "d_sinks (forget_dropped ps d) = d_sinks d" "d_pipeline (forget_dropped ps d) = d_pipeline d"
  "d_loop (forget_dropped ps d) = d_loop d" "d_fresh (forget_dropped ps d) = d_fresh d"
  "ld_sink_handles (d_loader (forget_dropped ps d)) = ld_sink_handles (d_loader d)"
  by (induction ps d rule: forget_dropped.induct; simp split: option.split)+

lemma remove_probe_frame [simp]:
  "d_config (remove_probe env i d) = d_config d" "d_config_path (remove_probe env i d) = d_config_path d"
  "d_resolver (remove_probe env i d) = d_resolver d" "d_watcher (remove_probe env i d) = d_watcher d"
  "d_sinks (remove_probe env i d) = d_sinks d" "d_pipeline (remove_probe env i d) = d_pipeline d"
  "d_fresh (remove_probe env i d) = d_fresh d"
  "ld_sink_handles (d_loader (remove_probe env i d)) = ld_sink_handles (d_loader d)"
  by (simp_all add: remove_probe_def split: option.split prod.split)

lemma loader_frame_pairs:
  "load_probe disk i p c l = (r, l') \<Longrightarrow> ld_sink_handles l' = ld_sink_handles l"
  "load_sink disk i p c l = (r', l'') \<Longrightarrow> ld_probe_handles l'' = ld_probe_handles l"
  using loader_frame(1) [of disk i p c l] loader_frame(2) [of disk i p c l] by simp_all

lemma add_probe_frame [simp]:
  "d_config (add_probe env i c d) = d_config d" "d_config_path (add_probe env i c d) = d_config_path d"
  "d_resolver (add_probe env i c d) = d_resolver d" "d_watcher (add_probe env i c d) = d_watcher d"
  "d_sinks (add_probe env i c d) = d_sinks d" "d_pipeline (add_probe env i c d) = d_pipeline d"
  "ld_sink_handles (d_loader (add_probe env i c d)) = ld_sink_handles (d_loader d)"
  by (auto simp: add_probe_def Let_def dest: loader_frame_pairs split: prod.split option.split)

lemma sink_ops_probe_handles [simp]:
  "ld_probe_handles (d_loader (add_sink env i c d)) = ld_probe_handles (d_loader d)"
  "ld_probe_handles (d_loader (remove_sink i d)) = ld_probe_handles (d_loader d)"
  by (auto simp: add_sink_def remove_sink_def Let_def dest: loader_frame_pairs
      split: prod.split option.split)

section \<open>Adding and removing sinks\<close>

lemma erase_first_unique:
  "distinct (map f xs) \<Longrightarrow> erase_first (\<lambda>x. f x = a) xs = filter (\<lambda>x. f x \<noteq> a) xs"
proof (induction xs)
  case (Cons x xs)
  then have "f x \<notin> f ` set xs" by simp
  then have "filter (\<lambda>y. f y \<noteq> f x) xs = xs" by (auto simp: filter_id_conv rev_image_eqI)
  with Cons show ?case by auto
qed simp

lemma sinks_inv_cong:
  assumes "d_sinks d' = d_sinks d" and "d_pipeline d' = d_pipeline d" and "d_fresh d \<le> d_fresh d'"
    and "ld_sink_handles (d_loader d') = ld_sink_handles (d_loader d)"
  shows "sinks_inv d \<Longrightarrow> sinks_inv d'"
  using assms by (auto simp: sinks_inv_def)

lemma probes_inv_cong:
  assumes "d_probes d' = d_probes d" and "d_watcher d' = d_watcher d" and "d_loop d' = d_loop d"
    and "d_fresh d \<le> d_fresh d'" and "ld_probe_handles (d_loader d') = ld_probe_handles (d_loader d)"
  shows "probes_inv d \<Longrightarrow> probes_inv d'"
  using assms by (force simp: probes_inv_def)

lemma add_sink_sinks:
  "d_sinks (add_sink env i c d) =
     (if fst (load_sink (en_disk env) i (plugin_of i c) c (d_loader d)) = None then d_sinks d
      else d_sinks d @ [\<lparr>ls_id = i, ls_sink = d_fresh d\<rparr>])"
  "d_loader (add_sink env i c d) = snd (load_sink (en_disk env) i (plugin_of i c) c (d_loader d))"
  "d_fresh d \<le> d_fresh (add_sink env i c d)"
  by (auto simp: add_sink_def split: prod.split option.split)

lemma add_sink_inv:
  assumes inv: "daemon_inv d" and new: "i \<notin> ls_id ` set (d_sinks d)"
  shows "daemon_inv (add_sink env i c d)"
proof -
  let ?ld = "load_sink (en_disk env) i (plugin_of i c) c (d_loader d)"
  have s: "sinks_inv d" and l: "loader_inv (d_loader d)" and p: "probes_inv d"
    using inv by (auto simp: daemon_inv_def)
  have held: "i \<notin> dom (map_find (ld_sink_handles (d_loader d)))"
    using s new by (simp add: sinks_inv_def)
  have "sinks_inv (add_sink env i c d)"
  proof (cases "fst ?ld")
    case None
    then obtain l' where l': "?ld = (None, l')" by (cases ?ld) simp
    with sink_loader.load_NoneD [OF l'] s show ?thesis
      by (simp add: add_sink_def sinks_inv_def)
  next
    case (Some x)
    then obtain l' where l': "?ld = (Some x, l')" by (cases ?ld) simp
    with sink_loader.load_SomeD [OF l'] s new show ?thesis
      by (auto simp: add_sink_def sinks_inv_def set_sinks_def less_Suc_eq)
  qed
  moreover have "loader_inv (d_loader (add_sink env i c d))"
    unfolding add_sink_sinks(2) by (rule sink_loader.load_good [OF l held])
  moreover have "probes_inv (add_sink env i c d)"
    by (rule probes_inv_cong [OF _ _ _ _ _ p]) (simp_all add: add_sink_sinks(3))
  ultimately show ?thesis by (simp add: daemon_inv_def)
qed

lemma remove_sink_sinks:
  assumes "sinks_inv d"
  shows "d_sinks (remove_sink i d) = filter (\<lambda>s. ls_id s \<noteq> i) (d_sinks d)"
proof (cases "find (\<lambda>s. ls_id s = i) (d_sinks d)")
  case None
  then have "filter (\<lambda>s. ls_id s \<noteq> i) (d_sinks d) = d_sinks d"
    by (auto simp: find_None_iff filter_id_conv)
  with None show ?thesis by (simp add: remove_sink_def)
next
  case (Some s)
  with assms show ?thesis
    by (simp add: remove_sink_def Let_def erase_first_unique sinks_inv_def)
qed

lemma remove_sink_inv:
  assumes inv: "daemon_inv d"
  shows "daemon_inv (remove_sink i d)"
proof -
  have s: "sinks_inv d" and l: "loader_inv (d_loader d)" and p: "probes_inv d"
    using inv by (auto simp: daemon_inv_def)
  have "sinks_inv (remove_sink i d) \<and> loader_inv (d_loader (remove_sink i d))"
  proof (cases "find (\<lambda>s. ls_id s = i) (d_sinks d)")
    case None
    with s l show ?thesis by (simp add: remove_sink_def)
  next
    case (Some x)
    have "dom (map_find (ld_sink_handles (unload_sink i (d_loader d))))
        = ls_id ` set (filter (\<lambda>s. ls_id s \<noteq> i) (d_sinks d))"
      using s by (auto simp: sink_loader.unload_held sinks_inv_def)
    with Some s l show ?thesis
      by (auto simp: remove_sink_def Let_def erase_first_unique sinks_inv_def set_sinks_def
          distinct_map_filter loader_inv_unload)
  qed
  moreover have "probes_inv (remove_sink i d)"
    by (rule probes_inv_cong [OF _ _ _ _ _ p]) simp_all
  ultimately show ?thesis by (simp add: daemon_inv_def)
qed

section \<open>Adding and removing probes\<close>

text \<open>The part of the invariant that does not mention the event loop.\<close>

definition probes_core :: "daemon \<Rightarrow> bool" where
  "probes_core d \<longleftrightarrow>
     loader_inv (d_loader d) \<and> distinct (map lp_id (d_probes d)) \<and> distinct (map lp_probe (d_probes d))
     \<and> dom (map_find (ld_probe_handles (d_loader d))) = lp_id ` set (d_probes d)"

lemma find_SomeD: "find P xs = Some x \<Longrightarrow> x \<in> set xs \<and> P x"
  by (induction xs) (auto split: if_splits)

lemma forget_found:
  assumes core: "probes_core d" and found: "find (\<lambda>p. f p = a) (d_probes d) = Some lp"
    and f: "distinct (map f (d_probes d))"
  shows "d_probes (forget_probe (\<lambda>p. f p = a) lp d) = filter (\<lambda>p. f p \<noteq> a) (d_probes d)"
    and "probes_core (forget_probe (\<lambda>p. f p = a) lp d)"
proof -
  let ?d' = "forget_probe (\<lambda>p. f p = a) lp d"
  show eq: "d_probes ?d' = filter (\<lambda>p. f p \<noteq> a) (d_probes d)"
    by (simp add: erase_first_unique [OF f])
  from find_SomeD [OF found] have lp: "lp \<in> set (d_probes d)" "f lp = a" by simp_all
  have uniq: "f p = a \<longleftrightarrow> lp_id p = lp_id lp" if "p \<in> set (d_probes d)" for p
    using that lp f core unfolding probes_core_def distinct_map by (metis inj_onD)
  have "dom (map_find (ld_probe_handles (d_loader ?d'))) = lp_id ` set (d_probes d) - {lp_id lp}"
    using core by (simp add: probe_loader.unload_held probes_core_def)
  also have "\<dots> = lp_id ` set (d_probes ?d')" unfolding eq using uniq by auto
  finally show "probes_core ?d'"
    using core eq by (simp add: probes_core_def loader_inv_unload distinct_map_filter)
qed

lemma forget_dropped_core:
  "probes_core d \<Longrightarrow>
     probes_core (forget_dropped ps d)
     \<and> d_probes (forget_dropped ps d) = filter (\<lambda>p. lp_probe p \<notin> set ps) (d_probes d)"
proof (induction ps d rule: forget_dropped.induct)
  case (2 dead ps d)
  show ?case
  proof (cases "find (\<lambda>p. lp_probe p = dead) (d_probes d)")
    case None
    then have "filter (\<lambda>p. lp_probe p \<notin> set (dead # ps)) (d_probes d)
        = filter (\<lambda>p. lp_probe p \<notin> set ps) (d_probes d)"
      by (intro filter_cong) (auto simp: find_None_iff)
    with None 2 show ?thesis by simp
  next
    case (Some lp)
    have ptr: "distinct (map lp_probe (d_probes d))" using 2 by (simp add: probes_core_def)
    note ff = forget_found [OF 2(3) Some ptr]
    from 2(2) [OF Some ff(2)] ff(1) Some show ?thesis
      by (auto simp: conj_commute)
  qed
qed simp

lemma probes_inv_core: "daemon_inv d \<Longrightarrow> probes_core d"
  by (simp add: daemon_inv_def probes_inv_def probes_core_def)

lemma remove_probe_inv:
  assumes inv: "daemon_inv d"
  shows "daemon_inv (remove_probe env i d)"
    and "d_probes (remove_probe env i d) =
      filter (\<lambda>p. lp_id p \<noteq> i \<and> (i \<in> lp_id ` set (d_probes d) \<longrightarrow> en_armable env (lp_probe p))) (d_probes d)"
proof -
  let ?keep = "\<lambda>p. lp_id p \<noteq> i \<and> (i \<in> lp_id ` set (d_probes d) \<longrightarrow> en_armable env (lp_probe p))"
  have core: "probes_core d" by (rule probes_inv_core [OF inv])
  have p: "probes_inv d" and s: "sinks_inv d" using inv by (auto simp: daemon_inv_def)
  have "daemon_inv (remove_probe env i d) \<and> d_probes (remove_probe env i d) = filter ?keep (d_probes d)"
  proof (cases "find (\<lambda>p. lp_id p = i) (d_probes d)")
    case None
    then have "d_probes d = filter ?keep (d_probes d)"
      by (auto simp: find_None_iff intro!: filter_True [symmetric])
    with None inv show ?thesis by (simp add: remove_probe_def)
  next
    case (Some lp)
    from find_SomeD [OF Some] have lp: "lp \<in> set (d_probes d)" "lp_id lp = i" by simp_all
    obtain dropped el where r: "loop_remove (en_armable env) (lp_probe lp) (d_loop d) = (dropped, el)"
      by (metis prod.exhaust)
    have bound: "lp_probe lp \<in> b_probe ` set (el_bindings (d_loop d))"
    proof -
      have "binding_of lp \<in> set (el_bindings (d_loop d))" using lp(1) p by (auto simp: probes_inv_def)
      then show ?thesis by (force simp: binding_of_def)
    qed
    have linv: "loop_inv (d_loop d)" using p by (simp add: probes_inv_def)
    let ?A = "\<lambda>b. en_armable env (b_probe b)"
    have el: "el_bindings el = filter ?A (filter (\<lambda>b. b_probe b \<noteq> lp_probe lp) (el_bindings (d_loop d)))"
      and dropped: "set dropped = {b_probe b |b. b \<in> set (el_bindings (d_loop d))
        \<and> b_probe b \<noteq> lp_probe lp \<and> \<not> ?A b}"
      using r bound by (auto simp: loop_remove_eq [OF linv] Let_def comp_def)
    have linv': "loop_inv el"
      using linv r by (metis loop_step.removes loop_sys.step_inv)
    let ?d1 = "d\<lparr>d_loop := el\<rparr>"
    let ?d2 = "forget_probe (\<lambda>p. lp_id p = i) lp ?d1"
    let ?d3 = "forget_dropped dropped ?d2"
    have core1: "probes_core ?d1" using core by (simp add: probes_core_def)
    have ids: "distinct (map lp_id (d_probes ?d1))" using core by (simp add: probes_core_def)
    have found1: "find (\<lambda>p. lp_id p = i) (d_probes ?d1) = Some lp" using Some by simp
    note ff = forget_found [OF core1 found1 ids]
    note fd = forget_dropped_core [OF ff(2), of dropped]
    have eq: "remove_probe env i d = ?d3" using Some r by (simp add: remove_probe_def)
    have probes: "d_probes ?d3 = filter (\<lambda>p. lp_probe p \<notin> set dropped) (filter (\<lambda>p. lp_id p \<noteq> i) (d_probes d))"
      using fd ff(1) by simp
    have other: "lp_probe q \<noteq> lp_probe lp \<longleftrightarrow> lp_id q \<noteq> i" if "q \<in> set (d_probes d)" for q
      using that lp core unfolding probes_core_def distinct_map by (metis inj_onD)
    have "set (el_bindings el) \<subseteq> binding_of ` set (d_probes ?d3) \<union> watcher_binding ` set_option (d_watcher d)"
    proof
      fix b assume b: "b \<in> set (el_bindings el)"
      then have b': "b \<in> set (el_bindings (d_loop d))" "b_probe b \<noteq> lp_probe lp" "?A b"
        by (auto simp: el)
      then consider q where "q \<in> set (d_probes d)" "b = binding_of q"
        | "b \<in> watcher_binding ` set_option (d_watcher d)"
        using p by (auto simp: probes_inv_def)
      then show "b \<in> binding_of ` set (d_probes ?d3) \<union> watcher_binding ` set_option (d_watcher d)"
      proof cases
        case 1
        then have "q \<in> set (d_probes ?d3)"
          using b' other [of q] by (auto simp: probes dropped binding_of_def)
        with 1 show ?thesis by blast
      qed simp
    qed
    moreover have "binding_of ` set (d_probes ?d3) \<subseteq> set (el_bindings el)"
    proof
      fix b assume "b \<in> binding_of ` set (d_probes ?d3)"
      then obtain q where q: "b = binding_of q" "q \<in> set (d_probes d)" "lp_id q \<noteq> i"
        "lp_probe q \<notin> set dropped" by (auto simp: probes)
      then have "b \<in> set (el_bindings (d_loop d))" using p by (auto simp: probes_inv_def)
      with q other [of q] show "b \<in> set (el_bindings el)"
        by (auto simp: el dropped binding_of_def)
    qed
    moreover have "d_loop ?d3 = el" by simp
    ultimately have "probes_inv ?d3"
      using fd p linv' ids unfolding probes_inv_def probes_core_def
      by (simp add: probes erase_first_unique)
    moreover have "sinks_inv ?d3"
      by (rule sinks_inv_cong [OF _ _ _ _ s]) simp_all
    ultimately have "daemon_inv ?d3" using fd by (simp add: daemon_inv_def probes_core_def)
    moreover have "d_probes ?d3 = filter ?keep (d_probes d)"
      unfolding probes filter_filter
    proof (rule filter_cong [OF refl])
      fix q assume q: "q \<in> set (d_probes d)"
      then have "binding_of q \<in> set (el_bindings (d_loop d))" using p by (auto simp: probes_inv_def)
      then have "lp_probe q \<in> set dropped \<longleftrightarrow> lp_id q \<noteq> i \<and> \<not> en_armable env (lp_probe q)"
        using other [OF q] by (force simp: dropped binding_of_def)
      then show "lp_id q \<noteq> i \<and> lp_probe q \<notin> set dropped \<longleftrightarrow> ?keep q"
        using lp by blast
    qed
    ultimately show ?thesis by (simp add: eq)
  qed
  then show "daemon_inv (remove_probe env i d)"
    and "d_probes (remove_probe env i d) = filter ?keep (d_probes d)" by simp_all
qed

lemma add_probe_probes:
  "d_probes (add_probe env i c d) = d_probes d
   \<or> (\<exists>lp. d_probes (add_probe env i c d) = d_probes d @ [lp] \<and> lp_id lp = i)"
  by (auto simp: add_probe_def Let_def split: prod.split option.split)

lemma add_probe_fresh: "d_fresh d \<le> d_fresh (add_probe env i c d)"
  by (auto simp: add_probe_def Let_def split: prod.split option.split)

lemma loop_inv_fresh:
  "probes_inv d \<Longrightarrow> b \<in> set (el_bindings (d_loop d)) \<Longrightarrow> b_probe b < d_fresh d"
proof -
  assume p: "probes_inv d" and b: "b \<in> set (el_bindings (d_loop d))"
  then consider q where "q \<in> set (d_probes d)" "b = binding_of q"
    | w where "d_watcher d = Some w" "b = watcher_binding w"
    by (fastforce simp: probes_inv_def dest!: subsetD)
  then show "b_probe b < d_fresh d"
    using p by cases (auto simp: probes_inv_def binding_of_def watcher_binding_def)
qed

text \<open>Binding a probe at a fresh address: what the loop holds afterwards.\<close>

lemma loop_add_fresh:
  assumes "probes_inv d" and "d_fresh d \<le> p"
    and "loop_add ring_fd armable p out (d_loop d) = (ok, el)" and "0 \<le> ring_fd p"
  shows "loop_inv el \<and> ok = armable p
    \<and> el_bindings el = el_bindings (d_loop d) @ (if ok then [\<lparr>b_probe = p, b_out = out\<rparr>] else [])"
proof -
  have inv: "loop_inv (d_loop d)" using assms(1) by (simp add: probes_inv_def)
  have "p \<notin> b_probe ` set (el_bindings (d_loop d))"
    using loop_inv_fresh [OF assms(1)] assms(2) by fastforce
  then have "loop_inv el"
    using loop_step.adds assms(3) loop_sys.step_inv inv by metis
  with assms(3,4) show ?thesis by (auto simp: loop_add_eq [OF inv] Let_def)
qed

lemma add_probe_inv:
  assumes inv: "daemon_inv d" and new: "i \<notin> lp_id ` set (d_probes d)" and rings: "rings_ok env"
  shows "daemon_inv (add_probe env i c d)"
proof -
  let ?ld = "load_probe (en_disk env) i (plugin_of i c) c (d_loader d)"
  have s: "sinks_inv d" and l: "loader_inv (d_loader d)" and p: "probes_inv d"
    using inv by (auto simp: daemon_inv_def)
  have held: "i \<notin> dom (map_find (ld_probe_handles (d_loader d)))"
    using p new by (simp add: probes_inv_def)
  have sinks: "sinks_inv (add_probe env i c d)"
    by (rule sinks_inv_cong [OF _ _ add_probe_fresh _ s]) simp_all
  obtain r l' where ld: "?ld = (r, l')" by (cases ?ld)
  have l': "loader_inv l'" using probe_loader.load_good [OF l held, of "en_disk env" "plugin_of i c" c] ld by simp
  show ?thesis
  proof (cases r)
    case None
    with ld have eq: "add_probe env i c d = d\<lparr>d_loader := l'\<rparr>" by (simp add: add_probe_def)
    have "probes_inv (d\<lparr>d_loader := l'\<rparr>)"
      using p probe_loader.load_NoneD [of "en_disk env" i] ld None by (simp add: probes_inv_def)
    with sinks l' show ?thesis by (simp add: eq daemon_inv_def)
  next
    case (Some h)
    have dom': "dom (map_find (ld_probe_handles l')) = insert i (lp_id ` set (d_probes d))"
      using probe_loader.load_SomeD ld Some p by (metis probes_inv_def)
    have undone: "dom (map_find (ld_probe_handles (unload_probe i l'))) = lp_id ` set (d_probes d)"
      using new by (auto simp: probe_loader.unload_held dom')
    have l'': "loader_inv (unload_probe i l')" by (rule loader_inv_unload [OF l'])
    let ?p = "d_fresh d"
    show ?thesis
    proof (cases "comes_up env ?p")
      case False
      then have eq: "add_probe env i c d = log_calls [Probe_Destroy ?p, Unload_Probe i]
          ((log_calls [Probe_Made i ?p] d)\<lparr>d_loader := unload_probe i l', d_fresh := d_fresh d + 1\<rparr>)"
        using ld Some by (simp add: add_probe_def Let_def)
      have "probes_inv (add_probe env i c d)"
        using p undone unfolding eq by (auto simp: probes_inv_def less_SucI)
      with sinks l'' show ?thesis by (simp add: daemon_inv_def eq)
    next
      case True
      with rings have fd: "0 \<le> en_ring_fd env ?p" by (simp add: rings_ok_def)
      obtain ok el where a: "loop_add (en_ring_fd env) (en_armable env) ?p (Suc ?p) (d_loop d) = (ok, el)"
        by (metis prod.exhaust)
      note la = loop_add_fresh [OF p order_refl a fd]
      show ?thesis
      proof (cases ok)
        case False
        then have eq: "add_probe env i c d = log_calls [Probe_Detach ?p, Probe_Destroy ?p, Unload_Probe i]
            ((log_calls [Probe_Made i ?p] d)\<lparr>d_loader := unload_probe i l', d_fresh := d_fresh d + 2, d_loop := el\<rparr>)"
          using ld Some a True by (simp add: add_probe_def Let_def)
        have "probes_inv (add_probe env i c d)"
          using p undone la False unfolding eq by (auto simp: probes_inv_def less_SucI)
        with sinks l'' show ?thesis by (simp add: daemon_inv_def eq)
      next
        case ok: True
        let ?lp = "\<lparr>lp_id = i, lp_probe = ?p, lp_emitter = Suc ?p, lp_handler = h\<rparr>"
        have eq: "add_probe env i c d =
            (log_calls [Probe_Made i ?p] d)\<lparr>d_loader := l', d_fresh := d_fresh d + 2, d_loop := el,
              d_probes := d_probes d @ [?lp]\<rparr>"
          using ld Some a True ok by (simp add: add_probe_def Let_def)
        have "?p \<notin> lp_probe ` set (d_probes d)" and "d_watcher d \<noteq> Some ?p"
          using p by (auto simp: probes_inv_def)
        then have "probes_inv (add_probe env i c d)"
          using p dom' la ok new unfolding eq by (auto simp: probes_inv_def less_SucI binding_of_def)
        with sinks l' show ?thesis by (simp add: daemon_inv_def eq)
      qed
    qed
  qed
qed

lemma start_watcher_inv:
  assumes inv: "daemon_inv d" and none: "d_watcher d = None" and rings: "rings_ok env"
    and start: "start_cgroup_watcher env d = (ok, d')"
  shows "daemon_inv d' \<and> ok = (comes_up env (d_fresh d) \<and> en_armable env (d_fresh d))
    \<and> (if ok then d_watcher d' = Some (d_fresh d) \<and> watcher_binding (d_fresh d) \<in> set (el_bindings (d_loop d'))
       else d_watcher d' = None)"
proof -
  let ?w = "d_fresh d"
  have s: "sinks_inv d" and l: "loader_inv (d_loader d)" and p: "probes_inv d"
    using inv by (auto simp: daemon_inv_def)
  show ?thesis
  proof (cases "comes_up env ?w")
    case False
    then have eq: "ok = False" "d' = log_calls [Probe_Destroy ?w]
        ((log_calls [Watcher_Made ?w] d)\<lparr>d_fresh := d_fresh d + 1, d_watcher := None\<rparr>)"
      using start by (auto simp: start_cgroup_watcher_def Let_def)
    have "probes_inv d'" using p none unfolding eq by (auto simp: probes_inv_def less_SucI)
    moreover have "sinks_inv d'" by (rule sinks_inv_cong [OF _ _ _ _ s]) (simp_all add: eq)
    ultimately show ?thesis using l False by (simp add: eq daemon_inv_def)
  next
    case True
    with rings have fd: "0 \<le> en_ring_fd env ?w" by (simp add: rings_ok_def)
    obtain ok' el where a: "loop_add (en_ring_fd env) (en_armable env) ?w pipeline_emitter (d_loop d) = (ok', el)"
      by (metis prod.exhaust)
    note la = loop_add_fresh [OF p order_refl a fd]
    have sinks: "sinks_inv d'"
      by (rule sinks_inv_cong [OF _ _ _ _ s])
        (use start a True in \<open>auto simp: start_cgroup_watcher_def Let_def split: if_splits\<close>)
    have loader: "d_loader d' = d_loader d"
      using start a True by (auto simp: start_cgroup_watcher_def Let_def split: if_splits)
    show ?thesis
    proof (cases ok')
      case False
      then have eq: "ok = False" "d' = log_calls [Probe_Detach ?w, Probe_Destroy ?w]
          ((log_calls [Watcher_Made ?w] d)\<lparr>d_fresh := d_fresh d + 1, d_loop := el, d_watcher := None\<rparr>)"
        using start a True by (auto simp: start_cgroup_watcher_def Let_def)
      have "probes_inv d'" using p none la False unfolding eq by (auto simp: probes_inv_def less_SucI)
      with sinks loader l la False show ?thesis by (simp add: daemon_inv_def eq)
    next
      case ok': True
      then have eq: "ok = True" "d' = (log_calls [Watcher_Made ?w] d)\<lparr>d_fresh := d_fresh d + 1, d_loop := el, d_watcher := Some ?w\<rparr>"
        using start a True by (auto simp: start_cgroup_watcher_def Let_def)
      have "probes_inv d'"
        using p none la ok' unfolding eq by (auto simp: probes_inv_def less_SucI watcher_binding_def)
      with sinks loader l la ok' True show ?thesis by (simp add: daemon_inv_def eq watcher_binding_def)
    qed
  qed
qed

section \<open>Reload\<close>

lemma fold_frame: "(\<And>x d. g (f x d) = g d) \<Longrightarrow> g (fold f xs d) = g d"
  by (induction xs arbitrary: d) simp_all

lemma fold_remove_sink:
  "daemon_inv d \<Longrightarrow>
     daemon_inv (fold remove_sink is d)
     \<and> d_sinks (fold remove_sink is d) = filter (\<lambda>s. ls_id s \<notin> set is) (d_sinks d)"
proof (induction "is" arbitrary: d)
  case (Cons i "is")
  have "d_sinks (remove_sink i d) = filter (\<lambda>s. ls_id s \<noteq> i) (d_sinks d)"
    using Cons.prems by (simp add: remove_sink_sinks daemon_inv_def)
  with Cons.IH [OF remove_sink_inv [OF Cons.prems, of i]] show ?case by (simp add: conj_commute)
qed simp

text \<open>Whether the sink plugin of an instance loads does not depend on what is loaded already.\<close>

definition sink_loads :: "daemon_env \<Rightarrow> string \<Rightarrow> string \<Rightarrow> component_config \<Rightarrow> bool" where
  "sink_loads env dir i c \<longleftrightarrow>
     fst (load_sink (en_disk env) i (plugin_of i c) c (new_loader dir)) \<noteq> None"

lemma load_sink_loads:
  "fst (load_sink (en_disk env) i (plugin_of i c) c l) = None \<longleftrightarrow> \<not> sink_loads env (ld_plugin_dir l) i c"
  by (auto simp: sink_loads_def load_sink_def open_plugin_def new_loader_def Let_def split: option.splits)

lemma plugin_dir_frame [simp]:
  "ld_plugin_dir (d_loader (add_sink env i c d)) = ld_plugin_dir (d_loader d)"
  "ld_plugin_dir (d_loader (remove_sink i d)) = ld_plugin_dir (d_loader d)"
  by (auto simp: add_sink_sinks(2) load_sink_def open_plugin_def remove_sink_def unload_sink_def
      close_handle_def Let_def split: option.split)

lemma fold_remove_sink_dir [simp]:
  "ld_plugin_dir (d_loader (fold remove_sink is d)) = ld_plugin_dir (d_loader d)"
  by (induction "is" arbitrary: d) simp_all

lemma fold_add_sink:
  "daemon_inv d \<Longrightarrow> distinct is \<Longrightarrow> set is \<inter> ls_id ` set (d_sinks d) = {} \<Longrightarrow>
     daemon_inv (fold (\<lambda>i. add_sink env i (c i)) is d)
     \<and> (\<exists>new. d_sinks (fold (\<lambda>i. add_sink env i (c i)) is d) = d_sinks d @ new
           \<and> map ls_id new = filter (\<lambda>i. sink_loads env (ld_plugin_dir (d_loader d)) i (c i)) is)"
proof (induction "is" arbitrary: d)
  case (Cons i "is")
  let ?d = "add_sink env i (c i) d" and ?l = "\<lambda>i. sink_loads env (ld_plugin_dir (d_loader d)) i (c i)"
  have inv: "daemon_inv ?d" by (rule add_sink_inv) (use Cons.prems in auto)
  obtain new where new: "d_sinks ?d = d_sinks d @ new" "map ls_id new = filter ?l [i]"
    using add_sink_sinks(1) [of env i "c i" d] load_sink_loads [of env i "c i" "d_loader d"]
    by (cases "?l i") auto
  then have "ls_id ` set new \<subseteq> {i}" by (cases "?l i") auto
  then have "set is \<inter> ls_id ` set (d_sinks ?d) = {}" using Cons.prems(2,3) new(1) by auto
  then obtain more_new where "daemon_inv (fold (\<lambda>i. add_sink env i (c i)) is ?d)"
    "d_sinks (fold (\<lambda>i. add_sink env i (c i)) is ?d) = d_sinks ?d @ more_new"
    "map ls_id more_new = filter ?l is"
    using Cons.IH [OF inv] Cons.prems(2) by auto
  with new show ?case by (intro conjI exI [of _ "new @ more_new"]) (simp_all split: if_splits)
qed simp

lemma fold_remove_probe:
  "daemon_inv d \<Longrightarrow>
     daemon_inv (fold (remove_probe env) is d)
     \<and> d_probes (fold (remove_probe env) is d) =
         filter (\<lambda>p. lp_id p \<notin> set is \<and> (set is \<inter> lp_id ` set (d_probes d) \<noteq> {} \<longrightarrow> en_armable env (lp_probe p)))
           (d_probes d)"
proof (induction "is" arbitrary: d)
  case (Cons i "is")
  let ?d = "remove_probe env i d" and ?on = "i \<in> lp_id ` set (d_probes d)"
  note rp = remove_probe_inv [OF Cons.prems, of env i]
  from Cons.IH [OF rp(1)] have inv: "daemon_inv (fold (remove_probe env) is ?d)"
    and ps: "d_probes (fold (remove_probe env) is ?d) =
      filter (\<lambda>p. lp_id p \<notin> set is \<and> (set is \<inter> lp_id ` set (d_probes ?d) \<noteq> {} \<longrightarrow> en_armable env (lp_probe p)))
        (d_probes ?d)" by blast+
  have "d_probes (fold (remove_probe env) (i # is) d) =
      filter (\<lambda>p. lp_id p \<notin> set (i # is)
        \<and> (set (i # is) \<inter> lp_id ` set (d_probes d) \<noteq> {} \<longrightarrow> en_armable env (lp_probe p))) (d_probes d)"
  proof (cases ?on)
    case True
    then show ?thesis by (simp add: ps rp(2)) (rule filter_cong; auto)
  next
    case False
    then have "d_probes ?d = d_probes d" using rp(2) by (auto intro!: filter_True)
    with False show ?thesis by (simp add: ps) (rule filter_cong; auto)
  qed
  with inv show ?case by simp
qed simp

lemma fold_add_probe:
  "daemon_inv d \<Longrightarrow> rings_ok env \<Longrightarrow> distinct is \<Longrightarrow> set is \<inter> lp_id ` set (d_probes d) = {} \<Longrightarrow>
     daemon_inv (fold (\<lambda>i. add_probe env i (c i)) is d)
     \<and> (\<exists>new. d_probes (fold (\<lambda>i. add_probe env i (c i)) is d) = d_probes d @ new \<and> lp_id ` set new \<subseteq> set is)"
proof (induction "is" arbitrary: d)
  case (Cons i "is")
  let ?d = "add_probe env i (c i) d"
  have inv: "daemon_inv ?d" by (rule add_probe_inv) (use Cons.prems in auto)
  obtain new where new: "d_probes ?d = d_probes d @ new" "lp_id ` set new \<subseteq> {i}"
    using add_probe_probes [of env i "c i" d] by fastforce
  have "set is \<inter> lp_id ` set (d_probes ?d) = {}" using Cons.prems(3,4) new by auto
  with Cons.IH [OF inv Cons.prems(2)] Cons.prems(3) new show ?case by fastforce
qed simp

text \<open>The invariant of a started daemon: it runs configured instances only.\<close>

definition running_inv :: "daemon \<Rightarrow> bool" where
  "running_inv d \<longleftrightarrow>
     daemon_inv d \<and> config_ok (d_config d)
     \<and> ls_id ` set (d_sinks d) \<subseteq> set (map_keys (cfg_sinks (d_config d)))
     \<and> lp_id ` set (d_probes d) \<subseteq> set (map_keys (cfg_probes (d_config d)))"

lemma reload_applied:
  assumes inv: "running_inv d" and path: "d_config_path d \<noteq> []"
    and ok: "config_ok nxt" and diff: "diff_for_reload (d_config d) nxt = Some diff"
    and rings: "rings_ok env"
  shows "running_inv (reload_config env (Inr nxt) d)
    \<and> cfg_sinks (d_config (reload_config env (Inr nxt) d)) = cfg_sinks nxt
    \<and> cfg_probes (d_config (reload_config env (Inr nxt) d)) = cfg_probes nxt
    \<and> (\<exists>new. d_sinks (reload_config env (Inr nxt) d) =
         filter (\<lambda>s. same_plugin (cfg_sinks (d_config d)) (cfg_sinks nxt) (ls_id s)) (d_sinks d) @ new
         \<and> map ls_id new = filter (\<lambda>i. sink_loads env (ld_plugin_dir (d_loader d)) i
               (the (map_find (cfg_sinks nxt) i))) (added_sinks diff))
    \<and> (\<exists>new. d_probes (reload_config env (Inr nxt) d) =
         filter (\<lambda>p. same_plugin (cfg_probes (d_config d)) (cfg_probes nxt) (lp_id p)
           \<and> ((\<exists>q \<in> set (d_probes d). \<not> same_plugin (cfg_probes (d_config d)) (cfg_probes nxt) (lp_id q))
                \<longrightarrow> en_armable env (lp_probe p))) (d_probes d) @ new
         \<and> lp_id ` set new \<subseteq> set (added_probes diff))"
proof -
  let ?cur = "d_config d"
  have dinv: "daemon_inv d" and cok: "config_ok ?cur"
    and sub: "ls_id ` set (d_sinks d) \<subseteq> set (map_keys (cfg_sinks ?cur))"
      "lp_id ` set (d_probes d) \<subseteq> set (map_keys (cfg_probes ?cur))"
    using inv by (auto simp: running_inv_def)
  note dp = reload_diff_sound(1) [OF diff cok ok] and ds = reload_diff_sound(2) [OF diff cok ok]
  define d1 where "d1 = fold remove_sink (removed_sinks diff) d"
  define d2 where "d2 = fold (\<lambda>i. add_sink env i (the (map_find (cfg_sinks nxt) i))) (added_sinks diff) d1"
  define d3 where "d3 = fold (remove_probe env) (removed_probes diff) d2"
  define d4 where "d4 = fold (\<lambda>i. add_probe env i (the (map_find (cfg_probes nxt) i))) (added_probes diff) d3"
  have d': "reload_config env (Inr nxt) d =
      d4\<lparr>d_config := (d_config d4)\<lparr>cfg_sinks := cfg_sinks nxt, cfg_probes := cfg_probes nxt\<rparr>\<rparr>"
    using path diff by (simp add: reload_config_def d1_def d2_def d3_def d4_def Let_def)
  have cfg: "d_config d4 = ?cur"
    by (simp add: d4_def d3_def d2_def d1_def fold_frame [where g = d_config])
  have pr: "d_probes d2 = d_probes d"
    by (simp add: d2_def d1_def fold_frame [where g = d_probes])
  have sk: "d_sinks d4 = d_sinks d2"
    by (simp add: d4_def d3_def fold_frame [where g = d_sinks])
  have i1: "daemon_inv d1" and s1: "d_sinks d1 = filter (\<lambda>s. ls_id s \<notin> set (removed_sinks diff)) (d_sinks d)"
    using fold_remove_sink [OF dinv] by (simp_all add: d1_def)
  have keep: "ls_id s \<notin> set (removed_sinks diff) \<longleftrightarrow> same_plugin (cfg_sinks ?cur) (cfg_sinks nxt) (ls_id s)"
    if "s \<in> set (d_sinks d)" for s
    using ds sub(1) that unfolding diff_sound_def by blast
  have s1': "d_sinks d1 = filter (\<lambda>s. same_plugin (cfg_sinks ?cur) (cfg_sinks nxt) (ls_id s)) (d_sinks d)"
    unfolding s1 by (rule filter_cong) (simp_all add: keep)
  have "set (added_sinks diff) \<inter> ls_id ` set (d_sinks d1) = {}"
    using ds sub(1) unfolding s1 diff_sound_def by auto
  from fold_add_sink [OF i1 _ this, of env "\<lambda>i. the (map_find (cfg_sinks nxt) i)", folded d2_def] ds
  obtain news where i2: "daemon_inv d2" and s2: "d_sinks d2 = d_sinks d1 @ news"
    and news: "map ls_id news = filter (\<lambda>i. sink_loads env (ld_plugin_dir (d_loader d)) i
        (the (map_find (cfg_sinks nxt) i))) (added_sinks diff)"
    by (auto simp: diff_sound_def d1_def)
  have newset: "ls_id ` set news \<subseteq> set (added_sinks diff)"
    using arg_cong [OF news, of set] by auto
  let ?arm = "\<lambda>p. set (removed_probes diff) \<inter> lp_id ` set (d_probes d) \<noteq> {} \<longrightarrow> en_armable env (lp_probe p)"
  have i3: "daemon_inv d3"
    and p3: "d_probes d3 = filter (\<lambda>p. lp_id p \<notin> set (removed_probes diff) \<and> ?arm p) (d_probes d)"
    using fold_remove_probe [OF i2, of env "removed_probes diff"] pr unfolding d3_def by auto
  have keepp: "lp_id p \<notin> set (removed_probes diff) \<longleftrightarrow> same_plugin (cfg_probes ?cur) (cfg_probes nxt) (lp_id p)"
    if "p \<in> set (d_probes d)" for p
    using dp sub(2) that unfolding diff_sound_def by blast
  have arm: "set (removed_probes diff) \<inter> lp_id ` set (d_probes d) \<noteq> {} \<longleftrightarrow>
      (\<exists>q \<in> set (d_probes d). \<not> same_plugin (cfg_probes ?cur) (cfg_probes nxt) (lp_id q))"
    using keepp by blast
  have p3': "d_probes d3 = filter (\<lambda>p. same_plugin (cfg_probes ?cur) (cfg_probes nxt) (lp_id p)
      \<and> ((\<exists>q \<in> set (d_probes d). \<not> same_plugin (cfg_probes ?cur) (cfg_probes nxt) (lp_id q))
           \<longrightarrow> en_armable env (lp_probe p))) (d_probes d)"
    unfolding p3 arm by (rule filter_cong) (simp_all add: keepp)
  have "set (added_probes diff) \<inter> lp_id ` set (d_probes d3) = {}"
    using dp sub(2) unfolding p3 diff_sound_def by auto
  from fold_add_probe [OF i3 rings _ this, of "\<lambda>i. the (map_find (cfg_probes nxt) i)", folded d4_def] dp
  obtain newp where i4: "daemon_inv d4" and p4: "d_probes d4 = d_probes d3 @ newp"
    "lp_id ` set newp \<subseteq> set (added_probes diff)"
    by (auto simp: diff_sound_def)
  have "ls_id ` set (d_sinks d4) \<subseteq> set (map_keys (cfg_sinks nxt))"
    using ds s2 newset sub(1) unfolding sk s1 diff_sound_def by auto
  moreover have "lp_id ` set (d_probes d4) \<subseteq> set (map_keys (cfg_probes nxt))"
    using dp p4 sub(2) unfolding p3 diff_sound_def by auto
  moreover have "daemon_inv (reload_config env (Inr nxt) d)"
    using i4 unfolding d' by (simp add: daemon_inv_def sinks_inv_def probes_inv_def)
  ultimately have "running_inv (reload_config env (Inr nxt) d)"
    using ok cok unfolding d' by (simp add: running_inv_def config_ok_def)
  moreover have sinks: "d_sinks (reload_config env (Inr nxt) d) = d_sinks d2"
    and probes: "d_probes (reload_config env (Inr nxt) d) = d_probes d4"
    and "cfg_sinks (d_config (reload_config env (Inr nxt) d)) = cfg_sinks nxt"
    and "cfg_probes (d_config (reload_config env (Inr nxt) d)) = cfg_probes nxt"
    unfolding d' by (simp_all add: sk)
  ultimately show ?thesis
    using s2 news p4 unfolding s1' p3'
    by (intro conjI exI [of _ news] exI [of _ newp]) simp_all
qed

section \<open>The main loop keeps the invariant\<close>

lemma running_inv_cong:
  assumes "d_config d' = d_config d" and "d_loader d' = d_loader d" and "d_sinks d' = d_sinks d"
    and "d_probes d' = d_probes d" and "d_watcher d' = d_watcher d" and "d_loop d' = d_loop d"
    and "d_fresh d' = d_fresh d"
    and "\<And>p'. d_pipeline d' = Some p' \<Longrightarrow> \<exists>p. d_pipeline d = Some p \<and> pl_sinks p' = pl_sinks p"
  shows "running_inv d \<Longrightarrow> running_inv d'"
  using assms unfolding running_inv_def daemon_inv_def sinks_inv_def probes_inv_def by metis

lemma emit_sinks:
  "pipeline_emit offset pw r p res = ((p', calls), res') \<Longrightarrow> pl_sinks p' = pl_sinks p"
  using step_frame(2) [of offset "Emit pw r" "(p, res)"] by (simp split: prod.splits)

lemma instance_emit_inv: "running_inv d \<Longrightarrow> running_inv (instance_emit offset pw i r d)"
  by (rule running_inv_cong [of _ d])
    (auto simp: instance_emit_def Let_def dest: emit_sinks split: option.splits prod.splits)

lemma dispatch_inv: "running_inv d \<Longrightarrow> running_inv (dispatch offset pw ev d)"
proof -
  assume inv: "running_inv d"
  have "running_inv (d\<lparr>d_resolver := x\<rparr>)" for x
    by (rule running_inv_cong [OF _ _ _ _ _ _ _ _ inv]) simp_all
  with inv instance_emit_inv [OF inv] show ?thesis
    by (auto simp: dispatch_def split: prod.splits option.splits)
qed

lemma on_pipeline_inv:
  assumes "running_inv d" and "\<And>p. pl_sinks (fst (f p)) = pl_sinks p"
  shows "running_inv (on_pipeline f d)"
  by (rule running_inv_cong [OF _ _ _ _ _ _ _ _ assms(1)])
    (use assms(2) in \<open>auto simp: on_pipeline_def split: option.splits prod.splits; metis fst_conv\<close>)+

lemma tick_sinks [simp]: "pl_sinks (fst (pipeline_tick now p)) = pl_sinks p"
  by (simp add: pipeline_tick_def ship_def)

lemma flush_sinks [simp]: "pl_sinks (fst (pipeline_flush now p)) = pl_sinks p"
  by (simp add: pipeline_flush_def ship_def)

text \<open>What the daemon may assume of a reload: rings that work, and a parsed file.\<close>

definition reload_ok :: "tick_input \<Rightarrow> bool" where
  "reload_ok inp \<longleftrightarrow>
     (case ti_reload inp of
        None \<Rightarrow> True
      | Some (env, Inl err) \<Rightarrow> True
      | Some (env, Inr c) \<Rightarrow> rings_ok env \<and> config_ok c)"

lemma reload_inv:
  assumes "running_inv d" and "rings_ok env \<and> config_ok c \<or> loaded = Inl err" and "loaded = Inr c \<or> loaded = Inl err"
  shows "running_inv (reload_config env loaded d)"
proof (cases "d_config_path d = [] \<or> loaded = Inl err \<or> diff_for_reload (d_config d) c = None")
  case True
  with assms show ?thesis by (auto simp: reload_config_def)
next
  case False
  with assms reload_applied [OF assms(1), of c _ env] show ?thesis by auto
qed

lemma daemon_tick_inv:
  assumes "running_inv d" and "reload_ok inp" and "daemon_tick offset inp d = (go_on, d')"
  shows "running_inv d'"
proof -
  obtain ok events where poll: "loop_poll (ti_poll inp) (d_loop d) = (ok, events)"
    by (metis prod.exhaust)
  define d1 where "d1 = fold (dispatch offset (ti_users inp)) events d"
  have "running_inv (fold (dispatch offset (ti_users inp)) evs e)" if "running_inv e" for evs e
    using that by (induction evs arbitrary: e) (simp_all add: dispatch_inv)
  then have i1: "running_inv d1" unfolding d1_def using assms(1) by blast
  define d2 where "d2 = d1\<lparr>d_resolver := map_option (resolver_tick (ti_monotonic inp)) (d_resolver d1)\<rparr>"
  have i2: "running_inv d2"
    by (rule running_inv_cong [OF _ _ _ _ _ _ _ _ i1]) (simp_all add: d2_def)
  define d3 where "d3 = on_pipeline (pipeline_tick (ti_steady inp)) d2"
  have i3: "running_inv d3" unfolding d3_def by (rule on_pipeline_inv [OF i2]) simp
  show ?thesis
  proof (cases ok)
    case False
    with assms(3) poll have "d' = d1" by (simp add: daemon_tick_def Let_def d1_def)
    with i1 show ?thesis by simp
  next
    case True
    then have d': "d' = (case ti_reload inp of None \<Rightarrow> d3 | Some (env, loaded) \<Rightarrow> reload_config env loaded d3)"
      using assms(3) poll
      by (auto simp: daemon_tick_def Let_def d1_def d2_def d3_def split: option.splits)
    show ?thesis
    proof (cases "ti_reload inp")
      case None
      with d' i3 show ?thesis by simp
    next
      case (Some p)
      then obtain env loaded where p: "ti_reload inp = Some (env, loaded)" by (cases p) simp
      with assms(2) d' i3 reload_inv [OF i3, of env _ loaded] show ?thesis
        by (cases loaded) (auto simp: reload_ok_def)
    qed
  qed
qed

section \<open>Startup\<close>

lemma fold_pairs:
  assumes "map_ok kvs"
  shows "fold (\<lambda>(i, c). f i c) kvs d = fold (\<lambda>i. f i (the (map_find kvs i))) (map_keys kvs) d"
proof -
  have "fold (\<lambda>(i, c). f i c) kvs d = fold ((\<lambda>i. f i (the (map_find kvs i))) \<circ> fst) kvs d"
    by (rule fold_cong) (auto simp: map_ok_in_set [OF assms])
  then show ?thesis by (simp add: map_keys_def fold_map)
qed

lemma new_daemon_inv: "config_ok c \<Longrightarrow> daemon_inv (new_daemon c path)"
  by (simp add: daemon_inv_def sinks_inv_def probes_inv_def new_daemon_def new_loader_def
      loader_inv_def holders_def new_event_loop_def loop_inv_def armed_def)

text \<open>What a start that succeeds has built.\<close>

definition fully_started :: "daemon \<Rightarrow> bool" where
  "fully_started d \<longleftrightarrow>
     running_inv d \<and> d_sinks d \<noteq> [] \<and> d_probes d \<noteq> [] \<and> d_pipeline d \<noteq> None \<and> d_resolver d \<noteq> None
     \<and> (\<exists>w. d_watcher d = Some w \<and> watcher_binding w \<in> set (el_bindings (d_loop d)))"

lemma add_probe_keeps_bindings:
  "daemon_inv d \<Longrightarrow> rings_ok env \<Longrightarrow>
     set (el_bindings (d_loop d)) \<subseteq> set (el_bindings (d_loop (add_probe env i c d)))"
  by (auto simp: add_probe_def Let_def loop_add_eq daemon_inv_def probes_inv_def
      split: prod.splits option.splits if_splits)

lemma fold_add_probe_bindings:
  "daemon_inv d \<Longrightarrow> rings_ok env \<Longrightarrow> distinct is \<Longrightarrow> set is \<inter> lp_id ` set (d_probes d) = {} \<Longrightarrow>
     set (el_bindings (d_loop d)) \<subseteq> set (el_bindings (d_loop (fold (\<lambda>i. add_probe env i (c i)) is d)))"
proof (induction "is" arbitrary: d)
  case (Cons i "is")
  let ?d = "add_probe env i (c i) d"
  have inv: "daemon_inv ?d" by (rule add_probe_inv) (use Cons.prems in auto)
  have "set is \<inter> lp_id ` set (d_probes ?d) = {}"
    using Cons.prems(3,4) add_probe_probes [of env i "c i" d] by (fastforce simp: disjoint_iff)
  then have "set (el_bindings (d_loop ?d))
      \<subseteq> set (el_bindings (d_loop (fold (\<lambda>i. add_probe env i (c i)) is ?d)))"
    using Cons.IH [OF inv Cons.prems(2)] Cons.prems(3) by simp
  with add_probe_keeps_bindings [OF Cons.prems(1,2), of i "c i"] show ?case by simp
qed simp

lemma start_components_True:
  assumes inv: "daemon_inv d" and cok: "config_ok (d_config d)" and rings: "rings_ok env"
    and fresh: "d_watcher d = None" "d_pipeline d = None" "d_sinks d = []" "d_probes d = []"
    and res: "d_resolver d \<noteq> None"
    and start: "start_components env now d = Some (True, d')"
  shows "fully_started d' \<and> map ls_id (d_sinks d') =
    [i \<leftarrow> map_keys (cfg_sinks (d_config d)).
       sink_loads env (ld_plugin_dir (d_loader d)) i (the (map_find (cfg_sinks (d_config d)) i))]"
proof -
  let ?sinks = "cfg_sinks (d_config d)" and ?probes = "cfg_probes (d_config d)"
  have ok: "map_ok ?sinks" "map_ok ?probes" using cok by (simp_all add: config_ok_def)
  define d1 where "d1 = fold (\<lambda>i. add_sink env i (the (map_find ?sinks i))) (map_keys ?sinks) d"
  have d1: "fold (\<lambda>(i, c). add_sink env i c) ?sinks d = d1"
    unfolding d1_def by (rule fold_pairs [OF ok(1)])
  obtain new where i1: "daemon_inv d1" and s1: "d_sinks d1 = new"
    and loaded: "map ls_id new = filter (\<lambda>i. sink_loads env (ld_plugin_dir (d_loader d)) i (the (map_find ?sinks i)))
      (map_keys ?sinks)"
    using fold_add_sink [OF inv map_ok_distinct [OF ok(1)], of env "\<lambda>i. the (map_find ?sinks i)",
        folded d1_def] fresh(3) by auto
  have sub1: "ls_id ` set new \<subseteq> set (map_keys ?sinks)" using arg_cong [OF loaded, of set] by auto
  have f1: "d_config d1 = d_config d" "d_watcher d1 = d_watcher d" "d_probes d1 = d_probes d"
    "d_resolver d1 = d_resolver d"
    unfolding d1_def
    by (simp_all add: fold_frame [where g = d_config] fold_frame [where g = d_watcher]
        fold_frame [where g = d_probes] fold_frame [where g = d_resolver])
  define d2 where "d2 = wire_sinks (d1\<lparr>d_pipeline :=
      Some (new_pipeline (pipeline_options_of (d_config d1)) [] now)\<rparr>)"
  have i2: "daemon_inv d2" and f2: "d_config d2 = d_config d" "d_watcher d2 = None" "d_probes d2 = []"
    "d_sinks d2 = d_sinks d1" "d_pipeline d2 \<noteq> None" "d_resolver d2 \<noteq> None"
    using i1 f1 fresh res unfolding d2_def
    by (auto simp: daemon_inv_def sinks_inv_def probes_inv_def set_sinks_def)
  obtain watching d3 where w: "start_cgroup_watcher env d2 = (watching, d3)" by (metis prod.exhaust)
  have f3: "d_config d3 = d_config d2" "d_probes d3 = d_probes d2" "d_sinks d3 = d_sinks d2"
    "d_pipeline d3 = d_pipeline d2" "d_resolver d3 = d_resolver d2"
    using w by (auto simp: start_cgroup_watcher_def Let_def split: if_splits prod.splits)
  note sw = start_watcher_inv [OF i2 f2(2) rings w]
  define d4 where "d4 = fold (\<lambda>i. add_probe env i (the (map_find ?probes i))) (map_keys ?probes) d3"
  have d4: "fold (\<lambda>(i, c). add_probe env i c) ?probes d3 = d4"
    unfolding d4_def by (rule fold_pairs [OF ok(2)])
  have ne: "d_sinks d1 \<noteq> []" and watching and d': "d' = d4" "d_probes d4 \<noteq> []"
    using start d4 w f2(1) f3(1)
    by (auto simp: start_components_def make_pipeline_def Let_def d1 simp flip: d2_def split: if_splits prod.splits)
  have disj: "set (map_keys ?probes) \<inter> lp_id ` set (d_probes d3) = {}" using f2 f3 by simp
  have i3: "daemon_inv d3" using sw by simp
  obtain newp where i4: "daemon_inv d4" and p4: "d_probes d4 = newp" "lp_id ` set newp \<subseteq> set (map_keys ?probes)"
    using fold_add_probe [OF i3 rings map_ok_distinct [OF ok(2)] disj, of "\<lambda>i. the (map_find ?probes i)",
        folded d4_def] f2 f3 by auto
  have f4: "d_config d4 = d_config d3" "d_watcher d4 = d_watcher d3" "d_sinks d4 = d_sinks d3"
    "d_pipeline d4 = d_pipeline d3" "d_resolver d4 = d_resolver d3"
    unfolding d4_def
    by (simp_all add: fold_frame [where g = d_config] fold_frame [where g = d_watcher]
        fold_frame [where g = d_sinks] fold_frame [where g = d_pipeline] fold_frame [where g = d_resolver])
  have "set (el_bindings (d_loop d3)) \<subseteq> set (el_bindings (d_loop d4))"
    unfolding d4_def by (rule fold_add_probe_bindings [OF i3 rings map_ok_distinct [OF ok(2)] disj])
  with sw \<open>watching\<close> f4 have "\<exists>w. d_watcher d4 = Some w \<and> watcher_binding w \<in> set (el_bindings (d_loop d4))"
    by auto
  with i4 p4 s1 sub1 loaded f1 f2 f3 f4 d' cok ne show ?thesis
    by (simp add: fully_started_def running_inv_def)
qed

definition is_start :: "daemon \<Rightarrow> bool" where
  "is_start d \<longleftrightarrow>
     (\<exists>env fs glob conf offset now c path.
        rings_ok env \<and> config_ok c
        \<and> daemon_start env fs glob conf offset now (new_daemon c path) = Some (True, d))"

lemma daemon_start_built:
  assumes rings: "rings_ok env" and cok: "config_ok c"
    and s: "daemon_start env fs glob conf offset now (new_daemon c path) = Some (True, d)"
  shows "fully_started d \<and> map ls_id (d_sinks d) =
    [i \<leftarrow> map_keys (cfg_sinks c). sink_loads env (cfg_plugin_dir c) i (the (map_find (cfg_sinks c) i))]"
proof -
  from s obtain res where sc: "start_components env now ((new_daemon c path)\<lparr>d_resolver := Some res\<rparr>) = Some (True, d)"
    by (auto simp: daemon_start_def Let_def split: if_splits option.splits prod.splits)
  let ?d = "(new_daemon c path)\<lparr>d_resolver := Some res\<rparr>"
  have "daemon_inv ?d" using new_daemon_inv [OF cok, of path]
    by (simp add: daemon_inv_def sinks_inv_def probes_inv_def)
  from start_components_True [OF this _ rings _ _ _ _ _ sc] cok show ?thesis
    by (simp add: new_daemon_def new_loader_def)
qed

lemma is_start_fully_started: "is_start d \<Longrightarrow> fully_started d"
  using daemon_start_built unfolding is_start_def by blast

text \<open>The daemon as a transition system: from a start that succeeded, one iteration at a time.\<close>

inductive daemon_step :: "daemon \<Rightarrow> daemon \<Rightarrow> bool" where
  ticks: "reload_ok inp \<Longrightarrow> daemon_tick offset inp d = (go_on, d') \<Longrightarrow> daemon_step d d'"

inductive_cases daemon_stepE: "daemon_step d d'"

interpretation daemon_sys: invariant_system is_start daemon_step running_inv
  by unfold_locales
    (auto dest: is_start_fully_started simp: fully_started_def elim!: daemon_stepE
      intro: daemon_tick_inv)

section \<open>Properties\<close>

text \<open>
  C27. A start that succeeds leaves a complete daemon: its sinks are, in order, exactly the
  configured instances whose plugin loads, and there is one; at least one probe runs; there
  is a resolver, a pipeline that writes to exactly those sinks, and a cgroup watcher bound
  to the event loop. In particular, a watcher that cannot be attached is fatal.
\<close>

theorem daemon_start_complete:
  assumes "rings_ok env" and "config_ok c"
    and "daemon_start env fs glob conf offset now (new_daemon c path) = Some (True, d)"
  shows "map ls_id (d_sinks d) =
      [i \<leftarrow> map_keys (cfg_sinks c). sink_loads env (cfg_plugin_dir c) i (the (map_find (cfg_sinks c) i))]
    \<and> d_sinks d \<noteq> [] \<and> d_probes d \<noteq> [] \<and> d_resolver d \<noteq> None
    \<and> (\<exists>p. d_pipeline d = Some p \<and> pl_sinks p = map ls_sink (d_sinks d))
    \<and> (\<exists>w. d_watcher d = Some w \<and> watcher_binding w \<in> set (el_bindings (d_loop d)))
    \<and> running_inv d"
proof -
  from daemon_start_built [OF assms] show ?thesis
    by (auto simp: fully_started_def running_inv_def daemon_inv_def sinks_inv_def)
qed

text \<open>
  C7. Over its whole life, through any polls, failures and reloads, the daemon runs each
  instance at most once and only configured ones; the loader holds exactly one reference
  per running instance; the pipeline writes to exactly the loaded sinks; and the event loop
  holds exactly the rings of the running probes, and possibly the watcher's.
\<close>

theorem daemon_consistent:
  assumes "is_start d0" and "daemon_step\<^sup>*\<^sup>* d0 d"
  shows "distinct (map ls_id (d_sinks d)) \<and> distinct (map lp_id (d_probes d))
    \<and> ls_id ` set (d_sinks d) \<subseteq> set (map_keys (cfg_sinks (d_config d)))
    \<and> lp_id ` set (d_probes d) \<subseteq> set (map_keys (cfg_probes (d_config d)))
    \<and> set (map_keys (ld_sink_handles (d_loader d))) = ls_id ` set (d_sinks d)
    \<and> set (map_keys (ld_probe_handles (d_loader d))) = lp_id ` set (d_probes d)
    \<and> (\<forall>h. ld_refs (d_loader d) h
         = holders h (ld_probe_handles (d_loader d)) + holders h (ld_sink_handles (d_loader d)))
    \<and> (case d_pipeline d of None \<Rightarrow> True | Some p \<Rightarrow> pl_sinks p = map ls_sink (d_sinks d))
    \<and> (case d_watcher d of
         None \<Rightarrow> set (el_bindings (d_loop d)) = binding_of ` set (d_probes d)
       | Some w \<Rightarrow> set (el_bindings (d_loop d)) - {watcher_binding w} \<subseteq> binding_of ` set (d_probes d)
           \<and> binding_of ` set (d_probes d) \<subseteq> set (el_bindings (d_loop d)))"
proof -
  have inv: "running_inv d" by (rule daemon_sys.reachable_inv [OF assms])
  then have "sinks_inv d" "probes_inv d" "loader_inv (d_loader d)"
    by (auto simp: running_inv_def daemon_inv_def)
  with inv show ?thesis
    by (auto simp: running_inv_def sinks_inv_def probes_inv_def loader_inv_def smap.set_keys
        split: option.split)
qed

text \<open>
  C10. A reload is all or nothing at the level of the file: an unreadable file or one that
  changes a setting without a live path leaves the daemon untouched. Otherwise a sink with the
  same plugin in both files keeps running as it is, every other sink is gone, and the new
  ones are exactly those of the difference whose plugin loads; a probe with the same plugin
  in both files keeps running, unless some other probe had to go and its own ring could not
  be re-armed, every other probe is gone, and only probes of the difference are new.
\<close>

theorem reload_effect:
  assumes "running_inv d" and "d_config_path d \<noteq> []" and "rings_ok env"
  shows "case loaded of
      Inl err \<Rightarrow> reload_config env loaded d = d
    | Inr nxt \<Rightarrow> config_ok nxt \<longrightarrow>
       (let d' = reload_config env loaded d;
            same = same_plugin (cfg_sinks (d_config d)) (cfg_sinks nxt);
            same' = same_plugin (cfg_probes (d_config d)) (cfg_probes nxt)
        in if \<not> live_settings (d_config d) nxt then d' = d
           else running_inv d'
             \<and> (\<exists>new. d_sinks d' = [s \<leftarrow> d_sinks d. same (ls_id s)] @ new
                 \<and> map ls_id new = [i \<leftarrow> map_keys (cfg_sinks nxt). \<not> same i
                      \<and> sink_loads env (ld_plugin_dir (d_loader d)) i (the (map_find (cfg_sinks nxt) i))])
             \<and> (\<exists>new. d_probes d' = [p \<leftarrow> d_probes d. same' (lp_id p)
                      \<and> ((\<exists>q \<in> set (d_probes d). \<not> same' (lp_id q)) \<longrightarrow> en_armable env (lp_probe p))] @ new
                 \<and> lp_id ` set new \<subseteq> {i \<in> set (map_keys (cfg_probes nxt)). \<not> same' i}))"
proof (cases loaded)
  case (Inl err)
  then show ?thesis by (simp add: reload_config_def)
next
  case (Inr nxt)
  show ?thesis
  proof (cases "config_ok nxt \<and> live_settings (d_config d) nxt")
    case False
    then show ?thesis
      using Inr diff_for_reload_None [of "d_config d" nxt] by (auto simp: reload_config_def Let_def)
  next
    case True
    then obtain diff where diff: "diff_for_reload (d_config d) nxt = Some diff"
      using diff_for_reload_None [of "d_config d" nxt] by auto
    have cok: "config_ok (d_config d)" using assms(1) by (simp add: running_inv_def)
    have ok: "config_ok nxt" using True by simp
    note added = reload_added [OF diff cok ok]
    define R where "R = reload_config env (Inr nxt) d"
    from reload_applied [OF assms(1,2) ok diff assms(3), folded R_def, unfolded added filter_filter]
    show ?thesis
      using True unfolding Inr by (simp add: Let_def conj_commute flip: R_def)
  qed
qed

text \<open>
  The watcher can be lost: if its ring cannot be re-armed while some probe is removed, the
  event loop drops it, and the daemon, which looks for dropped components among its probes
  only, keeps it as its watcher. \<open>DaemonWatcher\<close> shows what becomes of the run.
\<close>

lemma remove_probe_drops_watcher:
  assumes linv: "loop_inv (d_loop d)" and "binding_of ` set (d_probes d) \<subseteq> set (el_bindings (d_loop d))"
    and "lp \<in> set (d_probes d)" and "\<not> en_armable env w"
  shows "w \<notin> b_probe ` set (el_bindings (d_loop (remove_probe env (lp_id lp) d)))"
proof -
  obtain lp' where found: "find (\<lambda>q. lp_id q = lp_id lp) (d_probes d) = Some lp'"
    using assms(3) by (cases "find (\<lambda>q. lp_id q = lp_id lp) (d_probes d)") (auto simp: find_None_iff)
  then have lp': "lp' \<in> set (d_probes d)" using find_SomeD by fast
  then have "binding_of lp' \<in> set (el_bindings (d_loop d))" using assms(2) by auto
  then have bound: "lp_probe lp' \<in> b_probe ` set (el_bindings (d_loop d))" by (force simp: binding_of_def)
  obtain dropped el where r: "loop_remove (en_armable env) (lp_probe lp') (d_loop d) = (dropped, el)"
    by (metis prod.exhaust)
  then have "w \<notin> b_probe ` set (el_bindings el)"
    using bound assms(4) by (auto simp: loop_remove_eq [OF linv] Let_def)
  with found r show ?thesis by (simp add: remove_probe_def)
qed

text \<open>
  No event is handed to a component that is gone: whatever a poll finds, each event goes
  to the watcher with the pipeline as its emitter, or to a running probe with its own
  emitter.
\<close>

lemma poll_reaches_live_components:
  assumes "is_start d0" and "daemon_step\<^sup>*\<^sup>* d0 d"
    and "(probe, out, data) \<in> set (snd (loop_poll outcome (d_loop d)))"
  shows "(d_watcher d = Some probe \<and> out = pipeline_emitter)
    \<or> (\<exists>lp. lp \<in> set (d_probes d) \<and> lp_probe lp = probe \<and> lp_emitter lp = out)"
proof -
  have p: "probes_inv d"
    using daemon_sys.reachable_inv [OF assms(1,2)] by (simp add: running_inv_def daemon_inv_def)
  have "\<lparr>b_probe = probe, b_out = out\<rparr> \<in> set (el_bindings (d_loop d))"
    using loop_poll_bound [OF _ assms(3)] p by (simp add: probes_inv_def)
  then consider lp where "lp \<in> set (d_probes d)" "\<lparr>b_probe = probe, b_out = out\<rparr> = binding_of lp"
    | w where "d_watcher d = Some w" "\<lparr>b_probe = probe, b_out = out\<rparr> = watcher_binding w"
    using p by (fastforce simp: probes_inv_def dest!: subsetD)
  then show ?thesis by cases (auto simp: binding_of_def watcher_binding_def)
qed

text \<open>
  Shutdown drains: however the loop ends, the last thing the daemon does to its pipeline
  is to ship what is pending and flush every sink, in order; and the exit code is a failure
  exactly when a poll failed before the stop.
\<close>

lemma daemon_run_drains:
  assumes "daemon_loop offset inps d = (rc, d')" and "d_pipeline d' = Some p"
  shows "\<exists>p'. snd (daemon_run offset inps now d) =
       d'\<lparr>d_pipeline := Some p',
          d_log := d_log d'
            @ map Sink_Call (if pl_batch p = [] then [] else map (\<lambda>s. Sink_Write s (pl_batch p)) (pl_sinks p))
            @ map Sink_Call (map Sink_Flush (pl_sinks p))\<rparr>
     \<and> pl_batch p' = [] \<and> fst (daemon_run offset inps now d) = rc \<and> rc \<in> {0, 1}"
proof -
  have "rc \<in> {0, 1}"
    using assms(1) by (induction inps arbitrary: d) (auto split: prod.splits if_splits)
  with assms show ?thesis
    by (auto simp: daemon_run_def on_pipeline_def pipeline_flush_def ship_def log_calls_def)
qed

section \<open>A small node\<close>

definition example_env :: daemon_env where
  "example_env =
     \<lparr>en_disk = built_tree ''d'', en_open = (\<lambda>_. True), en_load = (\<lambda>_. True),
      en_attach = (\<lambda>_. True), en_ring_fd = (\<lambda>p. int p), en_armable = (\<lambda>_. True),
      en_record_room = 1000000\<rparr>"

definition example_config :: config where
  "example_config = default_config\<lparr>cfg_plugin_dir := ''d'', cfg_cgroup_root := ''/c'',
     cfg_probes := [(''oom'', []), (''procs'', [(''plugin'', ''proc_lifecycle'')])],
     cfg_sinks := [(''null'', [])]\<rparr>"

definition started :: "(bool \<times> daemon) option" where
  "started = daemon_start example_env example_fs (\<lambda>_. None) None 0 0 (new_daemon example_config ''f'')"

definition example_daemon :: daemon where
  "example_daemon = snd (the started)"

lemma example_rings: "rings_ok example_env"
  by (simp add: rings_ok_def example_env_def)

lemma example_config_ok: "config_ok example_config"
  by code_simp

lemma example_started: "started = Some (True, example_daemon)"
proof -
  have "map_option fst started = Some True" by code_simp
  then obtain d where "started = Some (True, d)" by (cases started) auto
  then show ?thesis unfolding example_daemon_def by (metis option.sel snd_conv)
qed

lemma example_is_start: "is_start example_daemon"
  using example_rings example_config_ok example_started unfolding is_start_def started_def by blast

lemma example_running: "running_inv example_daemon"
  using is_start_fully_started [OF example_is_start] by (simp add: fully_started_def)

lemma daemon_start_complete_witness: "d_sinks example_daemon \<noteq> [] \<and> d_probes example_daemon \<noteq> []"
  using daemon_start_complete [OF example_rings example_config_ok example_started [unfolded started_def]]
  by blast

text \<open>An iteration whose poll is interrupted and which reloads a file without the oom probe.\<close>

definition example_next :: config where
  "example_next = example_config\<lparr>cfg_probes := [(''procs'', [(''plugin'', ''proc_lifecycle'')])],
     cfg_sinks := [(''null'', []), (''out'', [(''plugin'', ''stdout_json'')])]\<rparr>"

definition example_tick :: tick_input where
  "example_tick = \<lparr>ti_poll = Inl (- EINTR), ti_monotonic = 0, ti_steady = 0,
     ti_reload = Some (example_env, Inr example_next), ti_users = (\<lambda>_. None)\<rparr>"

lemma example_next_ok: "config_ok example_next"
  by code_simp

lemma example_step: "daemon_step example_daemon (snd (daemon_tick 0 example_tick example_daemon))"
proof -
  obtain go_on d' where t: "daemon_tick 0 example_tick example_daemon = (go_on, d')"
    by (metis prod.exhaust)
  have "reload_ok example_tick"
    by (simp add: reload_ok_def example_tick_def example_rings example_next_ok)
  from daemon_step.ticks [OF this t] t show ?thesis by simp
qed

lemma daemon_consistent_witness:
  "distinct (map lp_id (d_probes (snd (daemon_tick 0 example_tick example_daemon))))"
  using daemon_consistent [OF example_is_start r_into_rtranclp [of daemon_step, OF example_step]]
  by blast

lemma reload_effect_witness:
  "map lp_id (d_probes (reload_config example_env (Inr example_next) example_daemon)) = [''procs'']
   \<and> running_inv (reload_config example_env (Inr example_next) example_daemon)"
proof -
  have path: "d_config_path example_daemon \<noteq> []" by code_simp
  have "live_settings (d_config example_daemon) example_next" by code_simp
  with reload_effect [OF example_running path example_rings, of "Inr example_next"] example_next_ok
  have "running_inv (reload_config example_env (Inr example_next) example_daemon)"
    by (simp add: Let_def)
  moreover have "map lp_id (d_probes (reload_config example_env (Inr example_next) example_daemon)) = [''procs'']"
    by code_simp
  ultimately show ?thesis by blast
qed

lemma poll_reaches_live_components_witness:
  "\<exists>lp. lp \<in> set (d_probes example_daemon) \<and> lp_probe lp = 3 \<and> lp_emitter lp = 4"
proof -
  have "snd (loop_poll (Inr [(1, [[9]])]) (d_loop example_daemon)) = [(3, 4, [9])]" by code_simp
  then have "(3, 4, [9]) \<in> set (snd (loop_poll (Inr [(1, [[9]])]) (d_loop example_daemon)))" by simp
  from poll_reaches_live_components [OF example_is_start rtranclp.rtrancl_refl this]
  show ?thesis by (simp add: pipeline_emitter_def)
qed

lemma daemon_run_drains_witness:
  "\<exists>p'. d_pipeline (snd (daemon_run 0 [example_tick] 9 example_daemon)) = Some p' \<and> pl_batch p' = []"
proof -
  obtain rc d' where l: "daemon_loop 0 [example_tick] example_daemon = (rc, d')" by (metis prod.exhaust)
  have "d_pipeline (snd (daemon_loop 0 [example_tick] example_daemon)) \<noteq> None" by code_simp
  with l obtain p where "d_pipeline d' = Some p" by auto
  from daemon_run_drains [OF l this, of 9] show ?thesis by auto
qed

end
