(* ===== verification/DaemonSafety.thy ===== *)
theory DaemonSafety
  imports Daemon
begin

text \<open>
  Memory safety of the daemon's component handling: over its whole life, the log of the calls
  it makes on sink and probe objects (\<open>d_log\<close>) holds no call on an object after the call that
  destroyed it, and nothing the daemon still holds refers to a destroyed object.
\<close>

section \<open>Logs\<close>

definition call_sink :: "daemon_call \<Rightarrow> sink_ptr option" where
  "call_sink c =
     (case c of
        Sink_Call (Sink_Write s b) \<Rightarrow> Some s
      | Sink_Call (Sink_Flush s) \<Rightarrow> Some s
      | Sink_Call (Sink_Destroy s) \<Rightarrow> Some s
      | _ \<Rightarrow> None)"

definition call_probe :: "daemon_call \<Rightarrow> probe_ptr option" where
  "call_probe c = (case c of Probe_Detach p \<Rightarrow> Some p | Probe_Destroy p \<Rightarrow> Some p | _ \<Rightarrow> None)"

definition touched_sinks :: "daemon_call list \<Rightarrow> sink_ptr set" where
  "touched_sinks cs = set (List.map_filter call_sink cs)"

definition touched_probes :: "daemon_call list \<Rightarrow> probe_ptr set" where
  "touched_probes cs = set (List.map_filter call_probe cs)"

definition dead_sinks :: "daemon_call list \<Rightarrow> sink_ptr set" where
  "dead_sinks cs = {s. Sink_Call (Sink_Destroy s) \<in> set cs}"

definition dead_probes :: "daemon_call list \<Rightarrow> probe_ptr set" where
  "dead_probes cs = {p. Probe_Destroy p \<in> set cs}"

text \<open>No call on an object follows its destruction.\<close>

fun safe_log :: "daemon_call list \<Rightarrow> bool" where
  "safe_log [] = True"
| "safe_log (c # cs) =
     ((case c of
         Sink_Call (Sink_Destroy s) \<Rightarrow> s \<notin> touched_sinks cs
       | Probe_Destroy p \<Rightarrow> p \<notin> touched_probes cs
       | _ \<Rightarrow> True) \<and> safe_log cs)"

lemma touched_append [simp]:
  "touched_sinks (xs @ ys) = touched_sinks xs \<union> touched_sinks ys"
  "touched_probes (xs @ ys) = touched_probes xs \<union> touched_probes ys"
  by (auto simp: touched_sinks_def touched_probes_def map_filter_def)

lemma touched_Nil [simp]: "touched_sinks [] = {}" "touched_probes [] = {}"
  by (simp_all add: touched_sinks_def touched_probes_def map_filter_def)

lemma touched_Cons [simp]:
  "touched_sinks (c # cs) = set_option (call_sink c) \<union> touched_sinks cs"
  "touched_probes (c # cs) = set_option (call_probe c) \<union> touched_probes cs"
  by (auto simp: touched_sinks_def touched_probes_def map_filter_def)

lemma call_simps [simp]:
  "call_sink (Sink_Call (Sink_Write s b)) = Some s" "call_sink (Sink_Call (Sink_Flush s)) = Some s"
  "call_sink (Sink_Call (Sink_Destroy s)) = Some s" "call_sink (Probe_Detach p) = None"
  "call_sink (Probe_Destroy p) = None" "call_sink (Unload_Sink i) = None" "call_sink (Unload_Probe i) = None"
  "call_probe (Sink_Call sc) = None" "call_probe (Probe_Detach p) = Some p" "call_probe (Probe_Destroy p) = Some p"
  "call_probe (Unload_Sink i) = None" "call_probe (Unload_Probe i) = None"
  "call_sink (Sink_Made i s k) = None" "call_sink (Probe_Made i p) = None" "call_sink (Watcher_Made p) = None"
  "call_probe (Sink_Made i s k) = None" "call_probe (Probe_Made i p) = None" "call_probe (Watcher_Made p) = None"
  by (simp_all add: call_sink_def call_probe_def)

lemma dead_simps [simp]:
  "dead_sinks [] = {}" "dead_probes [] = {}"
  "dead_sinks (xs @ ys) = dead_sinks xs \<union> dead_sinks ys"
  "dead_probes (xs @ ys) = dead_probes xs \<union> dead_probes ys"
  "dead_sinks (c # cs) = (case c of Sink_Call (Sink_Destroy s) \<Rightarrow> {s} | _ \<Rightarrow> {}) \<union> dead_sinks cs"
  "dead_probes (c # cs) = (case c of Probe_Destroy p \<Rightarrow> {p} | _ \<Rightarrow> {}) \<union> dead_probes cs"
  by (auto simp: dead_sinks_def dead_probes_def split: daemon_call.splits sink_call.splits)

lemma safe_log_append:
  "safe_log (xs @ ys) \<longleftrightarrow> safe_log xs \<and> safe_log ys
     \<and> dead_sinks xs \<inter> touched_sinks ys = {} \<and> dead_probes xs \<inter> touched_probes ys = {}"
proof (induction xs)
  case (Cons c xs)
  then show ?case by (cases c) (auto split: sink_call.split)
qed simp

text \<open>The calls of the pipeline: writes and flushes of its own sinks.\<close>

definition pipeline_calls_ok :: "sink_ptr set \<Rightarrow> sink_call list \<Rightarrow> bool" where
  "pipeline_calls_ok A calls \<longleftrightarrow>
     list_all (\<lambda>c. case c of Sink_Write s b \<Rightarrow> s \<in> A | Sink_Flush s \<Rightarrow> s \<in> A | Sink_Destroy s \<Rightarrow> False) calls"

lemma pipeline_calls_log:
  assumes "pipeline_calls_ok A calls"
  shows "safe_log (map Sink_Call calls) \<and> touched_sinks (map Sink_Call calls) \<subseteq> A
    \<and> touched_probes (map Sink_Call calls) = {} \<and> dead_sinks (map Sink_Call calls) = {}
    \<and> dead_probes (map Sink_Call calls) = {}"
  using assms unfolding pipeline_calls_ok_def
proof (induction calls)
  case (Cons c calls)
  then show ?case by (cases c) auto
qed simp

lemma ship_calls_ok: "pipeline_calls_ok (set (pl_sinks p)) (snd (ship p))"
  by (auto simp: ship_def pipeline_calls_ok_def list_all_iff)

lemma tick_calls_ok: "pipeline_calls_ok (set (pl_sinks p)) (snd (pipeline_tick now p))"
  using ship_calls_ok [of p]
  by (auto simp: pipeline_tick_def pipeline_calls_ok_def Let_def split: prod.splits)

lemma flush_calls_ok: "pipeline_calls_ok (set (pl_sinks p)) (snd (pipeline_flush now p))"
  using ship_calls_ok [of p]
  by (auto simp: pipeline_flush_def pipeline_calls_ok_def ship_def Let_def list_all_iff split: prod.splits)

lemma emit_calls_ok:
  assumes "pipeline_emit offset pw r p res = ((p', calls), res')"
  shows "pipeline_calls_ok (set (pl_sinks p)) calls"
proof -
  obtain r1 p1 res1 where e: "enrich offset pw r p res = (r1, p1, res1)" by (metis prod.exhaust)
  then have a: "add_record r1 p1 = (p', calls)" using assms by (simp add: pipeline_emit_def)
  have "pl_sinks p1 = pl_sinks p"
    using emit_sinks [OF assms] a by (auto simp: add_record_def ship_def Let_def split: if_splits)
  with a ship_calls_ok [of "p1\<lparr>pl_stats := (pl_stats p1)\<lparr>ps_records := ps_records (pl_stats p1) + 1\<rparr>,
      pl_batch := pl_batch p1 @ [r1]\<rparr>"] show ?thesis
    by (auto simp: add_record_def Let_def pipeline_calls_ok_def split: if_splits)
qed

section \<open>The invariant\<close>

definition live_sinks :: "daemon \<Rightarrow> sink_ptr set" where
  "live_sinks d = ls_sink ` set (d_sinks d)"

definition live_probes :: "daemon \<Rightarrow> probe_ptr set" where
  "live_probes d = lp_probe ` set (d_probes d) \<union> set_option (d_watcher d)"

text \<open>
  The log is safe; live and destroyed objects are apart and older than the next address; an
  object has one owner; the pipeline knows live sinks only.
\<close>

definition mem_inv :: "daemon \<Rightarrow> bool" where
  "mem_inv d \<longleftrightarrow>
     safe_log (d_log d)
     \<and> live_sinks d \<inter> dead_sinks (d_log d) = {} \<and> live_probes d \<inter> dead_probes (d_log d) = {}
     \<and> live_sinks d \<union> dead_sinks (d_log d) \<subseteq> {..<d_fresh d}
     \<and> live_probes d \<union> dead_probes (d_log d) \<subseteq> {..<d_fresh d}
     \<and> distinct (map ls_sink (d_sinks d)) \<and> distinct (map lp_probe (d_probes d))
     \<and> (\<forall>w. d_watcher d = Some w \<longrightarrow> w \<notin> lp_probe ` set (d_probes d))
     \<and> (\<forall>p. d_pipeline d = Some p \<longrightarrow> set (pl_sinks p) \<subseteq> live_sinks d)"

text \<open>
  A step keeps it when the calls it logs are safe in themselves and go to objects that were
  live or are new, and when what is live afterwards was live or is new and is not destroyed.
\<close>

lemma addresses:
  fixes n m :: nat
  shows "L \<inter> D = {} \<Longrightarrow> L \<union> D \<subseteq> {..<n} \<Longrightarrow> T \<subseteq> L \<union> {n..} \<Longrightarrow> D \<inter> T = {}"
    and "L \<inter> D = {} \<Longrightarrow> L \<union> D \<subseteq> {..<n} \<Longrightarrow> L' \<union> D' \<subseteq> L \<union> {n..<m} \<Longrightarrow> L' \<inter> D' = {} \<Longrightarrow> L' \<inter> (D \<union> D') = {}"
    and "L \<union> D \<subseteq> {..<n} \<Longrightarrow> n \<le> m \<Longrightarrow> L' \<union> D' \<subseteq> L \<union> {n..<m} \<Longrightarrow> L' \<union> (D \<union> D') \<subseteq> {..<m}"
  by (fastforce simp: subset_iff disjoint_iff)+

lemma mem_inv_step:
  assumes inv: "mem_inv d" and "d_log d' = d_log d @ cs" and "safe_log cs" and "d_fresh d \<le> d_fresh d'"
    and "touched_sinks cs \<subseteq> live_sinks d \<union> {d_fresh d..}"
    and "touched_probes cs \<subseteq> live_probes d \<union> {d_fresh d..}"
    and "live_sinks d' \<union> dead_sinks cs \<subseteq> live_sinks d \<union> {d_fresh d..<d_fresh d'}"
    and "live_probes d' \<union> dead_probes cs \<subseteq> live_probes d \<union> {d_fresh d..<d_fresh d'}"
    and "live_sinks d' \<inter> dead_sinks cs = {}" and "live_probes d' \<inter> dead_probes cs = {}"
    and "distinct (map ls_sink (d_sinks d'))" and "distinct (map lp_probe (d_probes d'))"
    and "\<And>w. d_watcher d' = Some w \<Longrightarrow> w \<notin> lp_probe ` set (d_probes d')"
    and "\<And>p. d_pipeline d' = Some p \<Longrightarrow> set (pl_sinks p) \<subseteq> live_sinks d'"
  shows "mem_inv d'"
proof -
  have old: "live_sinks d \<inter> dead_sinks (d_log d) = {}" "live_probes d \<inter> dead_probes (d_log d) = {}"
    "live_sinks d \<union> dead_sinks (d_log d) \<subseteq> {..<d_fresh d}"
    "live_probes d \<union> dead_probes (d_log d) \<subseteq> {..<d_fresh d}" "safe_log (d_log d)"
    using inv by (simp_all add: mem_inv_def)
  show ?thesis
    unfolding mem_inv_def assms(2) safe_log_append dead_simps
    using addresses(1) [OF old(1,3) assms(5)] addresses(1) [OF old(2,4) assms(6)]
      addresses(2) [OF old(1,3) assms(7,9)] addresses(2) [OF old(2,4) assms(8,10)]
      addresses(3) [OF old(3) assms(4,7)] addresses(3) [OF old(4) assms(4,8)] old(5) assms(3,11-14)
    by simp
qed

text \<open>Steps that touch neither objects nor lists.\<close>

lemma mem_inv_cong:
  assumes "mem_inv d" and "d_log d' = d_log d" and "d_fresh d \<le> d_fresh d'" and "d_sinks d' = d_sinks d"
    and "d_probes d' = d_probes d" and "d_watcher d' = d_watcher d"
    and "\<And>p. d_pipeline d' = Some p \<Longrightarrow> set (pl_sinks p) \<subseteq> live_sinks d"
  shows "mem_inv d'"
  using assms by (auto simp: mem_inv_def live_sinks_def live_probes_def)

lemma find_in: "find P xs = Some x \<Longrightarrow> x \<in> set xs"
  using find_SomeD by metis

lemma erase_first_find:
  assumes "distinct (map f xs)" and "find P xs = Some x"
  shows "distinct (map f (erase_first P xs)) \<and> f ` set (erase_first P xs) = f ` set xs - {f x}"
  using assms
proof (induction xs)
  case (Cons y ys)
  then have "x \<in> set ys" if "\<not> P y" using that find_in [of P ys x] by simp
  with Cons show ?case by (auto split: if_splits)
qed simp

section \<open>Every operation keeps it\<close>

lemma add_sink_mem: "mem_inv d \<Longrightarrow> mem_inv (add_sink env i c d)"
proof -
  assume inv: "mem_inv d"
  obtain r l where r: "load_sink (en_disk env) i (plugin_of i c) c (d_loader d) = (r, l)"
    by (metis prod.exhaust)
  have old: "\<forall>s \<in> set (d_sinks d). ls_sink s < d_fresh d"
    using inv by (auto simp: mem_inv_def live_sinks_def)
  show ?thesis
  proof (cases r)
    case None
    with r inv show ?thesis by (intro mem_inv_cong [OF inv]) (auto simp: add_sink_def mem_inv_def)
  next
    case (Some x)
    with r inv old show ?thesis
      by (intro mem_inv_step [OF inv, of _ "[Sink_Made i (d_fresh d) x]"])
        (auto simp: add_sink_def live_sinks_def live_probes_def mem_inv_def set_sinks_def)
  qed
qed

lemma remove_sink_mem: "mem_inv d \<Longrightarrow> mem_inv (remove_sink i d)"
proof (cases "find (\<lambda>s. ls_id s = i) (d_sinks d)")
  case None
  then show "mem_inv d \<Longrightarrow> mem_inv (remove_sink i d)" by (simp add: remove_sink_def)
next
  case (Some s)
  assume inv: "mem_inv d"
  then have "distinct (map ls_sink (d_sinks d))" by (simp add: mem_inv_def)
  note e = erase_first_find [OF this Some]
  have "ls_sink s \<in> live_sinks d" using find_in [OF Some] by (simp add: live_sinks_def)
  with inv Some e show ?thesis
    by (intro mem_inv_step [OF inv, of _ "[Sink_Call (Sink_Flush (ls_sink s)), Sink_Call (Sink_Destroy (ls_sink s)),
            Unload_Sink i]"])
      (auto simp: remove_sink_def Let_def live_sinks_def live_probes_def mem_inv_def set_sinks_def)
qed

lemma add_probe_mem: "mem_inv d \<Longrightarrow> mem_inv (add_probe env i c d)"
proof -
  assume inv: "mem_inv d"
  obtain r l where r: "load_probe (en_disk env) i (plugin_of i c) c (d_loader d) = (r, l)"
    by (metis prod.exhaust)
  obtain ok el where el: "loop_add (en_ring_fd env) (en_armable env) (d_fresh d) (Suc (d_fresh d)) (d_loop d) = (ok, el)"
    by (metis prod.exhaust)
  have old: "\<forall>p \<in> live_probes d. p < d_fresh d" using inv by (auto simp: mem_inv_def)
  consider "r = None" | h where "r = Some h" "\<not> comes_up env (d_fresh d)"
    | h where "r = Some h" "comes_up env (d_fresh d)" "\<not> ok"
    | h where "r = Some h" "comes_up env (d_fresh d)" "ok" by (cases r) auto
  then show ?thesis
  proof cases
    case 1
    with r inv show ?thesis by (intro mem_inv_cong [OF inv]) (auto simp: add_probe_def mem_inv_def)
  next
    case 2
    with r inv old show ?thesis
      by (intro mem_inv_step [OF inv, of _ "[Probe_Made i (d_fresh d), Probe_Destroy (d_fresh d), Unload_Probe i]"])
        (auto simp: add_probe_def Let_def live_sinks_def live_probes_def mem_inv_def)
  next
    case 3
    with r el inv old show ?thesis
      by (intro mem_inv_step [OF inv, of _ "[Probe_Made i (d_fresh d), Probe_Detach (d_fresh d), Probe_Destroy (d_fresh d),
            Unload_Probe i]"])
        (auto simp: add_probe_def Let_def live_sinks_def live_probes_def mem_inv_def)
  next
    case 4
    with r el inv old show ?thesis
      by (intro mem_inv_step [OF inv, of _ "[Probe_Made i (d_fresh d)]"])
        (auto simp: add_probe_def Let_def live_sinks_def live_probes_def mem_inv_def)
  qed
qed

lemma forget_probe_mem:
  assumes inv: "mem_inv d" and found: "find P (d_probes d) = Some lp"
  shows "mem_inv (forget_probe P lp d)"
proof -
  have "distinct (map lp_probe (d_probes d))" using inv by (simp add: mem_inv_def)
  note e = erase_first_find [OF this found]
  have lp: "lp_probe lp \<in> lp_probe ` set (d_probes d)" using find_in [OF found] by simp
  with inv e show ?thesis
    by (intro mem_inv_step [OF inv, of _ "[Probe_Detach (lp_probe lp), Probe_Destroy (lp_probe lp),
            Unload_Probe (lp_id lp)]"])
      (auto simp: live_sinks_def live_probes_def mem_inv_def forget_probe_def)
qed

lemma forget_dropped_mem: "mem_inv d \<Longrightarrow> mem_inv (forget_dropped ps d)"
proof (induction ps d rule: forget_dropped.induct)
  case (2 dead ps d)
  then show ?case
    using forget_probe_mem by (auto split: option.split)
qed simp

lemma loop_mem: "mem_inv d \<Longrightarrow> mem_inv (d\<lparr>d_loop := el\<rparr>)"
  by (simp add: mem_inv_def live_sinks_def live_probes_def)

lemma remove_probe_mem: "mem_inv d \<Longrightarrow> mem_inv (remove_probe env i d)"
  using forget_dropped_mem forget_probe_mem [OF loop_mem]
  by (auto simp: remove_probe_def split: option.split prod.split)

lemma fold_mem: "(\<And>x d. mem_inv d \<Longrightarrow> mem_inv (f x d)) \<Longrightarrow> mem_inv d \<Longrightarrow> mem_inv (fold f xs d)"
  by (induction xs arbitrary: d) simp_all

lemma start_watcher_mem:
  assumes inv: "mem_inv d" and none: "d_watcher d = None" and s: "start_cgroup_watcher env d = (ok, d')"
  shows "mem_inv d'"
proof -
  obtain bound el where el: "loop_add (en_ring_fd env) (en_armable env) (d_fresh d) pipeline_emitter (d_loop d) = (bound, el)"
    by (metis prod.exhaust)
  let ?w = "d_fresh d"
  have old: "\<forall>p \<in> live_probes d. p < ?w" using inv by (auto simp: mem_inv_def)
  consider "\<not> comes_up env ?w" | "comes_up env ?w" "\<not> bound" | "comes_up env ?w" "bound" by auto
  then show ?thesis
  proof cases
    case 1
    with s inv none old show ?thesis
      by (intro mem_inv_step [OF inv, of _ "[Watcher_Made ?w, Probe_Destroy ?w]"])
        (auto simp: start_cgroup_watcher_def Let_def live_sinks_def live_probes_def mem_inv_def)
  next
    case 2
    with s el inv none old show ?thesis
      by (intro mem_inv_step [OF inv, of _ "[Watcher_Made ?w, Probe_Detach ?w, Probe_Destroy ?w]"])
        (auto simp: start_cgroup_watcher_def Let_def live_sinks_def live_probes_def mem_inv_def)
  next
    case 3
    with s el inv none old show ?thesis
      by (intro mem_inv_step [OF inv, of _ "[Watcher_Made ?w]"])
        (auto simp: start_cgroup_watcher_def Let_def live_sinks_def live_probes_def mem_inv_def)
  qed
qed

lemma new_daemon_mem: "mem_inv (new_daemon c path)"
  by (simp add: mem_inv_def new_daemon_def live_sinks_def live_probes_def)

lemma start_components_mem:
  assumes inv: "mem_inv d" and none: "d_watcher d = None" and s: "start_components env now d = Some (ok, d')"
  shows "mem_inv d'"
proof -
  define d1 where "d1 = fold (\<lambda>(ident, config). add_sink env ident config) (cfg_sinks (d_config d)) d"
  define d2 where "d2 = wire_sinks (d1\<lparr>d_pipeline :=
      Some (new_pipeline (pipeline_options_of (d_config d1)) [] now)\<rparr>)"
  obtain watching d3 where w: "start_cgroup_watcher env d2 = (watching, d3)" by (metis prod.exhaust)
  define d4 where "d4 = fold (\<lambda>(ident, config). add_probe env ident config) (cfg_probes (d_config d3)) d3"
  have "mem_inv d1" unfolding d1_def by (rule fold_mem [OF _ inv]) (auto simp: add_sink_mem)
  then have i2: "mem_inv d2"
    by (rule mem_inv_cong) (auto simp: d2_def set_sinks_def live_sinks_def)
  have "d_watcher d1 = None"
    unfolding d1_def by (subst fold_frame [where g = d_watcher]) (auto simp: none)
  then have i3: "mem_inv d3" using start_watcher_mem [OF i2 _ w] by (simp add: d2_def)
  have "mem_inv d4" unfolding d4_def by (rule fold_mem [OF _ i3]) (auto simp: add_probe_mem)
  moreover have "d' = d1 \<or> d' = d3 \<or> d' = d4"
    using s w unfolding d1_def d2_def d4_def
    by (auto simp: start_components_def make_pipeline_def Let_def split: if_splits)
  ultimately show ?thesis using \<open>mem_inv d1\<close> i3 by auto
qed

lemma is_start_mem: "is_start d \<Longrightarrow> mem_inv d"
proof -
  assume "is_start d"
  then obtain env fs glob conf offset now c path where
    s: "daemon_start env fs glob conf offset now (new_daemon c path) = Some (True, d)"
    by (auto simp: is_start_def)
  then obtain res where sc: "start_components env now ((new_daemon c path)\<lparr>d_resolver := Some res\<rparr>) = Some (True, d)"
    by (auto simp: daemon_start_def Let_def split: if_splits option.splits prod.splits)
  have "mem_inv ((new_daemon c path)\<lparr>d_resolver := Some res\<rparr>)"
    using new_daemon_mem [of c path] by (simp add: mem_inv_def live_sinks_def live_probes_def)
  from start_components_mem [OF this _ sc] show ?thesis by (simp add: new_daemon_def)
qed

lemma reload_mem: "mem_inv d \<Longrightarrow> mem_inv (reload_config env loaded d)"
proof -
  assume inv: "mem_inv d"
  have cfg: "mem_inv (e\<lparr>d_config := c\<rparr>)" if "mem_inv e" for e c
    using that by (simp add: mem_inv_def live_sinks_def live_probes_def)
  show ?thesis
    using inv unfolding reload_config_def Let_def
    by (auto split: sum.split option.split
        intro!: cfg fold_mem add_sink_mem remove_sink_mem add_probe_mem remove_probe_mem)
qed

text \<open>Calls of the pipeline reach live sinks only.\<close>

lemma pipeline_mem:
  assumes inv: "mem_inv d" and p: "d_pipeline d = Some p" and calls: "pipeline_calls_ok (set (pl_sinks p)) calls"
    and d': "d_log d' = d_log d @ map Sink_Call calls" "d_fresh d' = d_fresh d" "d_sinks d' = d_sinks d"
      "d_probes d' = d_probes d" "d_watcher d' = d_watcher d"
    and p': "\<And>p'. d_pipeline d' = Some p' \<Longrightarrow> pl_sinks p' = pl_sinks p"
  shows "mem_inv d'"
proof -
  have "set (pl_sinks p) \<subseteq> live_sinks d" using inv p by (simp add: mem_inv_def)
  with pipeline_calls_log [OF calls] show ?thesis
    by (intro mem_inv_step [OF inv d'(1)])
      (use inv d' p' in \<open>auto simp: mem_inv_def live_sinks_def live_probes_def\<close>)
qed

lemma instance_emit_mem: "mem_inv d \<Longrightarrow> mem_inv (instance_emit offset pw i r d)"
proof (cases "d_pipeline d = None \<or> d_resolver d = None")
  case True
  then show "mem_inv d \<Longrightarrow> ?thesis" by (auto simp: instance_emit_def split: option.split)
next
  case False
  assume inv: "mem_inv d"
  from False obtain p res where p: "d_pipeline d = Some p" "d_resolver d = Some res" by auto
  obtain p' calls res' where e: "pipeline_emit offset pw (r\<lparr>rec_probe := i\<rparr>) p res = ((p', calls), res')"
    by (metis prod.exhaust)
  show ?thesis
    by (rule pipeline_mem [OF inv p(1) emit_calls_ok [OF e]])
      (use p e emit_sinks [OF e] in \<open>auto simp: instance_emit_def Let_def\<close>)
qed

lemma resolver_mem: "mem_inv d \<Longrightarrow> mem_inv (d\<lparr>d_resolver := x\<rparr>)"
  by (simp add: mem_inv_def live_sinks_def live_probes_def)

lemma dispatch_mem: "mem_inv d \<Longrightarrow> mem_inv (dispatch offset pw ev d)"
  using instance_emit_mem resolver_mem by (auto simp: dispatch_def split: prod.split option.split)

lemma on_pipeline_mem:
  assumes inv: "mem_inv d" and f: "\<And>p. pipeline_calls_ok (set (pl_sinks p)) (snd (f p))"
    "\<And>p. pl_sinks (fst (f p)) = pl_sinks p"
  shows "mem_inv (on_pipeline f d)"
proof (cases "d_pipeline d")
  case None
  with inv show ?thesis by (simp add: on_pipeline_def)
next
  case (Some p)
  show ?thesis
    by (rule pipeline_mem [OF inv Some f(1)])
      (use Some f(2) [of p] in \<open>auto simp: on_pipeline_def split: prod.splits\<close>)
qed

lemma daemon_tick_mem:
  assumes "mem_inv d" and "daemon_tick offset inp d = (go_on, d')"
  shows "mem_inv d'"
proof -
  obtain ok events where poll: "loop_poll (ti_poll inp) (d_loop d) = (ok, events)"
    by (metis prod.exhaust)
  define d1 where "d1 = fold (dispatch offset (ti_users inp)) events d"
  define d3 where "d3 = on_pipeline (pipeline_tick (ti_steady inp))
      (d1\<lparr>d_resolver := map_option (resolver_tick (ti_monotonic inp)) (d_resolver d1)\<rparr>)"
  have i1: "mem_inv d1" unfolding d1_def by (rule fold_mem [OF _ assms(1)]) (rule dispatch_mem)
  then have i3: "mem_inv d3"
    unfolding d3_def by (intro on_pipeline_mem resolver_mem tick_calls_ok) simp_all
  have "d' = d1 \<or> d' = d3 \<or> (\<exists>env loaded. d' = reload_config env loaded d3)"
    using assms(2) poll by (auto simp: daemon_tick_def Let_def d1_def d3_def split: if_splits option.splits)
  with i1 i3 reload_mem show ?thesis by blast
qed

lemma daemon_destroy_mem: "mem_inv d \<Longrightarrow> mem_inv (daemon_destroy d)"
proof -
  assume inv: "mem_inv d"
  let ?ps = "map lp_probe (d_probes d)"
  have ps: "safe_log (map Probe_Detach ps) \<and> touched_sinks (map Probe_Detach ps) = {}
      \<and> touched_probes (map Probe_Detach ps) = set ps \<and> dead_sinks (map Probe_Detach ps) = {}
      \<and> dead_probes (map Probe_Detach ps) = {}" for ps
    by (induction ps) auto
  have "mem_inv (log_calls (map Probe_Detach qs) d)" if "set qs \<subseteq> live_probes d" for qs
    using that ps [of qs]
    by (intro mem_inv_step [OF inv, of _ "map Probe_Detach qs"])
      (use inv in \<open>auto simp: mem_inv_def live_sinks_def live_probes_def\<close>)
  then have "mem_inv (log_calls (map Probe_Detach (case d_watcher d of None \<Rightarrow> ?ps | Some w \<Rightarrow> w # ?ps)) d)"
    by (auto simp: live_probes_def split: option.split)
  then show ?thesis by (simp add: daemon_destroy_def comp_def split: option.splits)
qed

interpretation mem_sys: invariant_system is_start daemon_step "\<lambda>d. running_inv d \<and> mem_inv d"
  by unfold_locales
    (auto dest: is_start_mem is_start_fully_started simp: fully_started_def elim!: daemon_stepE
      intro: daemon_tick_inv daemon_tick_mem)

section \<open>Properties\<close>

lemma safe_log_split:
  "safe_log (xs @ Sink_Call (Sink_Destroy s) # ys) \<Longrightarrow> s \<notin> touched_sinks ys"
  "safe_log (xs @ Probe_Destroy q # ys) \<Longrightarrow> q \<notin> touched_probes ys"
  by (simp_all add: safe_log_append)

text \<open>
  C8. No use after destruction: from start to shutdown, through any polls, failures and
  reloads, no sink is written to, flushed or destroyed after it was destroyed, no probe is
  detached or destroyed after it was destroyed, and the daemon keeps no reference to a
  destroyed object: not in its lists, not in the pipeline, not in the event loop.
\<close>

theorem no_use_after_destroy:
  assumes "is_start d0" and "daemon_step\<^sup>*\<^sup>* d0 d"
  shows "let log = d_log (daemon_destroy (on_pipeline (pipeline_flush now) d)) in
    (log = xs @ Sink_Call (Sink_Destroy s) # ys \<longrightarrow>
       s \<notin> touched_sinks ys \<and> s \<notin> ls_sink ` set (d_sinks d)
       \<and> (\<forall>p. d_pipeline d = Some p \<longrightarrow> s \<notin> set (pl_sinks p)))
    \<and> (log = xs @ Probe_Destroy q # ys \<longrightarrow>
       q \<notin> touched_probes ys \<and> q \<notin> lp_probe ` set (d_probes d) \<and> d_watcher d \<noteq> Some q
       \<and> q \<notin> b_probe ` set (el_bindings (d_loop d)))"
proof -
  let ?e = "daemon_destroy (on_pipeline (pipeline_flush now) d)"
  have run: "running_inv d" and mem: "mem_inv d"
    using mem_sys.reachable_inv [OF assms] by auto
  have e: "mem_inv ?e"
    by (intro daemon_destroy_mem on_pipeline_mem mem flush_calls_ok) simp
  have live: "live_sinks ?e = live_sinks d" "live_probes ?e = live_probes d"
    by (auto simp: daemon_destroy_def on_pipeline_def live_sinks_def live_probes_def
        split: option.splits prod.splits)
  have apart: "live_sinks d \<inter> dead_sinks (d_log ?e) = {}" "live_probes d \<inter> dead_probes (d_log ?e) = {}"
    "safe_log (d_log ?e)"
    using e by (simp_all add: mem_inv_def live)
  have wired: "set (pl_sinks p) \<subseteq> live_sinks d" if "d_pipeline d = Some p" for p
    using mem that by (simp add: mem_inv_def)
  have "set (el_bindings (d_loop d)) \<subseteq> binding_of ` set (d_probes d) \<union> watcher_binding ` set_option (d_watcher d)"
    using run by (simp add: running_inv_def daemon_inv_def probes_inv_def)
  then have bound: "b_probe ` set (el_bindings (d_loop d)) \<subseteq> live_probes d"
    using image_mono [of _ _ b_probe]
    by (fastforce simp: binding_of_def watcher_binding_def live_probes_def)
  have 1: "s \<notin> touched_sinks ys \<and> s \<notin> live_sinks d" if "d_log ?e = xs @ Sink_Call (Sink_Destroy s) # ys"
    using apart safe_log_split(1) [of xs s ys] unfolding that by auto
  have 2: "q \<notin> touched_probes ys \<and> q \<notin> live_probes d" if "d_log ?e = xs @ Probe_Destroy q # ys"
    using apart safe_log_split(2) [of xs q ys] unfolding that by auto
  show ?thesis
    unfolding Let_def
  proof (intro conjI impI allI)
    show "s \<notin> set (pl_sinks p)" if "d_log ?e = xs @ Sink_Call (Sink_Destroy s) # ys" "d_pipeline d = Some p" for p
      using 1 [OF that(1)] wired [OF that(2)] by blast
  qed (use 1 2 bound in \<open>auto simp: live_sinks_def live_probes_def\<close>)
qed

lemma no_use_after_destroy_witness:
  "let d = snd (daemon_tick 0 example_tick example_daemon) in
     (\<exists>xs ys. d_log (daemon_destroy (on_pipeline (pipeline_flush 0) d)) = xs @ Probe_Destroy 3 # ys
       \<and> last xs = Probe_Detach 3 \<and> 3 \<notin> touched_probes ys)
     \<and> 3 \<notin> b_probe ` set (el_bindings (d_loop d))"
proof -
  define d where "d = snd (daemon_tick 0 example_tick example_daemon)"
  define log where "log = d_log (daemon_destroy (on_pipeline (pipeline_flush 0) d))"
  have parts: "log ! 6 = Probe_Destroy 3" "6 < length log" "last (take 6 log) = Probe_Detach 3"
    unfolding log_def d_def by code_simp+
  then have split: "log = take 6 log @ Probe_Destroy 3 # drop 7 log" using id_take_nth_drop [of 6 log] by simp
  from no_use_after_destroy [OF example_is_start r_into_rtranclp [of daemon_step, OF example_step],
      of 0 "take 6 log" _ "drop 7 log" 3, folded d_def] split parts(3)
  show ?thesis by (auto simp: Let_def simp flip: d_def log_def)
qed

end
