(* ===== verification/DaemonDelivery.thy ===== *)
theory DaemonDelivery
  imports DaemonSafety
begin

text \<open>
  What the sinks of a running daemon are given. The records a run of the daemon makes
  (\<open>loop_records\<close>) are set against the batches its log says were written to a sink, through
  every poll, tick, reload and the final flush; then against the stream of a stdout sink
  that executes the logged calls with its worker interleaved in any way.
\<close>

section \<open>The records of a run\<close>

text \<open>The record that \<open>dispatch\<close> makes of an event, completed by the pipeline, if it makes one.\<close>

definition dispatch_record ::
  "u64 \<Rightarrow> (u32 \<Rightarrow> string option) \<Rightarrow> probe_ptr \<times> emitter_ptr \<times> u8 list \<Rightarrow> daemon \<Rightarrow> st_record list" where
  "dispatch_record offset pw ev d =
     (case ev of (probe, out, data) \<Rightarrow>
        if d_watcher d = Some probe then []
        else (case find (\<lambda>lp. lp_probe lp = probe \<and> lp_emitter lp = out) (d_probes d) of
            None \<Rightarrow> []
          | Some lp \<Rightarrow>
              (case (lp_handler lp data, d_pipeline d, d_resolver d) of
                 (Some r, Some p, Some res) \<Rightarrow> [fst (enrich offset pw (r\<lparr>rec_probe := lp_id lp\<rparr>) p res)]
               | _ \<Rightarrow> [])))"

fun poll_records ::
  "u64 \<Rightarrow> (u32 \<Rightarrow> string option) \<Rightarrow> (probe_ptr \<times> emitter_ptr \<times> u8 list) list \<Rightarrow> daemon \<Rightarrow> st_record list" where
  "poll_records offset pw [] d = []"
| "poll_records offset pw (ev # evs) d =
     dispatch_record offset pw ev d @ poll_records offset pw evs (dispatch offset pw ev d)"

definition tick_records :: "u64 \<Rightarrow> tick_input \<Rightarrow> daemon \<Rightarrow> st_record list" where
  "tick_records offset inp d =
     poll_records offset (ti_users inp) (snd (loop_poll (ti_poll inp) (d_loop d))) d"

fun loop_records :: "u64 \<Rightarrow> tick_input list \<Rightarrow> daemon \<Rightarrow> st_record list" where
  "loop_records offset [] d = []"
| "loop_records offset (inp # inps) d =
     tick_records offset inp d
       @ (let (go_on, d') = daemon_tick offset inp d in if go_on then loop_records offset inps d' else [])"

section \<open>The batches of a log\<close>

definition sink_calls :: "daemon_call list \<Rightarrow> sink_call list" where
  "sink_calls = List.map_filter (\<lambda>c. case c of Sink_Call sc \<Rightarrow> Some sc | _ \<Rightarrow> None)"

definition written_log :: "sink_ptr \<Rightarrow> daemon_call list \<Rightarrow> batch list" where
  "written_log q calls = written_to q (sink_calls calls)"

lemma sink_calls_simps [simp]:
  "sink_calls [] = []" "sink_calls (Sink_Call sc # cs) = sc # sink_calls cs"
  "sink_calls (Probe_Detach p # cs) = sink_calls cs" "sink_calls (Probe_Destroy p # cs) = sink_calls cs"
  "sink_calls (Unload_Sink i # cs) = sink_calls cs" "sink_calls (Unload_Probe i # cs) = sink_calls cs"
  "sink_calls (Sink_Made i s k # cs) = sink_calls cs" "sink_calls (Probe_Made i p # cs) = sink_calls cs"
  "sink_calls (Watcher_Made p # cs) = sink_calls cs"
  "sink_calls (xs @ ys) = sink_calls xs @ sink_calls ys"
  by (simp_all add: sink_calls_def map_filter_def)

lemma sink_calls_map [simp]:
  "sink_calls (map Sink_Call cs) = cs" "sink_calls (map (\<lambda>x. Probe_Detach (f x)) xs) = []"
  by (induction cs; simp) (induction xs; simp)

lemma written_log_simps [simp]:
  "written_log q [] = []" "written_log q (xs @ ys) = written_log q xs @ written_log q ys"
  "written_log q (map Sink_Call cs) = written_to q cs"
  by (simp_all add: written_log_def)

lemma written_to_other: "pipeline_calls_ok A calls \<Longrightarrow> q \<notin> A \<Longrightarrow> written_to q calls = []"
  by (induction q calls rule: written_to.induct) (auto simp: pipeline_calls_ok_def)

section \<open>The invariant\<close>

definition pending :: "daemon \<Rightarrow> batch" where
  "pending d = (case d_pipeline d of None \<Rightarrow> [] | Some p \<Rightarrow> pl_batch p)"

text \<open>
  \<open>recs\<close> being the records made so far: a sink loaded from the first (one of \<open>F\<close>) has been
  given all of them but the pending ones; one loaded later all from some point on; one that
  is gone a contiguous part; an address not used yet nothing.
\<close>

definition delivery_inv :: "sink_ptr set \<Rightarrow> st_record list \<Rightarrow> daemon \<Rightarrow> bool" where
  "delivery_inv F recs d \<longleftrightarrow>
     suffix (pending d) recs
     \<and> (\<forall>q. if q \<in> live_sinks d then suffix (concat (written_log q (d_log d)) @ pending d) recs
            else sublist (concat (written_log q (d_log d))) recs)
     \<and> (\<forall>q \<in> F \<inter> live_sinks d. concat (written_log q (d_log d)) @ pending d = recs)
     \<and> (\<forall>q. d_fresh d \<le> q \<longrightarrow> written_log q (d_log d) = [])
     \<and> F \<subseteq> {..<d_fresh d}"

lemma delivery_invD:
  assumes "delivery_inv F recs d"
  shows "q \<in> live_sinks d \<Longrightarrow> suffix (concat (written_log q (d_log d)) @ pending d) recs"
    and "q \<notin> live_sinks d \<Longrightarrow> sublist (concat (written_log q (d_log d))) recs"
    and "q \<in> F \<Longrightarrow> q \<in> live_sinks d \<Longrightarrow> concat (written_log q (d_log d)) @ pending d = recs"
    and "d_fresh d \<le> q \<Longrightarrow> written_log q (d_log d) = []" and "suffix (pending d) recs"
    and "F \<subseteq> {..<d_fresh d}"
proof -
  from assms have all: "\<And>q. if q \<in> live_sinks d then suffix (concat (written_log q (d_log d)) @ pending d) recs
      else sublist (concat (written_log q (d_log d))) recs"
    "\<And>q. q \<in> F \<inter> live_sinks d \<Longrightarrow> concat (written_log q (d_log d)) @ pending d = recs"
    "\<And>q. d_fresh d \<le> q \<Longrightarrow> written_log q (d_log d) = []" "suffix (pending d) recs" "F \<subseteq> {..<d_fresh d}"
    unfolding delivery_inv_def by simp_all
  show "q \<in> live_sinks d \<Longrightarrow> suffix (concat (written_log q (d_log d)) @ pending d) recs"
    and "q \<notin> live_sinks d \<Longrightarrow> sublist (concat (written_log q (d_log d))) recs"
    using all(1) [of q] by simp_all
  show "q \<in> F \<Longrightarrow> q \<in> live_sinks d \<Longrightarrow> concat (written_log q (d_log d)) @ pending d = recs"
    using all(2) [of q] by simp
qed (use assms in \<open>simp_all add: delivery_inv_def\<close>)

text \<open>An operation on components: nothing is written, sinks go or come at new addresses.\<close>

definition quiet :: "daemon \<Rightarrow> daemon \<Rightarrow> bool" where
  "quiet d d' \<longleftrightarrow>
     pending d' = pending d \<and> (\<forall>q. written_log q (d_log d') = written_log q (d_log d))
     \<and> live_sinks d' \<subseteq> live_sinks d \<union> {d_fresh d..} \<and> d_fresh d \<le> d_fresh d'"

lemma suffix_parts: "suffix (w @ b) recs \<Longrightarrow> sublist w recs"
  by (auto simp: suffix_def sublist_def)

lemma quiet_refl [simp]: "quiet d d"
  by (simp add: quiet_def)

lemma quiet_delivery:
  assumes inv: "delivery_inv F recs d" and quiet: "quiet d d'"
  shows "delivery_inv F recs d'"
proof -
  have same: "pending d' = pending d" "\<And>q. written_log q (d_log d') = written_log q (d_log d)"
    "\<And>q. q \<in> live_sinks d' \<Longrightarrow> q \<notin> live_sinks d \<Longrightarrow> d_fresh d \<le> q" "d_fresh d \<le> d_fresh d'"
    using quiet by (auto simp: quiet_def)
  show ?thesis
    unfolding delivery_inv_def same(1,2)
  proof (intro conjI allI ballI)
    show "suffix (pending d) recs" and "F \<subseteq> {..<d_fresh d'}"
      using inv same(4) by (auto simp: delivery_inv_def)
    show "d_fresh d' \<le> q \<longrightarrow> written_log q (d_log d) = []" for q
      using inv same(4) by (auto simp: delivery_inv_def)
    show "concat (written_log q (d_log d)) @ pending d = recs" if "q \<in> F \<inter> live_sinks d'" for q
      using inv same(3) that by (force simp: delivery_inv_def)
    show "if q \<in> live_sinks d' then suffix (concat (written_log q (d_log d)) @ pending d) recs
          else sublist (concat (written_log q (d_log d))) recs" for q
    proof (cases "q \<in> live_sinks d")
      case True
      then have "suffix (concat (written_log q (d_log d)) @ pending d) recs"
        using inv by (auto simp: delivery_inv_def)
      then show ?thesis using suffix_parts by auto
    next
      case False
      with inv same(3) [of q] show ?thesis by (auto simp: delivery_inv_def)
    qed
  qed
qed

lemma quiet_trans: "quiet d d' \<Longrightarrow> quiet d' d'' \<Longrightarrow> quiet d d''"
  by (auto simp: quiet_def)

lemma quiet_fold: "(\<And>x d. quiet d (f x d)) \<Longrightarrow> quiet d (fold f xs d)"
  by (induction xs arbitrary: d) (auto intro: quiet_trans)

section \<open>Operations on components are quiet\<close>

lemma add_sink_quiet: "quiet d (add_sink env i c d)"
  by (auto simp: quiet_def add_sink_def live_sinks_def pending_def set_sinks_def written_log_def
      split: prod.split option.split)

lemma remove_sink_quiet: "quiet d (remove_sink i d)"
proof -
  have sub: "set (erase_first P xs) \<subseteq> set xs" for P and xs :: "loaded_sink list"
    by (induction xs) auto
  show ?thesis
    using sub by (fastforce simp: quiet_def remove_sink_def Let_def live_sinks_def pending_def set_sinks_def
        written_log_def split: option.split)
qed

lemma add_probe_quiet: "quiet d (add_probe env i c d)"
  by (auto simp: quiet_def add_probe_def Let_def live_sinks_def pending_def written_log_def
      split: prod.split option.split)

lemma forget_probe_quiet: "quiet d (forget_probe P lp d)"
  by (auto simp: quiet_def forget_probe_def live_sinks_def pending_def written_log_def)

lemma forget_dropped_quiet: "quiet d (forget_dropped ps d)"
  by (induction ps d rule: forget_dropped.induct)
    (auto split: option.split intro: quiet_trans [OF forget_probe_quiet])

lemma remove_probe_quiet: "quiet d (remove_probe env i d)"
proof -
  have loop: "quiet d (d\<lparr>d_loop := el\<rparr>)" for el by (simp add: quiet_def live_sinks_def pending_def)
  show ?thesis
    by (auto simp: remove_probe_def split: option.split prod.split
        intro!: quiet_trans [OF loop quiet_trans [OF forget_probe_quiet forget_dropped_quiet]])
qed

lemma start_watcher_quiet: "start_cgroup_watcher env d = (ok, d') \<Longrightarrow> quiet d d'"
  by (auto simp: quiet_def start_cgroup_watcher_def Let_def live_sinks_def pending_def written_log_def
      split: if_splits prod.splits)

lemma config_quiet: "quiet d (d\<lparr>d_config := c\<rparr>)" "quiet d (d\<lparr>d_resolver := r\<rparr>)"
  by (simp_all add: quiet_def live_sinks_def pending_def)

lemma reload_quiet: "quiet d (reload_config env loaded d)"
  by (auto simp: reload_config_def Let_def split: sum.split option.split
      intro!: quiet_trans [OF _ config_quiet(1)]
        quiet_trans [OF quiet_trans [OF quiet_trans [OF quiet_fold quiet_fold] quiet_fold] quiet_fold]
        add_sink_quiet remove_sink_quiet add_probe_quiet remove_probe_quiet)

section \<open>Operations of the pipeline\<close>

text \<open>Any operation of the pipeline that makes the records \<open>new\<close>, seen from the daemon.\<close>

lemma pipeline_delivery:
  assumes inv: "delivery_inv F recs d" and old: "live_sinks d \<subseteq> {..<d_fresh d}" and p: "d_pipeline d = Some p"
    and wired: "pl_sinks p = map ls_sink (d_sinks d)" "distinct (pl_sinks p)"
    and step: "pipeline_step offset ev (p, res) = (calls, (p', res'))"
    and ok: "pipeline_calls_ok (set (pl_sinks p)) calls"
    and d': "d_log d' = d_log d @ map Sink_Call calls" "d_fresh d' = d_fresh d" "d_sinks d' = d_sinks d"
      "d_pipeline d' = Some p'"
  shows "delivery_inv F (recs @ step_record offset ev (p, res)) d'"
proof -
  let ?new = "step_record offset ev (p, res)"
  have live: "live_sinks d' = live_sinks d" "live_sinks d = set (pl_sinks p)"
    using d' wired by (simp_all add: live_sinks_def)
  have pend: "pending d = pl_batch p" "pending d' = pl_batch p'"
    using p d' by (simp_all add: pending_def)
  have on: "concat (written_to q calls) @ pending d' = pending d @ ?new" if "q \<in> live_sinks d" for q
    using step_conserves [of "(p, res)" q offset ev] that wired(2) step unfolding live(2) pend by simp
  have off: "written_to q calls = []" if "q \<notin> live_sinks d" for q
    using written_to_other [OF ok] that unfolding live(2) by blast
  have batch: "pending d' = [] \<or> pending d' = pending d @ ?new"
    using step unfolding pend
    by (cases ev) (auto simp: pipeline_step_eq add_record_eq ship_def Let_def
        simp del: pipeline_step.simps(1-3) split: if_splits)
  show ?thesis
    unfolding delivery_inv_def d' live(1)
  proof (intro conjI allI ballI)
    show "suffix (pending d') (recs @ ?new)"
      using inv batch by (auto simp: delivery_inv_def suffix_def)
    show "F \<subseteq> {..<d_fresh d}" using inv by (simp add: delivery_inv_def)
    fix q
    show "d_fresh d \<le> q \<longrightarrow> written_log q (d_log d @ map Sink_Call calls) = []"
      using inv old off [of q] by (cases "q \<in> live_sinks d") (auto simp: delivery_inv_def)
    show "if q \<in> live_sinks d then suffix (concat (written_log q (d_log d @ map Sink_Call calls)) @ pending d') (recs @ ?new)
       else sublist (concat (written_log q (d_log d @ map Sink_Call calls))) (recs @ ?new)"
    proof (cases "q \<in> live_sinks d")
      case True
      with inv have "suffix (concat (written_log q (d_log d)) @ pending d) recs" by (simp add: delivery_inv_def)
      then obtain before where "recs = before @ concat (written_log q (d_log d)) @ pending d"
        by (auto simp: suffix_def)
      with on [OF True] True show ?thesis by (auto simp: suffix_def)
    next
      case False
      with inv have "sublist (concat (written_log q (d_log d))) recs" by (auto simp: delivery_inv_def)
      with off [OF False] False show ?thesis
        by (auto simp: sublist_def) (metis append.assoc)
    qed
  next
    fix q assume q: "q \<in> F \<inter> live_sinks d"
    then show "concat (written_log q (d_log d @ map Sink_Call calls)) @ pending d' = recs @ ?new"
      using inv on [of q] by (auto simp: delivery_inv_def)
  qed
qed

lemma running_wired:
  assumes "running_inv d" and "d_pipeline d = Some p"
  shows "pl_sinks p = map ls_sink (d_sinks d)" and "distinct (pl_sinks p)"
    and "live_sinks d \<subseteq> {..<d_fresh d}"
  using assms by (auto simp: running_inv_def daemon_inv_def sinks_inv_def live_sinks_def)

lemma dispatch_steps:
  assumes run: "running_inv d"
  obtains (quiet) "dispatch_record offset pw ev d = []" "quiet d (dispatch offset pw ev d)"
  | (emitted) r p res p' calls res' where "d_pipeline d = Some p"
      "pipeline_step offset (Emit pw r) (p, res) = (calls, (p', res'))" "pipeline_calls_ok (set (pl_sinks p)) calls"
      "dispatch offset pw ev d = log_calls (map Sink_Call calls) (d\<lparr>d_pipeline := Some p', d_resolver := Some res'\<rparr>)"
      "dispatch_record offset pw ev d = step_record offset (Emit pw r) (p, res)"
proof -
  obtain probe out data where ev: "ev = (probe, out, data)" by (cases ev)
  show ?thesis
  proof (cases "dispatch_record offset pw ev d = []")
    case True
    then have "dispatch offset pw ev d = d \<or> (\<exists>r. dispatch offset pw ev d = d\<lparr>d_resolver := r\<rparr>)"
      unfolding ev by (auto simp: dispatch_record_def dispatch_def instance_emit_def
          split: option.splits if_splits)
    with True config_quiet(2) show ?thesis by (intro quiet) auto
  next
    case False
    then obtain lp r p res where lp: "d_watcher d \<noteq> Some probe"
      "find (\<lambda>lp. lp_probe lp = probe \<and> lp_emitter lp = out) (d_probes d) = Some lp"
      "lp_handler lp data = Some r" "d_pipeline d = Some p" "d_resolver d = Some res"
      unfolding ev by (auto simp: dispatch_record_def split: option.splits if_splits)
    obtain p' calls res' where "pipeline_emit offset pw (r\<lparr>rec_probe := lp_id lp\<rparr>) p res = ((p', calls), res')"
      by (metis prod.exhaust)
    from lp this emit_calls_ok [OF this] show ?thesis
      by (intro emitted [of p "r\<lparr>rec_probe := lp_id lp\<rparr>" res calls p' res'])
        (simp_all add: ev dispatch_def instance_emit_def dispatch_record_def)
  qed
qed

lemma dispatch_delivery:
  assumes inv: "delivery_inv F recs d" and run: "running_inv d"
  shows "delivery_inv F (recs @ dispatch_record offset pw ev d) (dispatch offset pw ev d)"
  using run
proof (cases rule: dispatch_steps [where offset = offset and pw = pw and ev = ev])
  case quiet
  from quiet_delivery [OF inv quiet(2)] quiet(1) show ?thesis by simp
next
  case (emitted r p res p' calls res')
  from pipeline_delivery [OF inv running_wired(3) [OF run emitted(1)] emitted(1)
      running_wired(1,2) [OF run emitted(1)] emitted(2,3)]
  show ?thesis by (simp add: emitted(4,5))
qed

lemma poll_delivery:
  "delivery_inv F recs d \<Longrightarrow> running_inv d \<Longrightarrow>
     delivery_inv F (recs @ poll_records offset pw evs d) (fold (dispatch offset pw) evs d)"
proof (induction evs arbitrary: d recs)
  case (Cons ev evs)
  from Cons.IH [OF dispatch_delivery [OF Cons.prems] dispatch_inv [OF Cons.prems(2)]]
  show ?case by simp
qed simp

text \<open>
  What a loaded sink has of the records: the batches the log says it was written, and the
  records that still wait in the batch.
\<close>

definition given_to :: "sink_ptr \<Rightarrow> daemon \<Rightarrow> st_record list" where
  "given_to q d = concat (written_log q (d_log d)) @ pending d"

lemma quiet_given: "quiet d d' \<Longrightarrow> given_to q d' = given_to q d"
  by (simp add: quiet_def given_to_def)

lemma step_given:
  assumes "running_inv d" and "q \<in> live_sinks d" and p: "d_pipeline d = Some p"
    and "pipeline_step offset ev (p, res) = (calls, (p', res'))"
    and "d_log d' = d_log d @ map Sink_Call calls" "d_pipeline d' = Some p'"
  shows "given_to q d' = given_to q d @ step_record offset ev (p, res)"
proof -
  have "q \<in> set (pl_sinks p)" "distinct (pl_sinks p)"
    using running_wired [OF assms(1) p] assms(2) by (simp_all add: live_sinks_def)
  with step_conserves [of "(p, res)" q offset ev] assms(3-) show ?thesis
    by (simp add: given_to_def pending_def)
qed

lemma dispatch_given:
  assumes run: "running_inv d" and live: "q \<in> live_sinks d"
  shows "given_to q (dispatch offset pw ev d) = given_to q d @ dispatch_record offset pw ev d"
  using run
proof (cases rule: dispatch_steps [where offset = offset and pw = pw and ev = ev])
  case quiet
  then show ?thesis by (simp add: quiet_given)
next
  case (emitted r p res p' calls res')
  from step_given [OF run live emitted(1,2)] show ?thesis by (simp add: emitted(4,5))
qed

lemma poll_given:
  "running_inv d \<Longrightarrow> q \<in> live_sinks d \<Longrightarrow>
     given_to q (fold (dispatch offset pw) evs d) = given_to q d @ poll_records offset pw evs d
     \<and> q \<in> live_sinks (fold (dispatch offset pw) evs d)"
proof (induction evs arbitrary: d)
  case (Cons ev evs)
  have "d_sinks (dispatch offset pw ev d) = d_sinks d"
    by (auto simp: dispatch_def instance_emit_def Let_def split: prod.split option.split)
  then have "q \<in> live_sinks (dispatch offset pw ev d)" using Cons.prems(2) by (simp add: live_sinks_def)
  from Cons.IH [OF dispatch_inv [OF Cons.prems(1)] this] dispatch_given [OF Cons.prems] show ?case by simp
qed simp

lemma on_pipeline_delivery:
  assumes inv: "delivery_inv F recs d" and run: "running_inv d"
    and step: "\<And>p res. pipeline_step offset ev (p, res) = (snd (f p), (fst (f p), res))"
    and ok: "\<And>p. pipeline_calls_ok (set (pl_sinks p)) (snd (f p))"
    and none: "\<And>s. step_record offset ev s = []"
  shows "delivery_inv F recs (on_pipeline f d)"
proof (cases "d_pipeline d")
  case None
  with inv show ?thesis by (simp add: on_pipeline_def)
next
  case (Some p)
  from pipeline_delivery [OF inv running_wired(3) [OF run Some] Some running_wired(1,2) [OF run Some] step ok]
  show ?thesis using Some none by (simp add: on_pipeline_def split: prod.split)
qed

lemma tick_delivery:
  assumes inv: "delivery_inv F recs d" and run: "running_inv d"
    and tick: "daemon_tick offset inp d = (go_on, d')"
  shows "delivery_inv F (recs @ tick_records offset inp d) d'"
proof -
  obtain ok events where poll: "loop_poll (ti_poll inp) (d_loop d) = (ok, events)"
    by (metis prod.exhaust)
  let ?recs = "recs @ tick_records offset inp d"
  define d1 where "d1 = fold (dispatch offset (ti_users inp)) events d"
  have 1: "delivery_inv F ?recs d1"
    using poll_delivery [OF inv run] poll by (simp add: d1_def tick_records_def)
  have run1: "running_inv d1"
    using run unfolding d1_def by (induction events arbitrary: d) (simp_all add: dispatch_inv)
  define d2 where "d2 = d1\<lparr>d_resolver := map_option (resolver_tick (ti_monotonic inp)) (d_resolver d1)\<rparr>"
  have 2: "delivery_inv F ?recs d2" unfolding d2_def by (rule quiet_delivery [OF 1 config_quiet(2)])
  have run2: "running_inv d2" by (rule running_inv_cong [OF _ _ _ _ _ _ _ _ run1]) (simp_all add: d2_def)
  define d3 where "d3 = on_pipeline (pipeline_tick (ti_steady inp)) d2"
  have 3: "delivery_inv F ?recs d3"
    unfolding d3_def
    by (rule on_pipeline_delivery [OF 2 run2, where offset = offset and ev = "Tick (ti_steady inp)"])
      (simp_all add: tick_calls_ok split: prod.split)
  have "d' = d1 \<or> d' = d3 \<or> (\<exists>env loaded. d' = reload_config env loaded d3)"
    using tick poll by (auto simp: daemon_tick_def Let_def d1_def d2_def d3_def split: if_splits option.splits)
  with 1 3 quiet_delivery [OF 3 reload_quiet] show ?thesis by blast
qed

lemma tick_given:
  assumes run: "running_inv d" and live: "q \<in> live_sinks d"
    and tick: "daemon_tick offset inp d = (go_on, d')"
  shows "given_to q d' = given_to q d @ tick_records offset inp d"
proof -
  obtain ok events where poll: "loop_poll (ti_poll inp) (d_loop d) = (ok, events)"
    by (metis prod.exhaust)
  define d1 where "d1 = fold (dispatch offset (ti_users inp)) events d"
  have 1: "given_to q d1 = given_to q d @ tick_records offset inp d" "q \<in> live_sinks d1"
    using poll_given [OF run live] poll by (simp_all add: d1_def tick_records_def)
  have run1: "running_inv d1"
    using run unfolding d1_def by (induction events arbitrary: d) (simp_all add: dispatch_inv)
  define d2 where "d2 = d1\<lparr>d_resolver := map_option (resolver_tick (ti_monotonic inp)) (d_resolver d1)\<rparr>"
  have run2: "running_inv d2" by (rule running_inv_cong [OF _ _ _ _ _ _ _ _ run1]) (simp_all add: d2_def)
  define d3 where "d3 = on_pipeline (pipeline_tick (ti_steady inp)) d2"
  have "given_to q d3 = given_to q d2"
  proof (cases "d_pipeline d2")
    case (Some p)
    obtain p' calls where t: "pipeline_tick (ti_steady inp) p = (p', calls)" by (metis prod.exhaust)
    have "q \<in> live_sinks d2" using 1(2) by (simp add: d2_def live_sinks_def)
    from step_given [OF run2 this Some, of offset "Tick (ti_steady inp)" undefined calls p' undefined d3] Some t
    show ?thesis by (simp add: d3_def on_pipeline_def)
  qed (simp add: d3_def on_pipeline_def)
  also have "given_to q d2 = given_to q d1" unfolding d2_def by (rule quiet_given [OF config_quiet(2)])
  finally have 3: "given_to q d3 = given_to q d1" .
  have "d' = d1 \<or> d' = d3 \<or> (\<exists>env loaded. d' = reload_config env loaded d3)"
    using tick poll by (auto simp: daemon_tick_def Let_def d1_def d2_def d3_def split: if_splits option.splits)
  with 1 3 quiet_given [OF reload_quiet] show ?thesis by metis
qed

lemma loop_delivery:
  "delivery_inv F recs d \<Longrightarrow> running_inv d \<Longrightarrow> \<forall>inp \<in> set inps. reload_ok inp \<Longrightarrow>
     daemon_loop offset inps d = (rc, d') \<Longrightarrow>
     delivery_inv F (recs @ loop_records offset inps d) d' \<and> running_inv d'"
proof (induction inps arbitrary: d recs)
  case (Cons inp inps)
  obtain go_on d1 where tick: "daemon_tick offset inp d = (go_on, d1)" by (metis prod.exhaust)
  have 1: "delivery_inv F (recs @ tick_records offset inp d) d1"
    by (rule tick_delivery [OF Cons.prems(1,2) tick])
  have run: "running_inv d1" using daemon_tick_inv [OF Cons.prems(2) _ tick] Cons.prems(3) by simp
  show ?case
  proof (cases go_on)
    case True
    with Cons.IH [OF 1 run] Cons.prems(3,4) tick show ?thesis by simp
  next
    case False
    with 1 run Cons.prems(4) tick show ?thesis by simp
  qed
qed simp

section \<open>A whole life\<close>

definition blank :: "daemon \<Rightarrow> bool" where
  "blank d \<longleftrightarrow> pending d = [] \<and> (\<forall>q. written_log q (d_log d) = [])"

lemma quiet_blank: "quiet d d' \<Longrightarrow> blank d \<Longrightarrow> blank d'"
  by (simp add: quiet_def blank_def)

lemma start_components_blank:
  assumes "blank d" and s: "start_components env now d = Some (ok, d')"
  shows "blank d'"
proof -
  define d1 where "d1 = fold (\<lambda>(ident, config). add_sink env ident config) (cfg_sinks (d_config d)) d"
  define d2 where "d2 = wire_sinks (d1\<lparr>d_pipeline :=
      Some (new_pipeline (pipeline_options_of (d_config d1)) [] now)\<rparr>)"
  obtain watching d3 where w: "start_cgroup_watcher env d2 = (watching, d3)" by (metis prod.exhaust)
  define d4 where "d4 = fold (\<lambda>(ident, config). add_probe env ident config) (cfg_probes (d_config d3)) d3"
  have "quiet d d1" unfolding d1_def by (rule quiet_fold) (auto simp: add_sink_quiet)
  with assms(1) have b1: "blank d1" by (rule quiet_blank [rotated])
  then have "blank d2" by (simp add: d2_def blank_def pending_def new_pipeline_def set_sinks_def)
  then have b3: "blank d3" by (rule quiet_blank [OF start_watcher_quiet [OF w]])
  have "quiet d3 d4" unfolding d4_def by (rule quiet_fold) (auto simp: add_probe_quiet)
  then have "blank d4" using b3 by (rule quiet_blank)
  moreover have "d' = d1 \<or> d' = d3 \<or> d' = d4"
    using s w unfolding d1_def d2_def d4_def
    by (auto simp: start_components_def make_pipeline_def Let_def split: if_splits)
  ultimately show ?thesis using b1 b3 by auto
qed

lemma is_start_delivery: "is_start d \<Longrightarrow> delivery_inv (live_sinks d) [] d"
proof -
  assume start: "is_start d"
  then obtain env fs glob conf offset now c path where
    s: "daemon_start env fs glob conf offset now (new_daemon c path) = Some (True, d)"
    by (auto simp: is_start_def)
  then obtain res where sc: "start_components env now ((new_daemon c path)\<lparr>d_resolver := Some res\<rparr>) = Some (True, d)"
    by (auto simp: daemon_start_def Let_def split: if_splits option.splits prod.splits)
  have "blank ((new_daemon c path)\<lparr>d_resolver := Some res\<rparr>)"
    by (simp add: blank_def pending_def new_daemon_def)
  from start_components_blank [OF this sc] is_start_mem [OF start] show ?thesis
    by (auto simp: delivery_inv_def blank_def mem_inv_def)
qed

lemma run_delivery:
  assumes start: "is_start d0" and ok: "\<forall>inp \<in> set inps. reload_ok inp"
    and run: "daemon_run offset inps now d0 = (rc, d)"
  shows "delivery_inv (live_sinks d0) (loop_records offset inps d0) d" and "pending d = []"
proof -
  have inv0: "running_inv d0" using is_start_fully_started [OF start] by (simp add: fully_started_def)
  obtain d1 where loop: "daemon_loop offset inps d0 = (rc, d1)"
    and d: "d = on_pipeline (pipeline_flush now) d1"
    using run by (auto simp: daemon_run_def split: prod.splits)
  from loop_delivery [OF is_start_delivery [OF start] inv0 ok loop]
  have 1: "delivery_inv (live_sinks d0) (loop_records offset inps d0) d1" and run1: "running_inv d1" by simp_all
  show "delivery_inv (live_sinks d0) (loop_records offset inps d0) d"
    unfolding d
    by (rule on_pipeline_delivery [OF 1 run1, where offset = offset and ev = "Flush now"])
      (simp_all add: flush_calls_ok split: prod.split)
  show "pending d = []"
    unfolding d by (auto simp: on_pipeline_def pending_def pipeline_flush_def ship_def split: option.split prod.split)
qed

lemma kept_given:
  assumes "is_start d0" and "\<forall>inp \<in> set inps. reload_ok inp"
    and "daemon_run offset inps now d0 = (rc, d)" and "q \<in> live_sinks d0" and "q \<in> live_sinks d"
  shows "concat (written_log q (d_log d)) = loop_records offset inps d0"
  using delivery_invD(3) [OF run_delivery(1) [OF assms(1-3)] assms(4,5)] run_delivery(2) [OF assms(1-3)]
  by simp

section \<open>To the stream\<close>

text \<open>
  C5. Delivery by the daemon, through reloads: over any run from a successful start to the final
  flush, a sink that stays loaded is written exactly the records of the run, in order, and
  nothing is left pending; a sink added on the way gets all records from some point on; a sink
  removed on the way a contiguous part of them. No other sink's coming or going, no tick and
  no reload loses, duplicates or reorders a record.
\<close>

theorem daemon_delivery:
  assumes "is_start d0" and "\<forall>inp \<in> set inps. reload_ok inp"
    and "daemon_run offset inps now d0 = (rc, d)"
  shows "let recs = loop_records offset inps d0;
             given = (\<lambda>q. concat (written_log q (d_log d)));
             loaded = (\<lambda>d. ls_sink ` set (d_sinks d))
    in (q \<in> loaded d0 \<inter> loaded d \<longrightarrow> given q = recs)
       \<and> (q \<in> loaded d \<longrightarrow> suffix (given q) recs)
       \<and> sublist (given q) recs
       \<and> (\<forall>p. d_pipeline d = Some p \<longrightarrow> pl_batch p = [])"
proof -
  note inv = run_delivery(1) [OF assms] and none = run_delivery(2) [OF assms]
  have "if q \<in> live_sinks d then suffix (concat (written_log q (d_log d))) (loop_records offset inps d0)
        else sublist (concat (written_log q (d_log d))) (loop_records offset inps d0)"
    and "q \<in> live_sinks d0 \<inter> live_sinks d \<Longrightarrow> concat (written_log q (d_log d)) = loop_records offset inps d0"
    using delivery_invD(1-3) [OF inv, of q] none by (auto split: if_splits)
  moreover have "pl_batch p = []" if "d_pipeline d = Some p" for p
    using none that by (simp add: pending_def)
  ultimately show ?thesis
    using suffix_imp_sublist by (auto simp: Let_def live_sinks_def split: if_splits)
qed

lemma log_records:
  assumes "is_start d0" and "\<forall>inp \<in> set inps. reload_ok inp" and "daemon_run offset inps now d0 = (rc, d)"
    and "q \<in> live_sinks d0" and "q \<in> live_sinks d" and "b \<in> set (written_log q (d_log d))"
  shows "set b \<subseteq> set (loop_records offset inps d0)"
  unfolding kept_given [OF assms(1-5), symmetric] using assms(6) by auto

section \<open>A run with a reload\<close>

definition stream_config :: config where
  "stream_config = example_config\<lparr>
     cfg_probes := [(''procs'', [(''plugin'', ''proc_lifecycle'')])],
     cfg_sinks := [(''out'', [(''plugin'', ''stdout_json'')])]\<rparr>"

definition stream_start :: "(bool \<times> daemon) option" where
  "stream_start = daemon_start example_env example_fs (\<lambda>_. None) None 0 0 (new_daemon stream_config ''f'')"

definition stream_daemon :: daemon where
  "stream_daemon = snd (the stream_start)"

text \<open>An exec event, in an iteration that ends with a reload that adds a sink.\<close>

definition stream_next :: config where
  "stream_next = stream_config\<lparr>
     cfg_sinks := [(''nil'', [(''plugin'', ''null'')]), (''out'', [(''plugin'', ''stdout_json'')])]\<rparr>"

definition stream_tick :: tick_input where
  "stream_tick = \<lparr>ti_poll = Inr [(1, [encode_proc_event 0 (the (on_exec 0 True example_task))])],
     ti_monotonic = 0, ti_steady = 0, ti_reload = Some (example_env, Inr stream_next), ti_users = (\<lambda>_. None)\<rparr>"

lemma stream_started: "stream_start = Some (True, stream_daemon)"
proof -
  have "map_option fst stream_start = Some True" by code_simp
  then obtain d where "stream_start = Some (True, d)" by (cases stream_start) auto
  then show ?thesis unfolding stream_daemon_def by (metis option.sel snd_conv)
qed

lemma stream_is_start: "is_start stream_daemon"
proof -
  have "config_ok stream_config" by code_simp
  with example_rings stream_started show ?thesis unfolding is_start_def stream_start_def by blast
qed

lemma stream_reload_ok: "\<forall>inp \<in> set [stream_tick]. reload_ok inp"
proof -
  have "config_ok stream_next" by code_simp
  then show ?thesis by (simp add: stream_tick_def reload_ok_def example_rings)
qed

lemma stream_records:
  "loop_records 7 [stream_tick] stream_daemon = tick_records 7 stream_tick stream_daemon"
  "map (\<lambda>r. to_json example_dump r \<noteq> None) (tick_records 7 stream_tick stream_daemon) = [True]"
  "map ls_sink (d_sinks stream_daemon) = [1]"
proof -
  show "loop_records 7 [stream_tick] stream_daemon = tick_records 7 stream_tick stream_daemon"
    by (simp split: prod.split)
qed code_simp+

lemma stream_run:
  "case daemon_run 7 [stream_tick] 9 stream_daemon of (rc, d) \<Rightarrow>
     map ls_sink (d_sinks d) = [1, 5] \<and> map length (written_log 1 (d_log d)) = [1]"
  by code_simp

lemma daemon_delivery_witness:
  "\<exists>rc d. daemon_run 7 [stream_tick] 9 stream_daemon = (rc, d)
     \<and> concat (written_log 1 (d_log d)) = loop_records 7 [stream_tick] stream_daemon
     \<and> suffix (concat (written_log 5 (d_log d))) (loop_records 7 [stream_tick] stream_daemon)"
proof -
  obtain rc d where run: "daemon_run 7 [stream_tick] 9 stream_daemon = (rc, d)" by (metis prod.exhaust)
  have "1 \<in> set (map ls_sink (d_sinks stream_daemon))" "1 \<in> set (map ls_sink (d_sinks d))"
    "5 \<in> set (map ls_sink (d_sinks d))"
    using stream_records(3) stream_run run by simp_all
  with daemon_delivery [OF stream_is_start stream_reload_ok run, of 1]
    daemon_delivery [OF stream_is_start stream_reload_ok run, of 5] run
  show ?thesis by (simp add: Let_def)
qed

end
