(* ===== verification/MainArgs.thy ===== *)
theory MainArgs
  imports ConfigFile
begin

text \<open>
  \<^verbatim>\<open>core/main.cpp\<close>: the command line and the bridge from libbpf's log to the daemon's. The
  files a \<^verbatim>\<open>--config\<close> names are a function argument; \<^verbatim>\<open>vsnprintf\<close>'s result is the formatted
  text, or \<^const>\<open>None\<close> for an encoding error.
\<close>

section \<open>The command line\<close>

text \<open>The last: an exception out of the JSON parser, which nothing catches.\<close>

datatype args_result = Args_Run config string | Args_Error | Args_Help | Args_Uncaught

text \<open>The loop of \<^verbatim>\<open>parse_args\<close> over the arguments after \<^verbatim>\<open>argv[0]\<close>.\<close>

fun parse_args ::
  "json_lib \<Rightarrow> (string \<Rightarrow> string option) \<Rightarrow> string list \<Rightarrow> config \<Rightarrow> string \<Rightarrow> args_result" where
  "parse_args lib files [] config config_path = Args_Run config config_path"
| "parse_args lib files (arg # args) config config_path =
     (if arg = ''--config''
      then (case args of
          [] \<Rightarrow> Args_Error
        | path # rest \<Rightarrow>
            (case load_config_file lib path (files path) of
               None \<Rightarrow> Args_Uncaught
             | Some (Inl _) \<Rightarrow> Args_Error
             | Some (Inr loaded) \<Rightarrow> parse_args lib files rest loaded path))
      else if arg = ''-h'' \<or> arg = ''--help'' then Args_Help
      else Args_Error)"

text \<open>
  The first part of \<^verbatim>\<open>main\<close>: an exit code, or the configuration the daemon is built with, the
  log level being debug or not; \<^const>\<open>None\<close> when it does not return.
\<close>

definition main_args ::
  "json_lib \<Rightarrow> (string \<Rightarrow> string option) \<Rightarrow> string list \<Rightarrow> (int + (bool \<times> config \<times> string)) option" where
  "main_args lib files argv =
     (case parse_args lib files (tl argv) default_config [] of
        Args_Error \<Rightarrow> Some (Inl 1)
      | Args_Help \<Rightarrow> Some (Inl 0)
      | Args_Uncaught \<Rightarrow> None
      | Args_Run config config_path \<Rightarrow> Some (Inr (cfg_verbose config, config, config_path)))"

definition config_args :: "string list \<Rightarrow> string list" where
  "config_args paths = concat (map (\<lambda>p. [''--config'', p]) paths)"

text \<open>The configuration of the last of some files, if all of them load.\<close>

fun load_last :: "json_lib \<Rightarrow> (string \<Rightarrow> string option) \<Rightarrow> string list \<Rightarrow> config \<times> string \<Rightarrow> (config \<times> string) option" where
  "load_last lib files [] c = Some c"
| "load_last lib files (p # ps) c =
     (case load_config_file lib p (files p) of
        Some (Inr loaded) \<Rightarrow> load_last lib files ps (loaded, p) | _ \<Rightarrow> None)"

lemma parse_config_args:
  "parse_args lib files (config_args paths) c p = Args_Run c' p' \<longleftrightarrow>
     load_last lib files paths (c, p) = Some (c', p')"
  by (induction paths arbitrary: c p) (auto simp: config_args_def split: option.split sum.split)

lemma parse_args_Run:
  "parse_args lib files args c p = Args_Run c' p' \<Longrightarrow> \<exists>paths. args = config_args paths"
proof (induction lib files args c p rule: parse_args.induct)
  case (1 lib files c p)
  show ?case by (intro exI [of _ "[]"]) (simp add: config_args_def)
next
  case (2 lib files arg args c p)
  from 2(2) obtain path rest loaded where a: "arg = ''--config''" "args = path # rest"
    "load_config_file lib path (files path) = Some (Inr loaded)"
    "parse_args lib files rest loaded path = Args_Run c' p'"
    by (auto split: if_splits list.splits option.splits sum.splits)
  from 2(1) [OF a(1,2,3) refl a(4)] obtain paths where "rest = config_args paths" by blast
  then have "arg # args = config_args (path # paths)" using a by (simp add: config_args_def)
  then show ?case by blast
qed

text \<open>
  The command line is accepted exactly when it is a sequence of \<^verbatim>\<open>--config\<close> options whose
  files all load; the last file alone is the configuration (no option overrides it and
  nothing of an earlier file survives), and its path is what a reload reads.
\<close>

lemma parse_args_iff:
  "parse_args lib files args default_config [] = Args_Run c p \<longleftrightarrow>
     (\<exists>paths. args = config_args paths \<and> load_last lib files paths (default_config, []) = Some (c, p))"
proof
  assume run: "parse_args lib files args default_config [] = Args_Run c p"
  then obtain paths where "args = config_args paths" using parse_args_Run by blast
  with run show "\<exists>paths. args = config_args paths
      \<and> load_last lib files paths (default_config, []) = Some (c, p)"
    by (auto simp: parse_config_args)
qed (auto simp: parse_config_args)

section \<open>libbpf's messages\<close>

datatype libbpf_level = LIBBPF_WARN | LIBBPF_INFO | LIBBPF_DEBUG

text \<open>
  \<open>Out_Of_Bounds\<close> is a read past the end of the 1024-byte buffer, which holds the formatted
  text cut to 1023 characters and a null.
\<close>

datatype print_outcome = Silent | Logged_Warn string | Logged_Info string | Out_Of_Bounds

definition print_buffer_size :: nat where "print_buffer_size = 1024"

definition libbpf_print :: "libbpf_level \<Rightarrow> string option \<Rightarrow> print_outcome" where
  "libbpf_print level formatted =
     (if level = LIBBPF_DEBUG then Silent
      else case formatted of
        None \<Rightarrow> Silent
      | Some s \<Rightarrow>
          (let n = length s; buf = take (print_buffer_size - 1) s @ [CHR 0x00] in
           if n = 0 then Silent
           else if print_buffer_size < n then Out_Of_Bounds
           else let msg = take n buf;
                    msg' = (if msg \<noteq> [] \<and> last msg = CHR 0x0A then butlast msg else msg) in
             if level = LIBBPF_WARN then Logged_Warn msg' else Logged_Info msg'))"

text \<open>
  A message that fits the buffer is logged as libbpf wrote it, less its final newline;
  one longer than the buffer, a verifier log for instance, makes the daemon read past it:
  the length \<^verbatim>\<open>vsnprintf\<close> returns is the length before truncation.
\<close>

lemma libbpf_print_outcome:
  "libbpf_print level (Some s) =
     (if level = LIBBPF_DEBUG \<or> s = [] then Silent
      else if 1024 < length s then Out_Of_Bounds
      else let text = (if length s = 1024 then take 1023 s @ [CHR 0x00]
                       else if last s = CHR 0x0A then butlast s else s) in
        if level = LIBBPF_WARN then Logged_Warn text else Logged_Info text)"
  by (auto simp: libbpf_print_def print_buffer_size_def Let_def take_Cons' min_def)

end
