(* ===== verification/MainProgram.thy ===== *)
theory MainProgram
  imports DaemonDelivery MainArgs
begin

text \<open>
  \<^verbatim>\<open>main\<close> (\<^verbatim>\<open>core/main.cpp\<close>) and \<^verbatim>\<open>Daemon::run\<close> (\<^verbatim>\<open>core/daemon.cpp\<close>) with the signals that arrive
  while it runs. A handler only sets a flag; the main thread reads and clears the flags at fixed
  places. A run is any interleaving of the handlers with the steps of the main thread between
  two accesses to a flag. \<open>daemon_run\<close> is what is left of a run without the flags.
\<close>

section \<open>Signals\<close>

datatype signal = SIGINT | SIGTERM | SIGHUP

text \<open>\<^verbatim>\<open>g_stop\<close> and \<^verbatim>\<open>g_reload\<close>, which only ever hold 0 and 1.\<close>

record flags =
  f_stop :: bool
  f_reload :: bool

definition on_stop_signal :: "flags \<Rightarrow> flags" where
  "on_stop_signal f = f\<lparr>f_stop := True\<rparr>"

definition on_reload_signal :: "flags \<Rightarrow> flags" where
  "on_reload_signal f = f\<lparr>f_reload := True\<rparr>"

text \<open>The handlers \<^verbatim>\<open>main\<close> installs.\<close>

definition handle_signal :: "signal \<Rightarrow> flags \<Rightarrow> flags" where
  "handle_signal sig =
     (case sig of SIGINT \<Rightarrow> on_stop_signal | SIGTERM \<Rightarrow> on_stop_signal | SIGHUP \<Rightarrow> on_reload_signal)"

section \<open>The loop of run\<close>

text \<open>
  Where the main thread is: before \<^verbatim>\<open>stop == 0\<close>, in the body up to and with \<^verbatim>\<open>tick\<close>, before
  \<^verbatim>\<open>reload != 0\<close>, before \<^verbatim>\<open>reload = 0\<close>, in \<^verbatim>\<open>reload_config\<close>, after the loop, returned.
\<close>

datatype run_pc = Test_Stop | Polling | Test_Reload | Clear_Reload | Reloading | Flushing int | Returned int

record run_state =
  rs_pc :: run_pc
  rs_flags :: flags
  rs_daemon :: daemon

text \<open>
  \<open>Polled\<close> brings what the poll and the clocks say (the reload field of its input is not
  used), \<open>Reloaded\<close> what \<^verbatim>\<open>reload_config\<close> meets and the file it reads, \<open>Flushed\<close> the clock.
\<close>

datatype run_event =
    Signal signal
  | Step
  | Polled tick_input
  | Reloaded daemon_env "string option"
  | Flushed int

definition flag_step :: "run_state \<Rightarrow> run_state option" where
  "flag_step s =
     (case rs_pc s of
        Test_Stop \<Rightarrow> Some (s\<lparr>rs_pc := if f_stop (rs_flags s) then Flushing 0 else Polling\<rparr>)
      | Test_Reload \<Rightarrow> Some (s\<lparr>rs_pc := if f_reload (rs_flags s) then Clear_Reload else Test_Stop\<rparr>)
      | Clear_Reload \<Rightarrow> Some (s\<lparr>rs_pc := Reloading, rs_flags := (rs_flags s)\<lparr>f_reload := False\<rparr>\<rparr>)
      | _ \<Rightarrow> None)"

text \<open>
  \<^const>\<open>None\<close>: the event is not possible here, or, for \<open>Reloaded\<close>, an exception of the parser
  that nothing catches ends the process while the file is read again.
\<close>

fun run_exec :: "json_lib \<Rightarrow> u64 \<Rightarrow> run_event \<Rightarrow> run_state \<Rightarrow> run_state option" where
  "run_exec lib offset (Signal sig) s =
     (case rs_pc s of Returned _ \<Rightarrow> None | _ \<Rightarrow> Some (s\<lparr>rs_flags := handle_signal sig (rs_flags s)\<rparr>))"
| "run_exec lib offset Step s = flag_step s"
| "run_exec lib offset (Polled inp) s =
     (if rs_pc s \<noteq> Polling then None
      else let (go_on, d) = daemon_tick offset (inp\<lparr>ti_reload := None\<rparr>) (rs_daemon s) in
        Some (s\<lparr>rs_pc := if go_on then Test_Reload else Flushing 1, rs_daemon := d\<rparr>))"
| "run_exec lib offset (Reloaded env content) s =
     (if rs_pc s \<noteq> Reloading then None
      else case load_config_file lib (d_config_path (rs_daemon s)) content of
          None \<Rightarrow> None
        | Some loaded \<Rightarrow>
            Some (s\<lparr>rs_pc := Test_Stop, rs_daemon := reload_config env loaded (rs_daemon s)\<rparr>))"
| "run_exec lib offset (Flushed now) s =
     (case rs_pc s of
        Flushing rc \<Rightarrow> Some (s\<lparr>rs_pc := Returned rc, rs_daemon := on_pipeline (pipeline_flush now) (rs_daemon s)\<rparr>)
      | _ \<Rightarrow> None)"

fun run_trace :: "json_lib \<Rightarrow> u64 \<Rightarrow> run_event list \<Rightarrow> run_state \<Rightarrow> run_state option" where
  "run_trace lib offset [] s = Some s"
| "run_trace lib offset (ev # evs) s =
     (case run_exec lib offset ev s of None \<Rightarrow> None | Some t \<Rightarrow> run_trace lib offset evs t)"

definition run_start :: "flags \<Rightarrow> daemon \<Rightarrow> run_state" where
  "run_start f d = \<lparr>rs_pc = Test_Stop, rs_flags = f, rs_daemon = d\<rparr>"

section \<open>The whole program\<close>

definition no_signals :: flags where "no_signals = \<lparr>f_stop = False, f_reload = False\<rparr>"

text \<open>
  The exit code of \<^verbatim>\<open>main\<close>, \<^const>\<open>None\<close> while it runs and when an uncaught exception ends the process. \<open>evs\<close> is what happens from the installation of
  the handlers on; signals that arrive during \<^verbatim>\<open>start\<close> are its first events.
\<close>

definition main_exit ::
  "json_lib \<Rightarrow> (string \<Rightarrow> string option) \<Rightarrow> string list \<Rightarrow> daemon_env \<Rightarrow> file_system
     \<Rightarrow> (string \<Rightarrow> string list option) \<Rightarrow> string option \<Rightarrow> u64 \<Rightarrow> int \<Rightarrow> run_event list \<Rightarrow> int option" where
  "main_exit lib files argv env fs glob cgroup_conf offset now evs =
     (case main_args lib files argv of
        None \<Rightarrow> None
      | Some (Inl rc) \<Rightarrow> Some rc
      | Some (Inr (verbose, config, config_path)) \<Rightarrow>
          (case daemon_start env fs glob cgroup_conf offset now (new_daemon config config_path) of
             None \<Rightarrow> None
           | Some (started_ok, d) \<Rightarrow>
               if \<not> started_ok then Some 1
               else (case run_trace lib offset evs (run_start no_signals d) of
                   None \<Rightarrow> None
                 | Some s \<Rightarrow> (case rs_pc s of Returned rc \<Rightarrow> Some rc | _ \<Rightarrow> None))))"

section \<open>Runs\<close>

fun is_poll :: "run_event \<Rightarrow> bool" where
  "is_poll (Polled inp) = True"
| "is_poll _ = False"

fun is_reload :: "run_event \<Rightarrow> bool" where
  "is_reload (Reloaded env content) = True"
| "is_reload _ = False"

fun is_signal :: "run_event \<Rightarrow> bool" where
  "is_signal (Signal sig) = True"
| "is_signal _ = False"

definition polls :: "run_event list \<Rightarrow> nat" where "polls evs = length (filter is_poll evs)"
definition reloads :: "run_event list \<Rightarrow> nat" where "reloads evs = length (filter is_reload evs)"
definition hangups :: "run_event list \<Rightarrow> nat" where "hangups evs = length (filter (\<lambda>ev. ev = Signal SIGHUP) evs)"
definition own_steps :: "run_event list \<Rightarrow> nat" where "own_steps evs = length (filter (\<lambda>ev. \<not> is_signal ev) evs)"

lemma counts_simps [simp]:
  "polls [] = 0" "polls (ev # evs) = of_bool (is_poll ev) + polls evs" "polls (xs @ ys) = polls xs + polls ys"
  "reloads [] = 0" "reloads (ev # evs) = of_bool (is_reload ev) + reloads evs"
  "reloads (xs @ ys) = reloads xs + reloads ys"
  "hangups [] = 0" "hangups (ev # evs) = of_bool (ev = Signal SIGHUP) + hangups evs"
  "hangups (xs @ ys) = hangups xs + hangups ys"
  "own_steps [] = 0" "own_steps (ev # evs) = of_bool (\<not> is_signal ev) + own_steps evs"
  by (simp_all add: polls_def reloads_def hangups_def own_steps_def)

lemma run_trace_append:
  "run_trace lib offset (xs @ ys) s =
     (case run_trace lib offset xs s of None \<Rightarrow> None | Some t \<Rightarrow> run_trace lib offset ys t)"
  by (induction xs arbitrary: s) (auto split: option.split)

lemma handle_signal_simps [simp]:
  "f_stop (handle_signal sig f) = (f_stop f \<or> sig \<noteq> SIGHUP)"
  "f_reload (handle_signal sig f) = (f_reload f \<or> sig = SIGHUP)"
  by (cases sig; simp add: handle_signal_def on_stop_signal_def on_reload_signal_def)+

text \<open>Every step, seen from where the main thread is.\<close>

lemma run_exec_cases:
  assumes "run_exec lib offset ev s = Some t"
  obtains (signals) sig where "ev = Signal sig" "t = s\<lparr>rs_flags := handle_signal sig (rs_flags s)\<rparr>"
      "\<forall>rc. rs_pc s \<noteq> Returned rc"
  | (stops) "ev = Step" "rs_pc s = Test_Stop"
      "t = s\<lparr>rs_pc := if f_stop (rs_flags s) then Flushing 0 else Polling\<rparr>"
  | (tests) "ev = Step" "rs_pc s = Test_Reload"
      "t = s\<lparr>rs_pc := if f_reload (rs_flags s) then Clear_Reload else Test_Stop\<rparr>"
  | (clears) "ev = Step" "rs_pc s = Clear_Reload"
      "t = s\<lparr>rs_pc := Reloading, rs_flags := (rs_flags s)\<lparr>f_reload := False\<rparr>\<rparr>"
  | (polls) inp go_on d where "ev = Polled inp" "rs_pc s = Polling"
      "daemon_tick offset (inp\<lparr>ti_reload := None\<rparr>) (rs_daemon s) = (go_on, d)"
      "t = s\<lparr>rs_pc := if go_on then Test_Reload else Flushing 1, rs_daemon := d\<rparr>"
  | (reloads) env content loaded where "ev = Reloaded env content" "rs_pc s = Reloading"
      "load_config_file lib (d_config_path (rs_daemon s)) content = Some loaded"
      "t = s\<lparr>rs_pc := Test_Stop, rs_daemon := reload_config env loaded (rs_daemon s)\<rparr>"
  | (flushes) now rc where "ev = Flushed now" "rs_pc s = Flushing rc"
      "t = s\<lparr>rs_pc := Returned rc, rs_daemon := on_pipeline (pipeline_flush now) (rs_daemon s)\<rparr>"
  using assms
  by (cases ev) (auto simp: flag_step_def Let_def split: run_pc.splits prod.splits option.splits if_splits)

text \<open>A pending SIGHUP: the flag is set, or the file is about to be read.\<close>

definition owed :: "run_state \<Rightarrow> bool" where
  "owed s \<longleftrightarrow> f_reload (rs_flags s) \<or> rs_pc s = Reloading"

definition polls_before_reload :: "run_pc \<Rightarrow> nat" where
  "polls_before_reload pc = (case pc of Test_Stop \<Rightarrow> 1 | Polling \<Rightarrow> 1 | _ \<Rightarrow> 0)"

lemma owed_run:
  "run_trace lib offset evs s = Some t \<Longrightarrow> owed s \<Longrightarrow> reloads evs = 0 \<Longrightarrow>
     owed t \<and> polls evs \<le> polls_before_reload (rs_pc s)"
proof (induction evs arbitrary: s)
  case (Cons ev evs)
  then obtain u where u: "run_exec lib offset ev s = Some u" "run_trace lib offset evs u = Some t"
    by (auto split: option.splits)
  have "owed u \<and> of_bool (is_poll ev) + polls_before_reload (rs_pc u) \<le> polls_before_reload (rs_pc s)"
    using u(1) Cons.prems(2,3)
    by (cases rule: run_exec_cases) (auto simp: owed_def polls_before_reload_def)
  with Cons.IH [OF u(2)] Cons.prems(3) show ?case by simp
qed simp

text \<open>Every reload goes back to a SIGHUP of its own.\<close>

definition requested :: "run_state \<Rightarrow> nat" where
  "requested s = of_bool (f_reload (rs_flags s)) + of_bool (rs_pc s = Reloading)"

definition clear_ok :: "run_state \<Rightarrow> bool" where
  "clear_ok s \<longleftrightarrow> (rs_pc s = Clear_Reload \<longrightarrow> f_reload (rs_flags s))"

lemma requested_run:
  "run_trace lib offset evs s = Some t \<Longrightarrow> clear_ok s \<Longrightarrow>
     clear_ok t \<and> reloads evs + requested t \<le> hangups evs + requested s"
proof (induction evs arbitrary: s)
  case (Cons ev evs)
  then obtain u where u: "run_exec lib offset ev s = Some u" "run_trace lib offset evs u = Some t"
    by (auto split: option.splits)
  have "clear_ok u \<and> of_bool (is_reload ev) + requested u \<le> of_bool (ev = Signal SIGHUP) + requested s"
    using u(1) Cons.prems(2)
    by (cases rule: run_exec_cases) (auto simp: clear_ok_def requested_def)
  with Cons.IH [OF u(2)] show ?case by simp
qed simp

text \<open>Once a stop is requested the main thread has few steps left, and can take them.\<close>

definition steps_left :: "run_pc \<Rightarrow> nat" where
  "steps_left pc =
     (case pc of Polling \<Rightarrow> 6 | Test_Reload \<Rightarrow> 5 | Clear_Reload \<Rightarrow> 4 | Reloading \<Rightarrow> 3 | Test_Stop \<Rightarrow> 2
      | Flushing _ \<Rightarrow> 1 | Returned _ \<Rightarrow> 0)"

lemma stop_run:
  "run_trace lib offset evs s = Some t \<Longrightarrow> f_stop (rs_flags s) \<Longrightarrow>
     f_stop (rs_flags t) \<and> own_steps evs + steps_left (rs_pc t) \<le> steps_left (rs_pc s)
     \<and> polls evs \<le> of_bool (rs_pc s = Polling)"
proof (induction evs arbitrary: s)
  case (Cons ev evs)
  then obtain u where u: "run_exec lib offset ev s = Some u" "run_trace lib offset evs u = Some t"
    by (auto split: option.splits)
  have "f_stop (rs_flags u) \<and> of_bool (\<not> is_signal ev) + steps_left (rs_pc u) \<le> steps_left (rs_pc s)
      \<and> of_bool (is_poll ev) + of_bool (rs_pc u = Polling) \<le> (of_bool (rs_pc s = Polling) :: nat)"
    using u(1) Cons.prems(2)
    by (cases rule: run_exec_cases) (auto simp: steps_left_def)
  with Cons.IH [OF u(2)] show ?case by simp
qed simp

lemma run_progress:
  "(\<exists>rc. rs_pc s = Returned rc) \<or> (\<exists>ev t. \<not> is_signal ev \<and> run_exec lib offset ev s = Some t)"
proof (cases "rs_pc s")
  case Polling
  then have "\<exists>t. run_exec lib offset (Polled inp) s = Some t" for inp by (simp split: prod.split)
  then show ?thesis using is_signal.simps(3) by blast
next
  case Reloading
  then have "\<exists>t. run_exec lib offset (Reloaded env None) s = Some t" for env by (simp add: load_config_file_def)
  then show ?thesis using is_signal.simps(4) by blast
next
  case (Flushing rc)
  then have "\<exists>t. run_exec lib offset (Flushed now) s = Some t" for now by simp
  then show ?thesis using is_signal.simps(5) by blast
qed (auto simp: flag_step_def intro!: disjI2 exI [of _ Step])

section \<open>What is left without the flags\<close>

text \<open>The iterations of a run: each poll with the reload that follows it before the next.\<close>

fun next_reload :: "json_lib \<Rightarrow> string \<Rightarrow> run_event list \<Rightarrow> (daemon_env \<times> (string + config)) option" where
  "next_reload lib path [] = None"
| "next_reload lib path (Polled inp # evs) = None"
| "next_reload lib path (Reloaded env content # evs) = map_option (Pair env) (load_config_file lib path content)"
| "next_reload lib path (_ # evs) = next_reload lib path evs"

fun iterations :: "json_lib \<Rightarrow> string \<Rightarrow> run_event list \<Rightarrow> tick_input list" where
  "iterations lib path [] = []"
| "iterations lib path (Polled inp # evs) =
     inp\<lparr>ti_reload := next_reload lib path evs\<rparr> # iterations lib path evs"
| "iterations lib path (_ # evs) = iterations lib path evs"

fun flush_time :: "run_event list \<Rightarrow> int" where
  "flush_time [] = 0"
| "flush_time (Flushed now # evs) = now"
| "flush_time (_ # evs) = flush_time evs"

definition with_reload :: "(daemon_env \<times> (string + config)) option \<Rightarrow> daemon \<Rightarrow> daemon" where
  "with_reload r d = (case r of None \<Rightarrow> d | Some (env, loaded) \<Rightarrow> reload_config env loaded d)"

lemma daemon_tick_reload:
  "daemon_tick offset (inp\<lparr>ti_reload := r\<rparr>) d =
     (case daemon_tick offset (inp\<lparr>ti_reload := None\<rparr>) d of
        (go_on, d') \<Rightarrow> (go_on, if go_on then with_reload r d' else d'))"
  by (auto simp: daemon_tick_def Let_def with_reload_def split: prod.splits option.splits)

lemma reload_path [simp]: "d_config_path (reload_config env loaded d) = d_config_path d"
  by (simp add: reload_config_def Let_def fold_frame [where g = d_config_path] split: sum.split option.split)

lemma tick_path:
  assumes "daemon_tick offset inp d = (go_on, d')"
  shows "d_config_path d' = d_config_path d"
proof -
  have emit: "d_config_path (instance_emit offset pw i r e) = d_config_path e" for pw i r e
    by (simp add: instance_emit_def split: option.split prod.split)
  have "d_config_path (dispatch offset pw ev e) = d_config_path e" for pw ev e
    by (simp add: dispatch_def emit split: option.split prod.split)
  then have polled: "d_config_path (fold (dispatch offset pw) evs e) = d_config_path e" for pw evs e
    by (rule fold_frame)
  have "d_config_path (on_pipeline g e) = d_config_path e" for g e
    by (simp add: on_pipeline_def split: option.split prod.split)
  with polled show ?thesis
    using assms by (auto simp: daemon_tick_def Let_def split: prod.splits option.splits if_splits)
qed

text \<open>What remains of a run at each place, as a run of \<open>daemon_run\<close>.\<close>

definition remaining ::
  "json_lib \<Rightarrow> u64 \<Rightarrow> string \<Rightarrow> run_event list \<Rightarrow> run_state \<Rightarrow> int \<times> daemon \<Rightarrow> bool" where
  "remaining lib offset path evs s res \<longleftrightarrow>
     (case rs_pc s of
        Flushing rc \<Rightarrow> next_reload lib path evs = None \<and> iterations lib path evs = []
          \<and> res = (rc, on_pipeline (pipeline_flush (flush_time evs)) (rs_daemon s))
      | Returned rc \<Rightarrow> evs = [] \<and> res = (rc, rs_daemon s)
      | pc \<Rightarrow> (pc \<in> {Test_Stop, Polling} \<longrightarrow> next_reload lib path evs = None)
          \<and> res = daemon_run offset (iterations lib path evs) (flush_time evs)
              (with_reload (next_reload lib path evs) (rs_daemon s)))"

lemma run_remaining:
  assumes "run_trace lib offset evs s = Some t" and "rs_pc t = Returned rc" and "d_config_path (rs_daemon s) = path"
  shows "remaining lib offset path evs s (rc, rs_daemon t)"
  using assms
proof (induction evs arbitrary: s)
  case Nil
  then show ?case by (simp add: remaining_def)
next
  case (Cons ev evs)
  then obtain u where u: "run_exec lib offset ev s = Some u" "run_trace lib offset evs u = Some t"
    by (auto split: option.splits)
  have path: "d_config_path (rs_daemon u) = path"
    using u(1) Cons.prems(3)
    by (cases rule: run_exec_cases) (auto dest: tick_path simp: on_pipeline_def split: option.split prod.split)
  note IH = Cons.IH [OF u(2) Cons.prems(2) path]
  from u(1) show ?case
  proof (cases rule: run_exec_cases)
    case (signals sig)
    with IH show ?thesis by (simp add: remaining_def split: run_pc.splits)
  next
    case stops
    with IH show ?thesis
      by (auto simp: remaining_def with_reload_def daemon_run_def split: if_splits)
  next
    case tests
    with IH show ?thesis by (auto simp: remaining_def with_reload_def split: if_splits)
  next
    case clears
    with IH show ?thesis by (simp add: remaining_def)
  next
    case (polls inp go_on d)
    with IH show ?thesis
      by (auto simp: remaining_def with_reload_def daemon_run_def daemon_tick_reload [where r = "next_reload lib path evs"]
          split: if_splits prod.splits)
  next
    case (reloads env content loaded)
    with IH Cons.prems(3) show ?thesis by (simp add: remaining_def with_reload_def)
  next
    case (flushes now rc')
    with IH show ?thesis by (simp add: remaining_def)
  qed
qed

lemma iterations_ok:
  "\<forall>env content. Reloaded env content \<in> set evs \<longrightarrow> rings_ok env \<Longrightarrow>
     (\<forall>inp \<in> set (iterations lib path evs). reload_ok inp)
     \<and> (case next_reload lib path evs of Some (env, Inr c) \<Rightarrow> rings_ok env \<and> config_ok c | _ \<Rightarrow> True)"
proof (induction evs)
  case (Cons ev evs)
  then have "\<forall>env content. Reloaded env content \<in> set evs \<longrightarrow> rings_ok env" by simp
  from Cons.IH [OF this] Cons.prems show ?case
    by (cases ev) (auto simp: reload_ok_def dest: load_ok split: option.splits sum.splits)
qed simp

text \<open>Whether some poll of a run failed.\<close>

fun poll_fails :: "json_lib \<Rightarrow> u64 \<Rightarrow> run_event list \<Rightarrow> run_state \<Rightarrow> bool" where
  "poll_fails lib offset [] s = False"
| "poll_fails lib offset (ev # evs) s =
     ((case ev of Polled inp \<Rightarrow> \<not> fst (loop_poll (ti_poll inp) (d_loop (rs_daemon s))) | _ \<Rightarrow> False)
      \<or> (case run_exec lib offset ev s of None \<Rightarrow> False | Some t \<Rightarrow> poll_fails lib offset evs t))"

lemma tick_go_on: "fst (daemon_tick offset inp d) = fst (loop_poll (ti_poll inp) (d_loop d))"
  by (simp add: daemon_tick_def Let_def split: prod.split)

text \<open>The exit code is decided where the loop is left.\<close>

lemma run_exit_code:
  "run_trace lib offset evs s = Some t \<Longrightarrow> rs_pc t = Returned rc \<Longrightarrow>
     (case rs_pc s of
        Flushing rc' \<Rightarrow> rc = rc' \<and> \<not> poll_fails lib offset evs s
      | Returned rc' \<Rightarrow> rc = rc' \<and> \<not> poll_fails lib offset evs s
      | _ \<Rightarrow> rc = (if poll_fails lib offset evs s then 1 else 0) \<and> (rc = 0 \<longrightarrow> f_stop (rs_flags t)))"
proof (induction evs arbitrary: s)
  case (Cons ev evs)
  then obtain u where u: "run_exec lib offset ev s = Some u" "run_trace lib offset evs u = Some t"
    by (auto split: option.splits)
  have stop: "f_stop (rs_flags t)" if "f_stop (rs_flags u)" using stop_run [OF u(2) that] by simp
  note IH = Cons.IH [OF u(2) Cons.prems(2)]
  from u(1) show ?case
  proof (cases rule: run_exec_cases)
    case (signals sig)
    with IH u(1) show ?thesis by (auto split: run_pc.splits)
  next
    case (polls inp go_on d)
    with tick_go_on [of offset "inp\<lparr>ti_reload := None\<rparr>" "rs_daemon s"] IH show ?thesis
      by (auto split: if_splits)
  qed (use IH u(1) stop in \<open>auto split: if_splits\<close>)
qed simp

lemma stop_from_signal:
  "run_trace lib offset evs s = Some t \<Longrightarrow> f_stop (rs_flags t) \<Longrightarrow>
     f_stop (rs_flags s) \<or> Signal SIGINT \<in> set evs \<or> Signal SIGTERM \<in> set evs"
proof (induction evs arbitrary: s)
  case (Cons ev evs)
  then obtain u where u: "run_exec lib offset ev s = Some u" "run_trace lib offset evs u = Some t"
    by (auto split: option.splits)
  with u(1) Cons.IH [OF u(2) Cons.prems(2)] show ?case
    by (cases rule: run_exec_cases) (auto, metis signal.exhaust)
qed simp

text \<open>
  The daemon \<^verbatim>\<open>main\<close> runs is one the theorems about \<open>is_start\<close> and \<open>daemon_run\<close> speak of, whatever
  the files hold.
\<close>

lemma load_last_ok:
  "load_last lib files paths (c0, p0) = Some (c, p) \<Longrightarrow> config_ok c0 \<Longrightarrow> config_ok c"
proof (induction paths arbitrary: c0 p0)
  case (Cons q paths)
  then obtain c1 where "load_config_file lib q (files q) = Some (Inr c1)" "load_last lib files paths (c1, q) = Some (c, p)"
    by (auto split: option.splits sum.splits)
  with Cons.IH load_ok show ?case by blast
qed simp

lemma program_is_start:
  assumes "main_args lib files argv = Some (Inr (verbose, c, path))" and "rings_ok env"
    and "daemon_start env fs glob cgroup_conf offset now (new_daemon c path) = Some (True, d)"
  shows "is_start d"
proof -
  from assms(1) have run: "parse_args lib files (tl argv) default_config [] = Args_Run c path"
    by (auto simp: main_args_def split: args_result.splits)
  then obtain paths where "tl argv = config_args paths" using parse_args_Run by blast
  with run have "load_last lib files paths (default_config, []) = Some (c, path)"
    by (auto simp: parse_config_args)
  moreover have "config_ok default_config" by code_simp
  ultimately have "config_ok c" by (rule load_last_ok)
  with assms(2,3) show ?thesis unfolding is_start_def by blast
qed

section \<open>Properties\<close>

text \<open>
  C12. The flags can be forgotten: a run of the loop that returns, with signals arriving anywhere,
  is \<open>daemon_run\<close> on its iterations, each poll taken with the reload that follows it before
  the next poll; the exit code and the daemon left behind are the same. Its inputs are those
  the theorems about \<open>daemon_run\<close> ask for: a file that was read is a well-formed configuration.
\<close>

theorem run_refines_daemon_run:
  assumes "run_trace lib offset evs (run_start f d) = Some s" and "rs_pc s = Returned rc"
    and "\<forall>env content. Reloaded env content \<in> set evs \<longrightarrow> rings_ok env"
  shows "daemon_run offset (iterations lib (d_config_path d) evs) (flush_time evs) d = (rc, rs_daemon s)
    \<and> (\<forall>inp \<in> set (iterations lib (d_config_path d) evs). reload_ok inp)"
  using run_remaining [OF assms(1,2), of "d_config_path d"] iterations_ok [OF assms(3)]
  by (simp add: remaining_def run_start_def with_reload_def)

text \<open>
  C13. No SIGHUP is lost and none is invented: after a SIGHUP, wherever it lands, the file is read
  again before a second poll returns; until then the request stays visible. There are never
  more reloads than SIGHUPs.
\<close>

theorem sighup_honoured:
  assumes "run_trace lib offset (xs @ Signal SIGHUP # ys) (run_start no_signals d) = Some s"
  shows "(reloads ys = 0 \<longrightarrow> polls ys \<le> 1 \<and> (f_reload (rs_flags s) \<or> rs_pc s = Reloading))
    \<and> reloads (xs @ Signal SIGHUP # ys) \<le> hangups (xs @ Signal SIGHUP # ys)"
proof
  obtain u v where u: "run_trace lib offset xs (run_start no_signals d) = Some u"
    "run_exec lib offset (Signal SIGHUP) u = Some v" "run_trace lib offset ys v = Some s"
    using assms by (auto simp: run_trace_append split: option.splits)
  have "owed v" using u(2) by (auto simp: owed_def split: run_pc.splits)
  moreover have "polls_before_reload pc \<le> 1" for pc by (simp add: polls_before_reload_def split: run_pc.split)
  ultimately show "reloads ys = 0 \<longrightarrow> polls ys \<le> 1 \<and> (f_reload (rs_flags s) \<or> rs_pc s = Reloading)"
    using owed_run [OF u(3)] order_trans unfolding owed_def by blast
  show "reloads (xs @ Signal SIGHUP # ys) \<le> hangups (xs @ Signal SIGHUP # ys)"
    using requested_run [OF assms] by (simp add: clear_ok_def requested_def run_start_def no_signals_def)
qed

text \<open>
  C14. A stop is prompt: after SIGINT or SIGTERM, wherever it lands, at most the poll under way
  returns and the main thread takes at most six more steps; as long as it has not returned it can
  take one, whatever else arrives.
\<close>

theorem stop_honoured:
  assumes "run_trace lib offset (xs @ Signal sig # ys) (run_start f d) = Some s" and "sig \<in> {SIGINT, SIGTERM}"
  shows "polls ys \<le> 1 \<and> own_steps ys \<le> 6
    \<and> ((\<exists>rc. rs_pc s = Returned rc) \<or> (\<exists>ev t. \<not> is_signal ev \<and> run_exec lib offset ev s = Some t))"
proof -
  obtain u v where u: "run_trace lib offset xs (run_start f d) = Some u"
    "run_exec lib offset (Signal sig) u = Some v" "run_trace lib offset ys v = Some s"
    using assms(1) by (auto simp: run_trace_append split: option.splits)
  have "f_stop (rs_flags v)" using u(2) assms(2) by (auto split: run_pc.splits)
  moreover have "steps_left pc \<le> 6" for pc by (simp add: steps_left_def split: run_pc.split)
  ultimately have "polls ys \<le> 1 \<and> own_steps ys \<le> 6"
    using stop_run [OF u(3)] by (smt (verit) add_leD1 le_trans of_bool_def order_refl zero_le)
  with run_progress show ?thesis by blast
qed

text \<open>
  C30. The exit code tells the truth: it is 0 or 1. It is 0 only if help was asked for, or the
  daemon came up and was told to stop by SIGINT or SIGTERM; refused arguments and a start that
  fails give 1. Once the daemon is up, the code is 1 exactly if a poll failed, whether or not
  a stop was requested before.
\<close>

theorem exit_success_requested:
  assumes "main_exit lib files argv env fs glob cgroup_conf offset now evs = Some rc"
  shows "rc \<in> {0, 1}
    \<and> (rc = 0 \<longrightarrow>
        parse_args lib files (tl argv) default_config [] = Args_Help
        \<or> (\<exists>c path d. parse_args lib files (tl argv) default_config [] = Args_Run c path
             \<and> daemon_start env fs glob cgroup_conf offset now (new_daemon c path) = Some (True, d)
             \<and> (Signal SIGINT \<in> set evs \<or> Signal SIGTERM \<in> set evs)))
    \<and> (\<forall>c path d. parse_args lib files (tl argv) default_config [] = Args_Run c path
         \<and> daemon_start env fs glob cgroup_conf offset now (new_daemon c path) = Some (True, d)
         \<longrightarrow> (rc = 1 \<longleftrightarrow> poll_fails lib offset evs (run_start no_signals d)))"
proof (cases "parse_args lib files (tl argv) default_config []")
  case (Args_Run c path)
  then obtain ok d where st: "daemon_start env fs glob cgroup_conf offset now (new_daemon c path) = Some (ok, d)"
    using assms by (auto simp: main_exit_def main_args_def split: option.splits)
  show ?thesis
  proof (cases ok)
    case False
    with assms Args_Run st show ?thesis by (simp add: main_exit_def main_args_def)
  next
    case True
    then obtain s where s: "run_trace lib offset evs (run_start no_signals d) = Some s" "rs_pc s = Returned rc"
      using assms Args_Run st by (auto simp: main_exit_def main_args_def split: option.splits run_pc.splits)
    from run_exit_code [OF this] stop_from_signal [OF s(1)] have
      "rc = (if poll_fails lib offset evs (run_start no_signals d) then 1 else 0)"
      "rc = 0 \<longrightarrow> Signal SIGINT \<in> set evs \<or> Signal SIGTERM \<in> set evs"
      by (simp_all add: run_start_def no_signals_def)
    with Args_Run st True show ?thesis by auto
  qed
qed (use assms in \<open>simp_all add: main_exit_def main_args_def\<close>)

section \<open>A run with signals\<close>

text \<open>A hangup during a poll, a reload whose file cannot be opened, then a stop.\<close>

definition idle_tick :: tick_input where
  "idle_tick = \<lparr>ti_poll = Inl (- EINTR), ti_monotonic = 0, ti_steady = 0, ti_reload = None,
     ti_users = (\<lambda>_. None)\<rparr>"

definition before_hangup :: "run_event list" where
  "before_hangup = [Step]"

definition after_hangup :: "run_event list" where
  "after_hangup = [Polled idle_tick, Step, Step, Reloaded example_env None, Signal SIGTERM, Step, Flushed 9]"

definition signal_run :: "run_state option" where
  "signal_run = run_trace example_lib 0 (before_hangup @ Signal SIGHUP # after_hangup) (run_start no_signals example_daemon)"

lemma signal_run_returns: "map_option rs_pc signal_run = Some (Returned 0)"
  by code_simp

lemma run_refines_daemon_run_witness:
  "\<exists>d. daemon_run 0 [idle_tick\<lparr>ti_reload := Some (example_env, Inl ''cannot open f'')\<rparr>] 9 example_daemon = (0, d)"
proof -
  obtain s where s: "signal_run = Some s" "rs_pc s = Returned 0" using signal_run_returns by auto
  have "d_config_path example_daemon = ''f''" by code_simp
  moreover have "\<forall>env content. Reloaded env content \<in> set (before_hangup @ Signal SIGHUP # after_hangup) \<longrightarrow> rings_ok env"
    by (simp add: before_hangup_def after_hangup_def example_rings)
  ultimately show ?thesis
    using run_refines_daemon_run [OF s(1) [unfolded signal_run_def] s(2)]
    by (simp add: before_hangup_def after_hangup_def load_config_file_def)
qed

lemma sighup_honoured_witness:
  "\<exists>s. signal_run = Some s \<and> reloads (before_hangup @ Signal SIGHUP # after_hangup) \<le> 1"
proof -
  obtain s where s: "signal_run = Some s" using signal_run_returns by auto
  from sighup_honoured [OF s [unfolded signal_run_def]]
  have "reloads (before_hangup @ Signal SIGHUP # after_hangup) \<le> 1"
    by (simp add: before_hangup_def after_hangup_def)
  with s show ?thesis by blast
qed

lemma stop_honoured_witness:
  "own_steps [Step, Flushed 9] \<le> 6 \<and> map_option rs_pc signal_run = Some (Returned 0)"
proof -
  obtain s where "signal_run = Some s" using signal_run_returns by auto
  then have "run_trace example_lib 0
      ((before_hangup @ Signal SIGHUP # [Polled idle_tick, Step, Step, Reloaded example_env None])
        @ Signal SIGTERM # [Step, Flushed 9]) (run_start no_signals example_daemon) = Some s"
    by (simp only: signal_run_def after_hangup_def append.simps append_assoc)
  from stop_honoured [OF this] signal_run_returns show ?thesis by simp
qed

definition program_lib :: json_lib where
  "program_lib = example_lib\<lparr>lib_parse := (\<lambda>_. Parsed (JObject
     [(''node'', JObject [(''plugin_dir'', JString ''d'')]),
      (''slurm'', JObject [(''cgroup_root'', JString ''/c'')]),
      (''probes'', JObject [(''oom'', JObject [])]),
      (''sinks'', JObject [(''null'', JObject [])])]))\<rparr>"

lemma program_exit:
  "main_exit program_lib (\<lambda>_. Some ''text'') [''st'', ''--config'', ''f''] example_env example_fs (\<lambda>_. None) None 0 0
     [Step, Signal SIGINT, Polled idle_tick, Step, Step, Flushed 9] = Some 0"
  by code_simp

text \<open>A stop is requested while a poll is under way, and that poll fails.\<close>

lemma failing_exit:
  "main_exit program_lib (\<lambda>_. Some ''text'') [''st'', ''--config'', ''f''] example_env example_fs (\<lambda>_. None) None 0 0
     [Step, Signal SIGINT, Polled (idle_tick\<lparr>ti_poll := Inl (- 5)\<rparr>), Flushed 9] = Some 1"
  by code_simp

lemma exit_success_requested_witness:
  "\<exists>c d. parse_args program_lib (\<lambda>_. Some ''text'') [''--config'', ''f''] default_config [] = Args_Run c ''f''
     \<and> daemon_start example_env example_fs (\<lambda>_. None) None 0 0 (new_daemon c ''f'') = Some (True, d)
     \<and> poll_fails program_lib 0 [Step, Signal SIGINT, Polled (idle_tick\<lparr>ti_poll := Inl (- 5)\<rparr>), Flushed 9] (run_start no_signals d)"
proof -
  have "parse_args program_lib (\<lambda>_. Some ''text'') [''--config'', ''f''] default_config [] \<noteq> Args_Help"
    by (simp split: option.split sum.split)
  moreover have "path = ''f''" if "parse_args program_lib (\<lambda>_. Some ''text'') [''--config'', ''f''] default_config [] = Args_Run c path"
    for c path using that by (auto split: option.splits sum.splits)
  ultimately show ?thesis
    using exit_success_requested [OF program_exit] exit_success_requested [OF failing_exit] by auto
qed

end
