(* ===== verification/DaemonInstances.thy ===== *)
theory DaemonInstances
  imports DaemonDelivery
begin

text \<open>
  Instances and the configuration, through reloads: which settings a running sink has, and what
  becomes of an instance that did not come up.
\<close>

section \<open>An iteration is a poll and then perhaps a reload\<close>

definition same_instances :: "daemon \<Rightarrow> daemon \<Rightarrow> bool" where
  "same_instances d e \<longleftrightarrow>
     d_sinks e = d_sinks d \<and> d_probes e = d_probes d \<and> d_config e = d_config d
     \<and> d_loader e = d_loader d \<and> set (d_log d) \<subseteq> set (d_log e)"

lemma same_instances_trans: "same_instances d e \<Longrightarrow> same_instances e f \<Longrightarrow> same_instances d f"
  by (auto simp: same_instances_def)

lemma dispatch_same: "same_instances d (dispatch offset pw ev d)"
  by (auto simp: same_instances_def dispatch_def instance_emit_def Let_def split: prod.split option.split)

lemma on_pipeline_same: "same_instances d (on_pipeline f d)"
  by (auto simp: same_instances_def on_pipeline_def split: prod.split option.split)

lemma polls_same: "same_instances d (fold (dispatch offset pw) evs d)"
  by (induction evs arbitrary: d)
    (simp add: same_instances_def, metis dispatch_same same_instances_trans fold_simps(2))

lemma tick_then_reload:
  assumes "daemon_tick offset inp d = (go_on, d')"
  obtains e where "same_instances d e" "running_inv d \<Longrightarrow> running_inv e"
    "d' = e \<or> (\<exists>env loaded. ti_reload inp = Some (env, loaded) \<and> d' = reload_config env loaded e)"
proof -
  obtain ok events where poll: "loop_poll (ti_poll inp) (d_loop d) = (ok, events)"
    by (metis prod.exhaust)
  define d1 where "d1 = fold (dispatch offset (ti_users inp)) events d"
  define d2 where "d2 = d1\<lparr>d_resolver := map_option (resolver_tick (ti_monotonic inp)) (d_resolver d1)\<rparr>"
  define d3 where "d3 = on_pipeline (pipeline_tick (ti_steady inp)) d2"
  have s1: "same_instances d d1" unfolding d1_def by (rule polls_same)
  then have "same_instances d d2" by (simp add: d2_def same_instances_def)
  then have s3: "same_instances d d3"
    unfolding d3_def using on_pipeline_same same_instances_trans by blast
  have "running_inv (fold (dispatch offset (ti_users inp)) evs f)" if "running_inv f" for evs f
    using that by (induction evs arbitrary: f) (simp_all add: dispatch_inv)
  then have i1: "running_inv d \<Longrightarrow> running_inv d1" unfolding d1_def .
  have i2: "running_inv d1 \<Longrightarrow> running_inv d2"
    by (rule running_inv_cong [of _ d1]) (simp_all add: d2_def)
  have i3: "running_inv d2 \<Longrightarrow> running_inv d3" unfolding d3_def by (rule on_pipeline_inv) simp_all
  have "d' = d1 \<or> d' = d3 \<or> (\<exists>env loaded. ti_reload inp = Some (env, loaded) \<and> d' = reload_config env loaded d3)"
    using assms poll by (auto simp: daemon_tick_def Let_def d1_def d2_def d3_def split: if_splits option.splits)
  then show thesis using that [OF s1 i1] that [OF s3] i1 i2 i3 by blast
qed

text \<open>A fact about instances that polls keep and reloads keep holds through a run.\<close>

lemma run_keeps:
  assumes same: "\<And>d e. same_instances d e \<Longrightarrow> I d \<Longrightarrow> I e"
    and reload: "\<And>inp env loaded d. inp \<in> set inps \<Longrightarrow> ti_reload inp = Some (env, loaded)
       \<Longrightarrow> running_inv d \<Longrightarrow> I d \<Longrightarrow> I (reload_config env loaded d)"
    and ok: "\<forall>inp \<in> set inps. reload_ok inp"
    and start: "running_inv d0" "I d0" and run: "daemon_run offset inps now d0 = (rc, d)"
  shows "I d"
proof -
  have "I d'" if "daemon_loop offset evs d0 = (rc, d')" "set evs \<subseteq> set inps" "running_inv d0" "I d0" for evs d0 d'
    using that
  proof (induction evs arbitrary: d0)
    case (Cons inp evs)
    obtain go_on d1 where tick: "daemon_tick offset inp d0 = (go_on, d1)" by (metis prod.exhaust)
    from tick obtain e where e: "same_instances d0 e" "running_inv d0 \<Longrightarrow> running_inv e"
      "d1 = e \<or> (\<exists>env loaded. ti_reload inp = Some (env, loaded) \<and> d1 = reload_config env loaded e)"
      by (rule tick_then_reload) blast
    have "inp \<in> set inps" using Cons.prems(2) by simp
    with reload [of inp] same [OF e(1)] e(2,3) Cons.prems(3,4) have "I d1" by metis
    moreover have "running_inv d1" using daemon_tick_inv [OF Cons.prems(3) _ tick] ok \<open>inp \<in> set inps\<close> by blast
    ultimately show ?case
      using Cons.IH [of d1] Cons.prems(1,2) tick by (cases go_on) simp_all
  qed simp
  moreover obtain d1 where "daemon_loop offset inps d0 = (rc, d1)" "d = on_pipeline (pipeline_flush now) d1"
    using run by (auto simp: daemon_run_def split: prod.splits)
  ultimately show "I d" using start same [OF on_pipeline_same] by blast
qed

section \<open>An instance that is down\<close>

text \<open>The two kinds of instances: their table in a configuration and the ids that run.\<close>

definition sink_ids :: "daemon \<Rightarrow> string set" where "sink_ids d = ls_id ` set (d_sinks d)"
definition probe_ids :: "daemon \<Rightarrow> string set" where "probe_ids d = lp_id ` set (d_probes d)"

text \<open>The configuration names instance \<open>i\<close> with plugin \<open>pl\<close>, and no such instance runs.\<close>

definition down ::
  "(config \<Rightarrow> (string, component_config) std_map) \<Rightarrow> (daemon \<Rightarrow> string set) \<Rightarrow> string \<Rightarrow> string \<Rightarrow> daemon \<Rightarrow> bool" where
  "down tbl ids i pl d \<longleftrightarrow>
     i \<notin> ids d \<and> (case map_find (tbl (d_config d)) i of None \<Rightarrow> False | Some c \<Rightarrow> plugin_of i c = pl)"

text \<open>A file read by an iteration's reload still does.\<close>

definition still_names ::
  "(config \<Rightarrow> (string, component_config) std_map) \<Rightarrow> string \<Rightarrow> string \<Rightarrow> tick_input \<Rightarrow> bool" where
  "still_names tbl i pl inp \<longleftrightarrow>
     (case ti_reload inp of
        Some (env, Inr c) \<Rightarrow> (case map_find (tbl c) i of None \<Rightarrow> False | Some cc \<Rightarrow> plugin_of i cc = pl)
      | _ \<Rightarrow> True)"

lemma reload_down:
  assumes inv: "running_inv d" and ok: "rings_ok env" "config_ok nxt"
    and kind: "(tbl, ids) \<in> {(cfg_sinks, sink_ids), (cfg_probes, probe_ids)}"
    and down: "down tbl ids i pl d"
    and names: "case map_find (tbl nxt) i of None \<Rightarrow> False | Some cc \<Rightarrow> plugin_of i cc = pl"
  shows "down tbl ids i pl (reload_config env (Inr nxt) d)"
proof (cases "d_config_path d = [] \<or> diff_for_reload (d_config d) nxt = None")
  case True
  then have "reload_config env (Inr nxt) d = d" by (auto simp: reload_config_def)
  with down show ?thesis by simp
next
  case False
  then obtain diff where path: "d_config_path d \<noteq> []" and diff: "diff_for_reload (d_config d) nxt = Some diff"
    by auto
  let ?d = "reload_config env (Inr nxt) d"
  have cok: "config_ok (d_config d)" using inv by (simp add: running_inv_def)
  have same: "same_plugin (tbl (d_config d)) (tbl nxt) i"
    using down names by (auto simp: down_def same_plugin_def split: option.splits)
  note added = reload_added [OF diff cok ok(2)] and applied = reload_applied [OF inv path ok(2) diff ok(1)]
  from applied obtain new where "d_sinks ?d = filter (\<lambda>s. same_plugin (cfg_sinks (d_config d)) (cfg_sinks nxt) (ls_id s)) (d_sinks d) @ new"
    "map ls_id new = filter (\<lambda>i. sink_loads env (ld_plugin_dir (d_loader d)) i (the (map_find (cfg_sinks nxt) i))) (added_sinks diff)"
    by blast
  then have s: "sink_ids ?d \<subseteq> sink_ids d \<union> set (added_sinks diff)"
    by (auto simp: sink_ids_def dest!: arg_cong [of _ _ set])
  from applied obtain newp where "d_probes ?d = filter (\<lambda>p. same_plugin (cfg_probes (d_config d)) (cfg_probes nxt) (lp_id p)
           \<and> ((\<exists>q \<in> set (d_probes d). \<not> same_plugin (cfg_probes (d_config d)) (cfg_probes nxt) (lp_id q))
                \<longrightarrow> en_armable env (lp_probe p))) (d_probes d) @ newp" "lp_id ` set newp \<subseteq> set (added_probes diff)"
    by blast
  then have p: "probe_ids ?d \<subseteq> probe_ids d \<union> set (added_probes diff)"
    by (auto simp: probe_ids_def)
  from kind same s p applied down names show ?thesis by (auto simp: down_def added)
qed

section \<open>Where a sink's settings come from\<close>

text \<open>
  From \<open>d\<close> to \<open>d'\<close> the log grew, and every sink that is new was made from a section
  that satisfies \<open>R\<close>.
\<close>

definition made_from :: "(string \<Rightarrow> component_config \<Rightarrow> bool) \<Rightarrow> daemon_call list \<Rightarrow> loaded_sink \<Rightarrow> bool" where
  "made_from R calls s \<longleftrightarrow>
     (\<exists>c k. R (ls_id s) c \<and> sink_of_section (plugin_of (ls_id s) c) c = Some k
        \<and> Sink_Made (ls_id s) (ls_sink s) k \<in> set calls)"

lemma made_from_mono: "made_from R calls s \<Longrightarrow> set calls \<subseteq> set calls' \<Longrightarrow> made_from R calls' s"
  unfolding made_from_def by blast

definition grows :: "(string \<Rightarrow> component_config \<Rightarrow> bool) \<Rightarrow> daemon \<Rightarrow> daemon \<Rightarrow> bool" where
  "grows R d d' \<longleftrightarrow>
     ld_plugin_dir (d_loader d') = ld_plugin_dir (d_loader d) \<and> set (d_log d) \<subseteq> set (d_log d')
     \<and> (\<forall>s \<in> set (d_sinks d') - set (d_sinks d). made_from R (d_log d') s)"

lemma grows_refl [simp]: "grows R d d"
  by (simp add: grows_def)

lemma grows_trans: "grows R d d' \<Longrightarrow> grows R d' d'' \<Longrightarrow> grows R d d''"
  by (auto simp: grows_def intro: made_from_mono)

lemma grows_fold:
  assumes "\<And>x e. x \<in> set xs \<Longrightarrow> ld_plugin_dir (d_loader e) = dir \<Longrightarrow> grows R e (f x e)"
    and "ld_plugin_dir (d_loader d) = dir"
  shows "grows R d (fold f xs d)"
  using assms
proof (induction xs arbitrary: d)
  case (Cons x xs)
  then have "grows R d (f x d)" by simp
  moreover from this have "grows R (f x d) (fold f xs (f x d))"
    using Cons by (simp add: grows_def)
  ultimately show ?case by (simp add: grows_trans [of R d "f x d"])
qed simp

lemma add_sink_grows:
  assumes "en_disk env = built_tree (ld_plugin_dir (d_loader d))" and "R i c"
  shows "grows R d (add_sink env i c d)"
proof -
  obtain r l where r: "load_sink (en_disk env) i (plugin_of i c) c (d_loader d) = (r, l)"
    by (metis prod.exhaust)
  have "sink_of_section (plugin_of i c) c = r"
    using built_tree_loads(2) [of "d_loader d" i "plugin_of i c" c] r unfolding assms(1) [symmetric] by simp
  moreover have "ld_plugin_dir l = ld_plugin_dir (d_loader d)"
    using plugin_dir_frame(1) [of env i c d] r by (simp add: add_sink_sinks(2))
  ultimately show ?thesis
    using assms(2) r by (cases r) (auto simp: grows_def add_sink_def made_from_def)
qed

lemma remove_sink_grows: "grows R d (remove_sink i d)"
proof -
  have "set (erase_first P xs) \<subseteq> set xs" for P and xs :: "loaded_sink list"
    by (induction xs) auto
  then show ?thesis
    using plugin_dir_frame(2) [of i d]
    by (fastforce simp: grows_def remove_sink_def Let_def split: option.split)
qed

lemma load_probe_dir [simp]:
  "load_probe disk i pl c l = (r, l') \<Longrightarrow> ld_plugin_dir l' = ld_plugin_dir l"
  "ld_plugin_dir (unload_probe i l) = ld_plugin_dir l"
  by (auto simp: load_probe_def open_plugin_def unload_probe_def close_handle_def Let_def
      split: option.splits prod.splits)

lemma add_probe_grows: "grows R d (add_probe env i c d)"
  by (auto simp: grows_def add_probe_def Let_def split: prod.split option.split)

lemma forget_probe_grows: "grows R d (forget_probe P lp d)"
  by (auto simp: grows_def forget_probe_def)

lemma forget_dropped_grows: "grows R d (forget_dropped ps d)"
  by (induction ps d rule: forget_dropped.induct)
    (auto split: option.split intro: grows_trans [OF forget_probe_grows])

lemma remove_probe_grows: "grows R d (remove_probe env i d)"
proof -
  have "grows R d (d\<lparr>d_loop := el\<rparr>)" for el by (simp add: grows_def)
  then show ?thesis
    by (auto simp: remove_probe_def split: option.split prod.split
        intro!: grows_trans [OF _ grows_trans [OF forget_probe_grows forget_dropped_grows]])
qed

text \<open>A reload that is applied: the sinks it keeps, and from there on only growth.\<close>

lemma reload_grows:
  assumes inv: "running_inv d" and path: "d_config_path d \<noteq> []" and ok: "config_ok nxt"
    and diff: "diff_for_reload (d_config d) nxt = Some diff"
    and disk: "en_disk env = built_tree (ld_plugin_dir (d_loader d))"
  obtains d1 where "d_sinks d1 = filter (\<lambda>s. same_plugin (cfg_sinks (d_config d)) (cfg_sinks nxt) (ls_id s)) (d_sinks d)"
    "set (d_log d) \<subseteq> set (d_log d1)"
    "grows (\<lambda>i c. map_find (cfg_sinks nxt) i = Some c) d1 (reload_config env (Inr nxt) d)"
    "ld_plugin_dir (d_loader d1) = ld_plugin_dir (d_loader d)"
proof -
  let ?R = "\<lambda>i c. map_find (cfg_sinks nxt) i = Some c" and ?dir = "ld_plugin_dir (d_loader d)"
  have cok: "config_ok (d_config d)" and dinv: "daemon_inv d" using inv by (simp_all add: running_inv_def)
  define d1 where "d1 = fold remove_sink (removed_sinks diff) d"
  define d2 where "d2 = fold (\<lambda>i. add_sink env i (the (map_find (cfg_sinks nxt) i))) (added_sinks diff) d1"
  define d3 where "d3 = fold (remove_probe env) (removed_probes diff) d2"
  define d4 where "d4 = fold (\<lambda>i. add_probe env i (the (map_find (cfg_probes nxt) i))) (added_probes diff) d3"
  have g1: "grows ?R d d1" unfolding d1_def by (rule grows_fold [OF remove_sink_grows refl])
  have dir: "ld_plugin_dir (d_loader d1) = ?dir" by (simp add: d1_def)
  have "map_find (cfg_sinks nxt) i \<noteq> None" if "i \<in> set (added_sinks diff)" for i
    using that reload_added(1) [OF diff cok ok] by (auto simp: smap.set_keys)
  then have 2: "grows ?R d1 d2"
    unfolding d2_def by (intro grows_fold [OF _ dir] add_sink_grows) (auto simp: disk)
  have 3: "grows ?R d2 d3" unfolding d3_def by (rule grows_fold [OF remove_probe_grows refl])
  have 4: "grows ?R d3 d4" unfolding d4_def by (rule grows_fold [OF add_probe_grows refl])
  have "reload_config env (Inr nxt) d =
      d4\<lparr>d_config := (d_config d4)\<lparr>cfg_sinks := cfg_sinks nxt, cfg_probes := cfg_probes nxt\<rparr>\<rparr>"
    using path diff by (simp add: reload_config_def d1_def d2_def d3_def d4_def Let_def)
  then have "grows ?R d4 (reload_config env (Inr nxt) d)" by (simp add: grows_def)
  with 2 3 4 have g: "grows ?R d1 (reload_config env (Inr nxt) d)" by (blast intro: grows_trans)
  have "d_sinks d1 = filter (\<lambda>s. ls_id s \<notin> set (removed_sinks diff)) (d_sinks d)"
    using fold_remove_sink [OF dinv] by (simp add: d1_def)
  also have "\<dots> = filter (\<lambda>s. same_plugin (cfg_sinks (d_config d)) (cfg_sinks nxt) (ls_id s)) (d_sinks d)"
    using reload_diff_sound(2) [OF diff cok ok] inv unfolding diff_sound_def running_inv_def
    by (intro filter_cong refl) blast
  finally show thesis using that g g1 dir by (simp add: grows_def)
qed

text \<open>
  The settings of a running sink: those a configuration of \<open>read\<close> gave to the plugin that the
  configuration in force still names for it.
\<close>

definition configured_as :: "config list \<Rightarrow> config \<Rightarrow> string \<Rightarrow> component_config \<Rightarrow> bool" where
  "configured_as read cur i c \<longleftrightarrow>
     (\<exists>cfg \<in> set read. map_find (cfg_sinks cfg) i = Some c)
     \<and> (\<exists>now. map_find (cfg_sinks cur) i = Some now \<and> plugin_of i now = plugin_of i c)"

definition settings_inv :: "config list \<Rightarrow> daemon \<Rightarrow> bool" where
  "settings_inv read d \<longleftrightarrow>
     (\<forall>s \<in> set (d_sinks d). made_from (configured_as read (d_config d)) (d_log d) s)"

lemma made_from_weaken:
  "made_from R calls s \<Longrightarrow> (\<And>c. R (ls_id s) c \<Longrightarrow> R' (ls_id s) c) \<Longrightarrow> made_from R' calls s"
  unfolding made_from_def by blast

lemma settings_more: "settings_inv read d \<Longrightarrow> set read \<subseteq> set read' \<Longrightarrow> settings_inv read' d"
  unfolding settings_inv_def configured_as_def by (blast intro: made_from_weaken)

lemma same_settings: "same_instances d e \<Longrightarrow> settings_inv read d \<Longrightarrow> settings_inv read e"
  by (auto simp: same_instances_def settings_inv_def intro: made_from_mono)

lemma reload_settings:
  assumes inv: "running_inv d" and set: "settings_inv read d" and rings: "rings_ok env" and ok: "config_ok nxt"
    and disk: "en_disk env = built_tree (ld_plugin_dir (d_loader d))" and "nxt \<in> set read"
  shows "settings_inv read (reload_config env (Inr nxt) d)
    \<and> ld_plugin_dir (d_loader (reload_config env (Inr nxt) d)) = ld_plugin_dir (d_loader d)"
proof (cases "d_config_path d = [] \<or> diff_for_reload (d_config d) nxt = None")
  case True
  then have "reload_config env (Inr nxt) d = d" by (auto simp: reload_config_def)
  with set show ?thesis by simp
next
  case False
  then obtain diff where path: "d_config_path d \<noteq> []" and diff: "diff_for_reload (d_config d) nxt = Some diff"
    by auto
  let ?d = "reload_config env (Inr nxt) d"
  obtain d1 where d1: "d_sinks d1 = filter (\<lambda>s. same_plugin (cfg_sinks (d_config d)) (cfg_sinks nxt) (ls_id s)) (d_sinks d)"
    "set (d_log d) \<subseteq> set (d_log d1)"
    "grows (\<lambda>i c. map_find (cfg_sinks nxt) i = Some c) d1 ?d" "ld_plugin_dir (d_loader d1) = ld_plugin_dir (d_loader d)"
    by (rule reload_grows [OF inv path ok diff disk])
  have cfg: "cfg_sinks (d_config ?d) = cfg_sinks nxt" using reload_applied [OF inv path ok diff rings] by blast
  have "made_from (configured_as read (d_config ?d)) (d_log ?d) s" if s: "s \<in> set (d_sinks ?d)" for s
  proof (cases "s \<in> set (d_sinks d1)")
    case True
    then have "made_from (configured_as read (d_config d)) (d_log d) s"
      and same: "same_plugin (cfg_sinks (d_config d)) (cfg_sinks nxt) (ls_id s)"
      using set d1(1) by (simp_all add: settings_inv_def)
    moreover have "set (d_log d) \<subseteq> set (d_log ?d)" using d1 by (auto simp: grows_def)
    ultimately have "made_from (configured_as read (d_config d)) (d_log ?d) s" by (blast intro: made_from_mono)
    then show ?thesis
      by (rule made_from_weaken) (use same in \<open>auto simp: configured_as_def cfg same_plugin_def split: option.splits\<close>)
  next
    case False
    with d1(3) s have "made_from (\<lambda>i c. map_find (cfg_sinks nxt) i = Some c) (d_log ?d) s" by (simp add: grows_def)
    then show ?thesis
      by (rule made_from_weaken) (use assms(6) in \<open>auto simp: configured_as_def cfg\<close>)
  qed
  with d1(3,4) show ?thesis by (simp add: settings_inv_def grows_def)
qed

text \<open>A probe has the handler of the plugin that the configuration in force names for it.\<close>

definition handled :: "(string \<rightharpoonup> component_config) \<Rightarrow> loaded_probe \<Rightarrow> bool" where
  "handled tbl lp \<longleftrightarrow>
     (\<exists>c. tbl (lp_id lp) = Some c \<and> handler_of (plugin_of (lp_id lp) c) = Some (lp_handler lp))"

definition handlers_inv :: "daemon \<Rightarrow> bool" where
  "handlers_inv d \<longleftrightarrow> (\<forall>lp \<in> set (d_probes d). handled (map_find (cfg_probes (d_config d))) lp)"

lemma add_probe_handled:
  assumes "en_disk env = built_tree (ld_plugin_dir (d_loader d))" and "tbl i = Some c"
    and "\<forall>lp \<in> set (d_probes d). handled tbl lp"
  shows "\<forall>lp \<in> set (d_probes (add_probe env i c d)). handled tbl lp"
proof -
  have "handler_of (plugin_of i c) = fst (load_probe (en_disk env) i (plugin_of i c) c (d_loader d))"
    using built_tree_loads(1) [of "d_loader d" i "plugin_of i c" c] by (simp add: assms(1))
  with assms(2,3) show ?thesis
    by (auto simp: add_probe_def handled_def Let_def split: prod.split option.split)
qed

lemma fold_add_probe_handled:
  "en_disk env = built_tree (ld_plugin_dir (d_loader d)) \<Longrightarrow> \<forall>(i, c) \<in> set cs. tbl i = Some c \<Longrightarrow>
     \<forall>lp \<in> set (d_probes d). handled tbl lp \<Longrightarrow>
     \<forall>lp \<in> set (d_probes (fold (\<lambda>(i, c). add_probe env i c) cs d)). handled tbl lp"
proof (induction cs arbitrary: d)
  case (Cons x cs)
  obtain i c where x: "x = (i, c)" by (cases x)
  have "ld_plugin_dir (d_loader (add_probe env i c d)) = ld_plugin_dir (d_loader d)"
    using add_probe_grows [of "\<lambda>_ _. True" d env i c] by (simp add: grows_def)
  with Cons.IH [of "add_probe env i c d"] add_probe_handled [of env d tbl i c] Cons.prems
  show ?case by (simp add: x)
qed simp

lemma reload_handled:
  assumes inv: "running_inv d" and handled: "handlers_inv d" and rings: "rings_ok env" and ok: "config_ok nxt"
    and disk: "en_disk env = built_tree (ld_plugin_dir (d_loader d))"
  shows "handlers_inv (reload_config env (Inr nxt) d)"
proof (cases "d_config_path d = [] \<or> diff_for_reload (d_config d) nxt = None")
  case True
  then have "reload_config env (Inr nxt) d = d" by (auto simp: reload_config_def)
  with handled show ?thesis by simp
next
  case False
  then obtain diff where path: "d_config_path d \<noteq> []" and diff: "diff_for_reload (d_config d) nxt = Some diff"
    by auto
  have cok: "config_ok (d_config d)" and dinv: "daemon_inv d" using inv by (simp_all add: running_inv_def)
  let ?new = "map_find (cfg_probes nxt)" and ?R = "\<lambda>_ _. True"
  define d1 where "d1 = fold remove_sink (removed_sinks diff) d"
  define d2 where "d2 = fold (\<lambda>i. add_sink env i (the (map_find (cfg_sinks nxt) i))) (added_sinks diff) d1"
  define d3 where "d3 = fold (remove_probe env) (removed_probes diff) d2"
  define cs where "cs = map (\<lambda>i. (i, the (?new i))) (added_probes diff)"
  have d': "reload_config env (Inr nxt) d = (fold (\<lambda>(i, c). add_probe env i c) cs d3)\<lparr>d_config :=
      (d_config (fold (\<lambda>(i, c). add_probe env i c) cs d3))\<lparr>cfg_sinks := cfg_sinks nxt, cfg_probes := cfg_probes nxt\<rparr>\<rparr>"
    using path diff by (simp add: reload_config_def d1_def d2_def d3_def cs_def fold_map comp_def Let_def)
  have i1: "daemon_inv d1" and s1: "d_sinks d1 = filter (\<lambda>s. ls_id s \<notin> set (removed_sinks diff)) (d_sinks d)"
    using fold_remove_sink [OF dinv] by (simp_all add: d1_def)
  note ds = reload_diff_sound(2) [OF diff cok ok] and dp = reload_diff_sound(1) [OF diff cok ok]
  have "set (added_sinks diff) \<inter> ls_id ` set (d_sinks d1) = {}"
    using ds inv unfolding s1 diff_sound_def running_inv_def by auto
  then have i2: "daemon_inv d2"
    using fold_add_sink [OF i1, of "added_sinks diff" env "\<lambda>i. the (map_find (cfg_sinks nxt) i)"] ds
    by (simp add: d2_def diff_sound_def)
  have "d_probes d2 = d_probes d" by (simp add: d2_def d1_def fold_frame [where g = d_probes])
  moreover have "set (d_probes d3) \<subseteq> {lp \<in> set (d_probes d2). lp_id lp \<notin> set (removed_probes diff)}"
    unfolding d3_def fold_remove_probe [OF i2, THEN conjunct2] by auto
  moreover have "same_plugin (cfg_probes (d_config d)) (cfg_probes nxt) (lp_id lp)"
    if "lp \<in> set (d_probes d)" "lp_id lp \<notin> set (removed_probes diff)" for lp
    using dp inv that unfolding diff_sound_def running_inv_def by blast
  moreover have "handled (map_find xs) lp \<Longrightarrow> same_plugin xs ys (lp_id lp) \<Longrightarrow> handled (map_find ys) lp" for xs ys lp
    by (auto simp: handled_def same_plugin_def split: option.splits)
  ultimately have kept: "\<forall>lp \<in> set (d_probes d3). handled ?new lp"
    using handled unfolding handlers_inv_def by fastforce
  have "grows ?R d d1" unfolding d1_def by (rule grows_fold [OF remove_sink_grows refl])
  then have dir1: "ld_plugin_dir (d_loader d1) = ld_plugin_dir (d_loader d)" by (simp add: grows_def)
  have "grows ?R d1 d2" unfolding d2_def by (intro grows_fold [OF _ dir1] add_sink_grows) (simp_all add: disk)
  moreover have "grows ?R d2 d3" unfolding d3_def by (rule grows_fold [OF remove_probe_grows refl])
  ultimately have dir: "en_disk env = built_tree (ld_plugin_dir (d_loader d3))"
    using dir1 by (simp add: grows_def disk)
  have "\<forall>(i, c) \<in> set cs. ?new i = Some c"
    using reload_added(2) [OF diff cok ok] by (auto simp: cs_def smap.set_keys)
  from fold_add_probe_handled [OF dir this kept] show ?thesis by (simp add: d' handlers_inv_def)
qed

lemma start_settings:
  assumes start: "daemon_start env fs glob conf offset now (new_daemon cfg path) = Some (True, d)"
    and ok: "rings_ok env" "config_ok cfg" and disk: "en_disk env = built_tree (cfg_plugin_dir cfg)"
  shows "settings_inv [cfg] d \<and> handlers_inv d \<and> ld_plugin_dir (d_loader d) = cfg_plugin_dir cfg"
proof -
  obtain res where "start_components env now ((new_daemon cfg path)\<lparr>d_resolver := Some res\<rparr>) = Some (True, d)"
    using start by (auto simp: daemon_start_def Let_def split: if_splits option.splits prod.splits)
  then obtain e where sc: "start_components env now e = Some (True, d)" and e: "ld_plugin_dir (d_loader e) = cfg_plugin_dir cfg"
    "d_config e = cfg" "d_sinks e = []" "d_probes e = []"
    by (force simp: new_daemon_def new_loader_def)
  let ?R = "\<lambda>i c. map_find (cfg_sinks cfg) i = Some c"
  define d1 where "d1 = fold (\<lambda>(ident, config). add_sink env ident config) (cfg_sinks cfg) e"
  define d2 where "d2 = wire_sinks (d1\<lparr>d_pipeline := Some (new_pipeline (pipeline_options_of (d_config d1)) [] now)\<rparr>)"
  obtain w d3 where w: "start_cgroup_watcher env d2 = (w, d3)" by (metis prod.exhaust)
  have d: "d = fold (\<lambda>(ident, config). add_probe env ident config) (cfg_probes (d_config d3)) d3"
    using sc w by (simp add: start_components_def make_pipeline_def e(2) Let_def flip: d1_def d2_def split: if_splits)
  have maps: "map_ok (cfg_sinks cfg)" "map_ok (cfg_probes cfg)" using ok(2) by (simp_all add: config_ok_def)
  then have d1: "grows ?R e d1"
    unfolding d1_def by (intro grows_fold [OF _ e(1)]) (auto intro!: add_sink_grows simp: disk map_ok_in_set)
  moreover have "grows ?R d1 d2" by (simp add: d2_def grows_def)
  moreover have g23: "grows ?R d2 d3"
    using w by (auto simp: start_cgroup_watcher_def grows_def Let_def split: if_splits prod.splits)
  moreover have "grows ?R d3 d"
    unfolding d by (rule grows_fold [OF _ refl]) (auto simp: add_probe_grows)
  ultimately have g: "grows ?R e d" by (blast intro: grows_trans)
  have "d_config d1 = cfg" unfolding d1_def by (subst fold_frame [where g = d_config]) (auto simp: e(2))
  then have cfg3: "d_config d3 = cfg"
    using w by (auto simp: start_cgroup_watcher_def d2_def Let_def split: if_splits prod.splits)
  then have cfg: "d_config d = cfg" unfolding d by (subst fold_frame [where g = d_config]) auto
  have "d_probes d1 = []" unfolding d1_def by (subst fold_frame [where g = d_probes]) (auto simp: e(4))
  then have none: "d_probes d3 = []"
    using w by (auto simp: start_cgroup_watcher_def d2_def Let_def split: if_splits prod.splits)
  have "ld_plugin_dir (d_loader d3) = cfg_plugin_dir cfg"
    using g23 d1 e(1) by (simp add: d2_def grows_def)
  then have "\<forall>lp \<in> set (d_probes d). handled (map_find (cfg_probes cfg)) lp"
    unfolding d cfg3 using maps(2) none
    by (intro fold_add_probe_handled) (auto simp: disk map_ok_in_set)
  then have handlers: "handlers_inv d" by (simp add: handlers_inv_def cfg)
  from cfg have weak: "?R i c \<Longrightarrow> configured_as [cfg] (d_config d) i c" for i c by (simp add: configured_as_def)
  have "made_from (configured_as [cfg] (d_config d)) (d_log d) s" if "s \<in> set (d_sinks d)" for s
    by (rule made_from_weaken [OF _ weak]) (use g e(3) that in \<open>simp_all add: grows_def\<close>)
  with g e(1) handlers show ?thesis by (simp add: settings_inv_def grows_def)
qed

text \<open>The configurations the reloads of a run read, and the plugins they meet on disk.\<close>

definition configs_read :: "tick_input list \<Rightarrow> config list" where
  "configs_read inps = List.map_filter (\<lambda>inp. case ti_reload inp of Some (env, Inr c) \<Rightarrow> Some c | _ \<Rightarrow> None) inps"

definition reload_disk :: "string \<Rightarrow> tick_input \<Rightarrow> bool" where
  "reload_disk dir inp \<longleftrightarrow> (case ti_reload inp of None \<Rightarrow> True | Some (env, loaded) \<Rightarrow> en_disk env = built_tree dir)"

section \<open>A node that ships to a server\<close>

text \<open>
  One http sink; the reload of the only iteration changes a setting of it and adds another
  http sink.
\<close>

definition server_section :: "string \<Rightarrow> component_config" where
  "server_section timeout = [(''endpoint'', ''http://h/x''), (''max_queued_batches'', ''4''), (''plugin'', ''http''),
     (''timeout'', timeout)]"

definition server_config :: "(string, component_config) std_map \<Rightarrow> config" where
  "server_config sinks = example_config\<lparr>
     cfg_probes := [(''procs'', [(''plugin'', ''proc_lifecycle'')])], cfg_sinks := sinks\<rparr>"

definition server_start :: "(bool \<times> daemon) option" where
  "server_start = daemon_start example_env example_fs (\<lambda>_. None) None 0 0
     (new_daemon (server_config [(''srv'', server_section ''9s'')]) ''f'')"

definition server_daemon :: daemon where
  "server_daemon = snd (the server_start)"

definition server_tick :: tick_input where
  "server_tick = stream_tick\<lparr>ti_reload := Some (example_env, Inr (server_config
     [(''http'', [(''endpoint'', ''http://g/'')]), (''srv'', server_section ''1s'')]))\<rparr>"

definition server_opt :: http_options where
  "server_opt = \<lparr>ho_host = ''h'', ho_port = 80, ho_path = ''/x'', ho_max_queued_batches = 4, ho_timeout = 9000\<rparr>"

lemma server_started: "server_start = Some (True, server_daemon)"
proof -
  have "map_option fst server_start = Some True" by code_simp
  then obtain d where "server_start = Some (True, d)" by (cases server_start) auto
  then show ?thesis unfolding server_daemon_def by (metis option.sel snd_conv)
qed

lemma server_config_ok: "config_ok (server_config [(''srv'', server_section ''9s'')])"
  by code_simp

lemma server_is_start: "is_start server_daemon"
  using example_rings server_config_ok server_started unfolding is_start_def server_start_def by blast

lemma server_reload_ok: "\<forall>inp \<in> set [server_tick]. reload_ok inp \<and> reload_disk ''d'' inp"
proof -
  have "config_ok (server_config [(''http'', [(''endpoint'', ''http://g/'')]), (''srv'', server_section ''1s'')])"
    by code_simp
  moreover have "en_disk example_env = built_tree ''d''" by (simp add: example_env_def)
  ultimately show ?thesis
    by (simp add: server_tick_def reload_ok_def reload_disk_def example_rings)
qed

lemma server_records:
  "map (\<lambda>r. to_json example_dump r \<noteq> None) (tick_records 7 server_tick server_daemon) = [True]"
  "map ls_sink (d_sinks server_daemon) = [1]"
  by code_simp+

lemma server_run:
  "case daemon_run 7 [server_tick] 9 server_daemon of (rc, d) \<Rightarrow>
     map ls_sink (d_sinks d) = [1, 5] \<and> map ls_id (d_sinks d) = [''srv'', ''http'']
     \<and> map length (written_log 1 (d_log d)) = [1]
     \<and> find (\<lambda>c. case c of Sink_Made i q k \<Rightarrow> q = 1 | _ \<Rightarrow> False) (d_log d)
          = Some (Sink_Made ''srv'' 1 (Http_Sink server_opt))"
  by code_simp

section \<open>Properties\<close>

text \<open>
  C11. Instances and configuration: with the plugins of the tree on disk, every probe that runs
  at the end of a run has the handler of the plugin that the configuration in force names for
  it, and every sink was built by the factory of that plugin, from the settings of a
  configuration the daemon has read: the one of the start, or a reloaded one (an instance that keeps its plugin keeps the settings it was built with).
\<close>

theorem instances_built_from_config:
  assumes "daemon_start env fs glob conf offset0 now0 (new_daemon cfg path) = Some (True, d0)"
    and "rings_ok env" and "config_ok cfg" and "en_disk env = built_tree (cfg_plugin_dir cfg)"
    and "\<forall>inp \<in> set inps. reload_ok inp \<and> reload_disk (cfg_plugin_dir cfg) inp"
    and "daemon_run offset inps now d0 = (rc, d)"
  shows "(s \<in> set (d_sinks d) \<longrightarrow>
      (\<exists>read c in_force sink. read \<in> set (cfg # configs_read inps)
         \<and> map_find (cfg_sinks read) (ls_id s) = Some c
         \<and> map_find (cfg_sinks (d_config d)) (ls_id s) = Some in_force
         \<and> plugin_of (ls_id s) in_force = plugin_of (ls_id s) c
         \<and> sink_of_section (plugin_of (ls_id s) c) c = Some sink
         \<and> Sink_Made (ls_id s) (ls_sink s) sink \<in> set (d_log d)))
    \<and> (lp \<in> set (d_probes d) \<longrightarrow>
      (\<exists>in_force. map_find (cfg_probes (d_config d)) (lp_id lp) = Some in_force
         \<and> handler_of (plugin_of (lp_id lp) in_force) = Some (lp_handler lp)))"
proof -
  let ?read = "cfg # configs_read inps" and ?dir = "cfg_plugin_dir cfg"
  let ?I = "\<lambda>d. settings_inv ?read d \<and> handlers_inv d \<and> ld_plugin_dir (d_loader d) = ?dir"
  have "settings_inv [cfg] d0" "handlers_inv d0" "ld_plugin_dir (d_loader d0) = ?dir"
    using start_settings [OF assms(1-4)] by simp_all
  moreover from this(1) have "settings_inv ?read d0" by (rule settings_more) simp
  ultimately have start: "?I d0" by simp
  have "?I d"
  proof (rule run_keeps [where I = ?I and inps = inps and ?d0.0 = d0])
    show "?I e" if "same_instances d e" "?I d" for d e
      using that same_settings [OF that(1)] by (auto simp: same_instances_def handlers_inv_def)
    show "?I (reload_config env' loaded e)"
      if inp: "inp \<in> set inps" "ti_reload inp = Some (env', loaded)" and e: "running_inv e" "?I e" for inp env' loaded e
    proof (cases loaded)
      case (Inl err)
      with e show ?thesis by (simp add: reload_config_def)
    next
      case (Inr nxt)
      have "rings_ok env'" "config_ok nxt" "en_disk env' = built_tree (ld_plugin_dir (d_loader e))" "nxt \<in> set ?read"
        using assms(5) inp Inr e(2) by (force simp: reload_ok_def reload_disk_def configs_read_def List.map_filter_def)+
      from reload_settings [OF e(1) _ this] reload_handled [OF e(1) _ this(1-3)] e(2) Inr
      show ?thesis by simp
    qed
    show "running_inv d0" using daemon_start_built [OF assms(2,3,1)] by (simp add: fully_started_def)
    show "\<forall>inp \<in> set inps. reload_ok inp" using assms(5) by blast
  qed (fact start assms(6))+
  then have "settings_inv ?read d" and "handlers_inv d" by simp_all
  then show ?thesis
    unfolding settings_inv_def made_from_def configured_as_def handlers_inv_def handled_def by blast
qed

lemma instances_built_from_config_witness:
  "\<exists>rc d s. daemon_run 7 [server_tick] 9 server_daemon = (rc, d) \<and> s \<in> set (d_sinks d)
    \<and> (\<exists>c sink. sink_of_section (plugin_of (ls_id s) c) c = Some sink
         \<and> Sink_Made (ls_id s) (ls_sink s) sink \<in> set (d_log d))"
proof -
  obtain rc d where run: "daemon_run 7 [server_tick] 9 server_daemon = (rc, d)" by (metis prod.exhaust)
  then have "map ls_sink (d_sinks d) = [1, 5]" using server_run by simp
  then obtain s where s: "s \<in> set (d_sinks d)" by (cases "d_sinks d") auto
  have dir: "cfg_plugin_dir (server_config xs) = ''d''" for xs by (simp add: server_config_def example_config_def)
  have "en_disk example_env = built_tree (cfg_plugin_dir (server_config [(''srv'', server_section ''9s'')]))"
    by (simp add: dir example_env_def)
  from instances_built_from_config [OF server_started [unfolded server_start_def] example_rings server_config_ok this _ run]
    server_reload_ok dir run s show ?thesis by metis
qed

text \<open>
  C36. A reload retries nothing: an instance that did not come up, or was lost, stays down
  through any polls and any reloads whose file still names it with the same plugin, whatever
  has changed of its settings, on disk or in the kernel; the difference is taken between two
  files, not with what runs.
\<close>

theorem failed_instance_stays_down:
  assumes "running_inv d0" and "\<forall>inp \<in> set inps. reload_ok inp \<and> still_names tbl i pl inp"
    and "(tbl, ids) \<in> {(cfg_sinks, sink_ids), (cfg_probes, probe_ids)}" and "down tbl ids i pl d0"
    and "daemon_run offset inps now d0 = (rc, d)"
  shows "i \<notin> ids d"
proof -
  have "down tbl ids i pl d"
  proof (rule run_keeps [where I = "down tbl ids i pl" and inps = inps and ?d0.0 = d0])
    show "down tbl ids i pl e" if "same_instances d e" "down tbl ids i pl d" for d e
      using that assms(3) by (auto simp: same_instances_def down_def sink_ids_def probe_ids_def)
    show "down tbl ids i pl (reload_config env loaded e)"
      if inp: "inp \<in> set inps" "ti_reload inp = Some (env, loaded)" and e: "running_inv e" "down tbl ids i pl e"
      for inp env loaded e
    proof (cases loaded)
      case (Inl err)
      with e show ?thesis by (simp add: reload_config_def)
    next
      case (Inr nxt)
      have "rings_ok env" "config_ok nxt"
        "case map_find (tbl nxt) i of None \<Rightarrow> False | Some cc \<Rightarrow> plugin_of i cc = pl"
        using assms(2) inp Inr by (force simp: reload_ok_def still_names_def)+
      from reload_down [OF e(1) this(1,2) assms(3) e(2) this(3)] Inr show ?thesis by simp
    qed
    show "\<forall>inp \<in> set inps. reload_ok inp" using assms(2) by blast
  qed (fact assms)+
  then show ?thesis by (simp add: down_def)
qed

text \<open>A sink whose endpoint is corrected after the start.\<close>

definition fixed_tick :: tick_input where
  "fixed_tick = stream_tick\<lparr>ti_reload := Some (example_env, Inr (server_config
     [(''nil'', [(''plugin'', ''null'')]), (''srv'', server_section ''1s'')]))\<rparr>"

definition broken_start :: "(bool \<times> daemon) option" where
  "broken_start = daemon_start example_env example_fs (\<lambda>_. None) None 0 0
     (new_daemon (server_config [(''nil'', [(''plugin'', ''null'')]), (''srv'', [(''plugin'', ''http'')])]) ''f'')"

lemma failed_instance_stays_down_witness:
  "\<exists>d0 rc d. broken_start = Some (True, d0) \<and> daemon_run 7 [fixed_tick] 9 d0 = (rc, d)
    \<and> ''srv'' \<notin> sink_ids d"
proof -
  have "case broken_start of None \<Rightarrow> False | Some (ok, d0) \<Rightarrow> ok \<and> down cfg_sinks sink_ids ''srv'' ''http'' d0"
    by code_simp
  then obtain d0 where d0: "broken_start = Some (True, d0)" "down cfg_sinks sink_ids ''srv'' ''http'' d0"
    by (auto split: option.splits)
  have ok: "config_ok (server_config [(''nil'', [(''plugin'', ''null'')]), (''srv'', [(''plugin'', ''http'')])])"
    "config_ok (server_config [(''nil'', [(''plugin'', ''null'')]), (''srv'', server_section ''1s'')])"
    by code_simp+
  have "running_inv d0"
    using daemon_start_built [OF example_rings ok(1) d0(1) [unfolded broken_start_def]]
    by (simp add: fully_started_def)
  moreover have "\<forall>inp \<in> set [fixed_tick]. reload_ok inp \<and> still_names cfg_sinks ''srv'' ''http'' inp"
    using ok(2) by (simp add: fixed_tick_def reload_ok_def still_names_def example_rings)
      (simp add: server_config_def server_section_def map_simps plugin_of_def cc_get_def)
  moreover obtain rc d where run: "daemon_run 7 [fixed_tick] 9 d0 = (rc, d)" by (metis prod.exhaust)
  ultimately have "''srv'' \<notin> sink_ids d"
    by (intro failed_instance_stays_down [OF _ _ _ d0(2)]) simp_all
  with d0(1) run show ?thesis by blast
qed

end
