(* ===== verification/SinkThreads.thy ===== *)
theory SinkThreads
  imports SinkQueue
begin

text \<open>
  The two threads of a sink, down to the mutex \<^verbatim>\<open>mu_\<close> and the condition variables \<^verbatim>\<open>cv_\<close> and
  \<^verbatim>\<open>drained_cv_\<close> of \<^verbatim>\<open>sinks/stdout_json/sink.cpp\<close> and \<^verbatim>\<open>sinks/http/sink.cpp\<close>. Taking the mutex, a
  critical section up to its release, a notification and what the worker does outside the lock
  are a step each; waiting on a condition variable releases the mutex and falls asleep in one
  step, wakes up when notified, or for no reason, and takes the mutex again before it tests.
  \<open>SinkQueue\<close>'s steps are what is left of these when control is forgotten.
\<close>

section \<open>State\<close>

datatype thread = Daemon_Thread | Worker_Thread

text \<open>
  The daemon's thread: outside the sink, in \<^verbatim>\<open>write\<close>, in \<^verbatim>\<open>flush\<close>, in the destructor, after it; or
  past \<^verbatim>\<open>pop_front\<close> on an empty deque. \<open>_Lock\<close> and \<open>_Relock\<close> want the mutex; \<open>_Asleep\<close> is in the wait set.
\<close>

datatype daemon_pc =
    Outside
  | Write_Lock batch | Write_Body batch | Write_Notify
  | Flush_Lock | Flush_Target | Flush_Test u64 | Flush_Asleep u64 | Flush_Relock u64
  | Stop_Lock | Stop_Body | Stop_Notify | Joining | Gone
  | Undefined

text \<open>The worker in \<^verbatim>\<open>run\<close>; \<open>W_Close\<close> is after the loop.\<close>

datatype worker_pc =
    W_Lock | W_Test | W_Asleep | W_Relock
  | W_Deliver batch
  | W_Count_Lock | W_Count | W_Notify
  | W_Close | W_Last_Notify | W_Exited
  | W_Terminated batch

text \<open>\<open>th_sink\<close> holds the data members; its worker field is not used, the worker is where \<open>th_worker\<close> says.\<close>

record 'e threads =
  th_sink :: "'e queue_sink"
  th_owner :: "thread option"
  th_daemon :: daemon_pc
  th_worker :: worker_pc

definition new_threads :: "u64 \<Rightarrow> 'e \<Rightarrow> 'e threads" where
  "new_threads max_queued e =
     \<lparr>th_sink = new_queue_sink max_queued e, th_owner = None, th_daemon = Outside, th_worker = W_Lock\<rparr>"

section \<open>Steps\<close>

definition lock_mu :: "thread \<Rightarrow> 'e threads \<Rightarrow> 'e threads option" where
  "lock_mu t th = (if th_owner th = None then Some (th\<lparr>th_owner := Some t\<rparr>) else None)"

text \<open>The worker is the only thread that waits on \<^verbatim>\<open>cv_\<close>, the daemon's the only one on \<^verbatim>\<open>drained_cv_\<close>.\<close>

definition notify_cv :: "'e threads \<Rightarrow> 'e threads" where
  "notify_cv th = (if th_worker th = W_Asleep then th\<lparr>th_worker := W_Relock\<rparr> else th)"

definition notify_drained :: "'e threads \<Rightarrow> 'e threads" where
  "notify_drained th =
     (case th_daemon th of Flush_Asleep target \<Rightarrow> th\<lparr>th_daemon := Flush_Relock target\<rparr> | _ \<Rightarrow> th)"

text \<open>The body of \<^verbatim>\<open>write\<close>'s critical section, with the release of the mutex.\<close>

definition write_body :: "batch \<Rightarrow> 'e threads \<Rightarrow> 'e threads" where
  "write_body batch th =
     (let s = th_sink th in
      case drop_loop (sq_max_queued s) (sq_queue s) (sq_written_batches s) (sq_dropped s) of
        None \<Rightarrow> th\<lparr>th_daemon := Undefined\<rparr>
      | Some (q, w, d) \<Rightarrow>
          th\<lparr>th_sink := s\<lparr>sq_queue := q @ [batch], sq_written_batches := w, sq_dropped := d,
                sq_queued_batches := sq_queued_batches s + 1\<rparr>,
             th_owner := None, th_daemon := Write_Notify\<rparr>)"

text \<open>The test of \<^verbatim>\<open>flush\<close>'s wait: return and release, or fall asleep and release.\<close>

definition flush_test :: "u64 \<Rightarrow> 'e threads \<Rightarrow> 'e threads" where
  "flush_test target th =
     (if target \<le> sq_written_batches (th_sink th) \<or> sq_stopping (th_sink th)
      then th\<lparr>th_owner := None, th_daemon := Outside\<rparr>
      else th\<lparr>th_owner := None, th_daemon := Flush_Asleep target\<rparr>)"

definition daemon_step_in :: "'e threads \<Rightarrow> 'e threads option" where
  "daemon_step_in th =
     (case th_daemon th of
        Write_Lock b \<Rightarrow> map_option (th_daemon_update (\<lambda>_. Write_Body b)) (lock_mu Daemon_Thread th)
      | Write_Body b \<Rightarrow> Some (write_body b th)
      | Write_Notify \<Rightarrow> Some ((notify_cv th)\<lparr>th_daemon := Outside\<rparr>)
      | Flush_Lock \<Rightarrow> map_option (th_daemon_update (\<lambda>_. Flush_Target)) (lock_mu Daemon_Thread th)
      | Flush_Target \<Rightarrow> Some (th\<lparr>th_daemon := Flush_Test (sq_queued_batches (th_sink th))\<rparr>)
      | Flush_Test target \<Rightarrow> Some (flush_test target th)
      | Flush_Relock target \<Rightarrow>
          map_option (th_daemon_update (\<lambda>_. Flush_Test target)) (lock_mu Daemon_Thread th)
      | Stop_Lock \<Rightarrow> map_option (th_daemon_update (\<lambda>_. Stop_Body)) (lock_mu Daemon_Thread th)
      | Stop_Body \<Rightarrow> Some (th\<lparr>th_sink := (th_sink th)\<lparr>sq_stopping := True\<rparr>, th_owner := None,
                          th_daemon := Stop_Notify\<rparr>)
      | Stop_Notify \<Rightarrow> Some ((notify_cv th)\<lparr>th_daemon := Joining\<rparr>)
      | Joining \<Rightarrow> if th_worker th = W_Exited then Some (th\<lparr>th_daemon := Gone\<rparr>) else None
      | _ \<Rightarrow> None)"

text \<open>The test of the worker's wait and the two tests that follow it.\<close>

definition worker_test :: "'e threads \<Rightarrow> 'e threads" where
  "worker_test th =
     (let s = th_sink th in
      if sq_queue s = [] \<and> \<not> sq_stopping s then th\<lparr>th_owner := None, th_worker := W_Asleep\<rparr>
      else case sq_queue s of
          [] \<Rightarrow> th\<lparr>th_owner := None, th_worker := W_Close\<rparr>
        | batch # q \<Rightarrow>
            th\<lparr>th_sink := s\<lparr>sq_queue := q\<rparr>, th_owner := None, th_worker := W_Deliver batch\<rparr>)"

definition worker_step_in :: "'e deliver \<Rightarrow> ('e \<Rightarrow> 'e) \<Rightarrow> 'e threads \<Rightarrow> 'e threads option" where
  "worker_step_in deliver fin th =
     (let s = th_sink th in
      case th_worker th of
        W_Lock \<Rightarrow> map_option (th_worker_update (\<lambda>_. W_Test)) (lock_mu Worker_Thread th)
      | W_Test \<Rightarrow> Some (worker_test th)
      | W_Relock \<Rightarrow> map_option (th_worker_update (\<lambda>_. W_Test)) (lock_mu Worker_Thread th)
      | W_Deliver b \<Rightarrow>
          (case deliver b (sq_out s) of
             None \<Rightarrow> Some (th\<lparr>th_worker := W_Terminated b\<rparr>)
           | Some (lost, e) \<Rightarrow>
               Some (th\<lparr>th_sink := s\<lparr>sq_out := e, sq_dropped := sq_dropped s + of_bool lost\<rparr>,
                        th_worker := W_Count_Lock\<rparr>))
      | W_Count_Lock \<Rightarrow> map_option (th_worker_update (\<lambda>_. W_Count)) (lock_mu Worker_Thread th)
      | W_Count \<Rightarrow> Some (th\<lparr>th_sink := s\<lparr>sq_written_batches := sq_written_batches s + 1\<rparr>,
                         th_owner := None, th_worker := W_Notify\<rparr>)
      | W_Notify \<Rightarrow> Some ((notify_drained th)\<lparr>th_worker := W_Lock\<rparr>)
      | W_Close \<Rightarrow> Some (th\<lparr>th_sink := s\<lparr>sq_out := fin (sq_out s)\<rparr>, th_worker := W_Last_Notify\<rparr>)
      | W_Last_Notify \<Rightarrow> Some ((notify_drained th)\<lparr>th_worker := W_Exited\<rparr>)
      | _ \<Rightarrow> None)"

text \<open>
  What may happen next: a call of the daemon, a step of either thread, a wake-up for no reason.
  After an exception of the worker nothing does.
\<close>

datatype thread_event =
    Call_Write batch | Call_Flush | Call_Destroy
  | Daemon_Runs | Worker_Runs
  | Wake_Daemon | Wake_Worker

definition call_in :: "daemon_pc \<Rightarrow> 'e threads \<Rightarrow> 'e threads option" where
  "call_in pc th = (if th_daemon th = Outside then Some (th\<lparr>th_daemon := pc\<rparr>) else None)"

definition thread_exec ::
  "'e deliver \<Rightarrow> ('e \<Rightarrow> 'e) \<Rightarrow> thread_event \<Rightarrow> 'e threads \<Rightarrow> 'e threads option" where
  "thread_exec deliver fin ev th =
     (case th_worker th of
        W_Terminated _ \<Rightarrow> None
      | _ \<Rightarrow>
          (case ev of
             Call_Write b \<Rightarrow> call_in (if b = [] then Outside else Write_Lock b) th
           | Call_Flush \<Rightarrow> call_in Flush_Lock th
           | Call_Destroy \<Rightarrow> call_in Stop_Lock th
           | Daemon_Runs \<Rightarrow> daemon_step_in th
           | Worker_Runs \<Rightarrow> worker_step_in deliver fin th
           | Wake_Daemon \<Rightarrow>
               (case th_daemon th of Flush_Asleep _ \<Rightarrow> Some (notify_drained th) | _ \<Rightarrow> None)
           | Wake_Worker \<Rightarrow> if th_worker th = W_Asleep then Some (notify_cv th) else None))"

fun thread_run ::
  "'e deliver \<Rightarrow> ('e \<Rightarrow> 'e) \<Rightarrow> thread_event list \<Rightarrow> 'e threads \<Rightarrow> 'e threads option" where
  "thread_run deliver fin [] th = Some th"
| "thread_run deliver fin (ev # evs) th =
     (case thread_exec deliver fin ev th of None \<Rightarrow> None | Some th' \<Rightarrow> thread_run deliver fin evs th')"

section \<open>Forgetting control\<close>

fun worker_of :: "worker_pc \<Rightarrow> worker" where
  "worker_of (W_Deliver b) = Holding b"
| "worker_of W_Count_Lock = Counting"
| "worker_of W_Count = Counting"
| "worker_of W_Last_Notify = Exited"
| "worker_of W_Exited = Exited"
| "worker_of (W_Terminated b) = Terminated b"
| "worker_of _ = Waiting"

definition sink_of :: "'e threads \<Rightarrow> 'e queue_sink" where
  "sink_of th = (th_sink th)\<lparr>sq_worker := worker_of (th_worker th)\<rparr>"

text \<open>The batches a step hands over.\<close>

definition handed :: "thread_event \<Rightarrow> 'e threads \<Rightarrow> batch list" where
  "handed ev th = (case (ev, th_daemon th) of (Daemon_Runs, Write_Body b) \<Rightarrow> [b] | _ \<Rightarrow> [])"

section \<open>The invariant\<close>

fun daemon_holds :: "daemon_pc \<Rightarrow> bool" where
  "daemon_holds (Write_Body _) = True"
| "daemon_holds Flush_Target = True"
| "daemon_holds (Flush_Test _) = True"
| "daemon_holds Stop_Body = True"
| "daemon_holds Undefined = True"
| "daemon_holds _ = False"

fun worker_holds :: "worker_pc \<Rightarrow> bool" where
  "worker_holds W_Test = True"
| "worker_holds W_Count = True"
| "worker_holds _ = False"

fun stop_announced :: "daemon_pc \<Rightarrow> bool" where
  "stop_announced Stop_Notify = True"
| "stop_announced Joining = True"
| "stop_announced Gone = True"
| "stop_announced _ = False"

fun left_loop :: "worker_pc \<Rightarrow> bool" where
  "left_loop W_Close = True"
| "left_loop W_Last_Notify = True"
| "left_loop W_Exited = True"
| "left_loop _ = False"

fun flush_waits :: "daemon_pc \<Rightarrow> u64 option" where
  "flush_waits (Flush_Test t) = Some t"
| "flush_waits (Flush_Asleep t) = Some t"
| "flush_waits (Flush_Relock t) = Some t"
| "flush_waits _ = None"

text \<open>
  The mutex is held by whom control says and by one thread at most; a sleeper sleeps for a
  reason, or its notification is still to come.
\<close>

definition mutex_inv :: "'e threads \<Rightarrow> bool" where
  "mutex_inv th \<longleftrightarrow>
     (th_owner th = Some Daemon_Thread \<longleftrightarrow> daemon_holds (th_daemon th))
     \<and> (th_owner th = Some Worker_Thread \<longleftrightarrow> worker_holds (th_worker th))"

definition wait_inv :: "'e threads \<Rightarrow> bool" where
  "wait_inv th \<longleftrightarrow>
     (th_worker th = W_Asleep \<longrightarrow>
        sq_queue (th_sink th) = [] \<and> \<not> sq_stopping (th_sink th)
        \<or> th_daemon th = Write_Notify \<or> th_daemon th = Stop_Notify)
     \<and> (\<forall>target. th_daemon th = Flush_Asleep target \<longrightarrow>
          \<not> flush_ready target (th_sink th) \<or> th_worker th = W_Notify \<or> th_worker th = W_Last_Notify)"

definition control_inv :: "'e threads \<Rightarrow> bool" where
  "control_inv th \<longleftrightarrow>
     sq_worker (th_sink th) = Waiting
     \<and> (sq_stopping (th_sink th) \<longleftrightarrow> stop_announced (th_daemon th))
     \<and> (left_loop (th_worker th) \<longrightarrow> sq_stopping (th_sink th) \<and> sq_queue (th_sink th) = [])
     \<and> (th_daemon th = Gone \<longrightarrow> th_worker th = W_Exited)
     \<and> (\<forall>target. flush_waits (th_daemon th) = Some target \<longrightarrow> target = sq_queued_batches (th_sink th))
     \<and> (\<forall>b. th_daemon th = Write_Lock b \<or> th_daemon th = Write_Body b \<longrightarrow> b \<noteq> [])"

definition thread_inv :: "'e threads \<Rightarrow> bool" where
  "thread_inv th \<longleftrightarrow> mutex_inv th \<and> wait_inv th \<and> control_inv th"

lemma new_threads_inv: "thread_inv (new_threads m e)"
  by (simp add: thread_inv_def mutex_inv_def wait_inv_def control_inv_def new_threads_def new_queue_sink_def)

lemma lock_mu_Some: "lock_mu t th = Some th' \<longleftrightarrow> th_owner th = None \<and> th' = th\<lparr>th_owner := Some t\<rparr>"
  by (auto simp: lock_mu_def)

lemmas inv_defs = thread_inv_def mutex_inv_def wait_inv_def control_inv_def

lemma notify_cv_simps [simp]:
  "th_sink (notify_cv th) = th_sink th" "th_owner (notify_cv th) = th_owner th"
  "th_daemon (notify_cv th) = th_daemon th"
  "worker_holds (th_worker (notify_cv th)) = worker_holds (th_worker th)"
  "left_loop (th_worker (notify_cv th)) = left_loop (th_worker th)"
  "worker_of (th_worker (notify_cv th)) = worker_of (th_worker th)"
  "th_worker (notify_cv th) \<noteq> W_Asleep"
  "th_worker (notify_cv th) = W_Notify \<longleftrightarrow> th_worker th = W_Notify"
  "th_worker (notify_cv th) = W_Last_Notify \<longleftrightarrow> th_worker th = W_Last_Notify"
  "th_worker (notify_cv th) = W_Exited \<longleftrightarrow> th_worker th = W_Exited"
  by (simp_all add: notify_cv_def)

lemma notify_drained_simps [simp]:
  "th_sink (notify_drained th) = th_sink th" "th_owner (notify_drained th) = th_owner th"
  "th_worker (notify_drained th) = th_worker th"
  "daemon_holds (th_daemon (notify_drained th)) = daemon_holds (th_daemon th)"
  "stop_announced (th_daemon (notify_drained th)) = stop_announced (th_daemon th)"
  "flush_waits (th_daemon (notify_drained th)) = flush_waits (th_daemon th)"
  "th_daemon (notify_drained th) \<noteq> Flush_Asleep target"
  "th_daemon (notify_drained th) = Gone \<longleftrightarrow> th_daemon th = Gone"
  "th_daemon (notify_drained th) = Write_Notify \<longleftrightarrow> th_daemon th = Write_Notify"
  "th_daemon (notify_drained th) = Stop_Notify \<longleftrightarrow> th_daemon th = Stop_Notify"
  "th_daemon (notify_drained th) = Write_Lock b \<longleftrightarrow> th_daemon th = Write_Lock b"
  "th_daemon (notify_drained th) = Write_Body b \<longleftrightarrow> th_daemon th = Write_Body b"
  by (auto simp: notify_drained_def split: daemon_pc.split)

lemma daemon_step_mutex: "mutex_inv th \<Longrightarrow> daemon_step_in th = Some th' \<Longrightarrow> mutex_inv th'"
  by (cases "th_daemon th")
    (auto simp: daemon_step_in_def lock_mu_Some mutex_inv_def write_body_def flush_test_def Let_def
      split: option.splits if_splits)

lemma daemon_step_control: "control_inv th \<Longrightarrow> daemon_step_in th = Some th' \<Longrightarrow> control_inv th'"
  by (cases "th_daemon th")
    (auto simp: daemon_step_in_def lock_mu_Some control_inv_def write_body_def flush_test_def Let_def
      split: option.splits if_splits)

lemma daemon_step_wait: "wait_inv th \<Longrightarrow> control_inv th \<Longrightarrow> daemon_step_in th = Some th' \<Longrightarrow> wait_inv th'"
  by (cases "th_daemon th")
    (auto simp: daemon_step_in_def lock_mu_Some wait_inv_def control_inv_def write_body_def flush_test_def
      flush_ready_def Let_def split: option.splits if_splits)

lemma worker_step_mutex: "mutex_inv th \<Longrightarrow> worker_step_in deliver fin th = Some th' \<Longrightarrow> mutex_inv th'"
  by (cases "th_worker th")
    (auto simp: worker_step_in_def lock_mu_Some mutex_inv_def worker_test_def Let_def
      split: option.splits list.splits if_splits)

lemma worker_step_control:
  "control_inv th \<Longrightarrow> worker_step_in deliver fin th = Some th' \<Longrightarrow> control_inv th'"
  by (cases "th_worker th")
    (auto simp: worker_step_in_def lock_mu_Some control_inv_def worker_test_def Let_def
      split: option.splits list.splits if_splits)

lemma worker_step_wait: "wait_inv th \<Longrightarrow> worker_step_in deliver fin th = Some th' \<Longrightarrow> wait_inv th'"
  by (cases "th_worker th")
    (auto simp: worker_step_in_def lock_mu_Some wait_inv_def worker_test_def flush_ready_def Let_def
      split: option.splits list.splits if_splits)

text \<open>Every event, by what it does.\<close>

lemma thread_exec_cases:
  assumes "thread_exec deliver fin ev th = Some th'"
  obtains (calls) pc where "th_daemon th = Outside" "th' = th\<lparr>th_daemon := pc\<rparr>"
      "pc = Outside \<or> pc = Flush_Lock \<or> pc = Stop_Lock \<or> (\<exists>b. b \<noteq> [] \<and> pc = Write_Lock b)"
      "ev = Call_Flush \<and> pc = Flush_Lock \<or> ev = Call_Destroy \<and> pc = Stop_Lock
        \<or> (\<exists>b. ev = Call_Write b \<and> pc = (if b = [] then Outside else Write_Lock b))"
  | (daemon) "ev = Daemon_Runs" "daemon_step_in th = Some th'"
  | (worker) "ev = Worker_Runs" "worker_step_in deliver fin th = Some th'"
  | (wake_daemon) target where "ev = Wake_Daemon" "th_daemon th = Flush_Asleep target" "th' = notify_drained th"
  | (wake_worker) "ev = Wake_Worker" "th_worker th = W_Asleep" "th' = notify_cv th"
  using assms
  by (cases ev) (auto simp: thread_exec_def call_in_def split: worker_pc.splits daemon_pc.splits if_splits)

lemma thread_exec_inv:
  assumes inv: "thread_inv th" and "thread_exec deliver fin ev th = Some th'"
  shows "thread_inv th'"
  using assms(2)
proof (cases rule: thread_exec_cases)
  case (calls pc)
  with inv show ?thesis by (auto simp: inv_defs)
next
  case daemon
  with inv show ?thesis
    using daemon_step_mutex daemon_step_control daemon_step_wait by (simp add: thread_inv_def) blast
next
  case worker
  with inv show ?thesis
    using worker_step_mutex worker_step_control worker_step_wait by (simp add: thread_inv_def) blast
next
  case (wake_daemon target)
  with inv show ?thesis by (auto simp: inv_defs)
next
  case wake_worker
  with inv show ?thesis by (auto simp: inv_defs)
qed

section \<open>Every step is one of the queue's or none\<close>

lemma daemon_step_refines:
  assumes inv: "control_inv th" and step: "daemon_step_in th = Some th'"
    and alive: "process_alive (sink_of th)" and ok: "th_daemon th' \<noteq> Undefined"
  shows "(sink_trans deliver fin)\<^sup>=\<^sup>= (acc, sink_of th) (acc @ handed Daemon_Runs th, sink_of th')"
proof (cases "th_daemon th")
  case (Write_Body b)
  with inv have b: "b \<noteq> []" by (simp add: control_inv_def)
  with step ok Write_Body have "sink_write b (sink_of th) = Some (sink_of th')"
    by (auto simp: daemon_step_in_def write_body_def sink_write_def sink_of_def Let_def split: option.splits)
  from sink_trans.writes [OF alive this] b show ?thesis by (simp add: Write_Body handed_def)
next
  case Stop_Body
  with step have "sink_of th' = sink_stop (sink_of th)"
    by (auto simp: daemon_step_in_def sink_of_def sink_stop_def)
  with sink_trans.stops [OF alive] show ?thesis by (simp add: Stop_Body handed_def)
qed (use step in \<open>auto simp: daemon_step_in_def lock_mu_Some sink_of_def handed_def flush_test_def
      split: if_splits\<close>)

lemma worker_step_refines:
  assumes inv: "control_inv th" and step: "worker_step_in deliver fin th = Some th'"
  shows "sink_of th' = sink_of th \<or> sink_worker deliver fin (sink_of th) = Some (sink_of th')"
proof (cases "th_worker th")
  case W_Test
  with step show ?thesis
    by (auto simp: worker_step_in_def worker_test_def sink_of_def sink_worker_def Let_def
        split: list.splits if_splits)
next
  case (W_Deliver b)
  with step show ?thesis
    by (auto simp: worker_step_in_def sink_of_def sink_worker_def Let_def split: option.splits)
next
  case W_Count
  with step show ?thesis by (auto simp: worker_step_in_def sink_of_def sink_worker_def Let_def)
next
  case W_Close
  with step inv show ?thesis
    by (auto simp: worker_step_in_def sink_of_def sink_worker_def Let_def control_inv_def)
qed (use step in \<open>auto simp: worker_step_in_def lock_mu_Some sink_of_def Let_def\<close>)

lemma thread_exec_refines:
  assumes inv: "thread_inv th" and step: "thread_exec deliver fin ev th = Some th'"
    and ok: "th_daemon th' \<noteq> Undefined"
  shows "(sink_trans deliver fin)\<^sup>=\<^sup>= (acc, sink_of th) (acc @ handed ev th, sink_of th')"
  using step
proof (cases rule: thread_exec_cases)
  case (calls pc)
  then show ?thesis by (auto simp: sink_of_def handed_def)
next
  case daemon
  have "process_alive (sink_of th)"
    using step by (cases "th_worker th") (auto simp: thread_exec_def sink_of_def process_alive_def)
  with daemon inv ok show ?thesis
    unfolding daemon(1) by (intro daemon_step_refines) (simp_all add: thread_inv_def)
next
  case worker
  with inv worker_step_refines [of th deliver fin th'] sink_trans.works [of deliver fin "sink_of th" "sink_of th'" acc]
  show ?thesis by (auto simp: thread_inv_def handed_def)
next
  case (wake_daemon target)
  then show ?thesis by (simp add: sink_of_def handed_def)
next
  case wake_worker
  then show ?thesis by (simp add: sink_of_def handed_def)
qed

section \<open>The two threads as a system\<close>

definition threads_ok ::
  "'e deliver \<Rightarrow> ('e \<Rightarrow> 'e) \<Rightarrow> u64 \<Rightarrow> 'e \<Rightarrow> batch list \<times> 'e threads \<Rightarrow> bool" where
  "threads_ok deliver fin m e0 p \<longleftrightarrow>
     0 < unat m \<and> sink_inv deliver fin m e0 (fst p, sink_of (snd p)) \<and> thread_inv (snd p)
     \<and> th_daemon (snd p) \<noteq> Undefined"

inductive thread_trans ::
  "'e deliver \<Rightarrow> ('e \<Rightarrow> 'e) \<Rightarrow> batch list \<times> 'e threads \<Rightarrow> batch list \<times> 'e threads \<Rightarrow> bool"
  for deliver fin where
  event: "thread_exec deliver fin ev th = Some th'
     \<Longrightarrow> thread_trans deliver fin (acc, th) (acc @ handed ev th, th')"

inductive_cases thread_transE: "thread_trans deliver fin (acc, th) q"

text \<open>With room for a batch the overflow loop stops before the deque is empty.\<close>

lemma thread_exec_defined:
  assumes "thread_exec deliver fin ev th = Some th'" and "th_daemon th \<noteq> Undefined"
    and "0 < unat (sq_max_queued (th_sink th))"
  shows "th_daemon th' \<noteq> Undefined"
  using assms(1)
proof (cases rule: thread_exec_cases)
  case (calls pc)
  then show ?thesis by auto
next
  case daemon
  with assms(2,3) show ?thesis
    by (cases "th_daemon th")
      (auto simp: daemon_step_in_def lock_mu_Some write_body_def flush_test_def drop_loop_total Let_def
        split: option.splits if_splits)
next
  case worker
  then have "th_daemon th' = th_daemon th \<or> th_daemon th' = th_daemon (notify_drained th)"
    by (cases "th_worker th")
      (auto simp: worker_step_in_def lock_mu_Some worker_test_def Let_def
        split: option.splits list.splits if_splits)
  with assms(2) show ?thesis by (auto simp: notify_drained_def split: daemon_pc.splits)
next
  case (wake_daemon target)
  then show ?thesis by (simp add: notify_drained_def)
next
  case wake_worker
  with assms(2) show ?thesis by simp
qed

lemma threads_ok_exec:
  assumes ok: "threads_ok deliver fin m e0 (acc, th)" and step: "thread_exec deliver fin ev th = Some th'"
  shows "threads_ok deliver fin m e0 (acc @ handed ev th, th')"
    and "(sink_trans deliver fin)\<^sup>=\<^sup>= (acc, sink_of th) (acc @ handed ev th, sink_of th')"
proof -
  from ok have inv: "thread_inv th" "sink_inv deliver fin m e0 (acc, sink_of th)"
    and d: "th_daemon th \<noteq> Undefined" "0 < unat m" by (simp_all add: threads_ok_def)
  then have "0 < unat (sq_max_queued (th_sink th))" by (simp add: sink_inv_def sink_of_def)
  with thread_exec_defined [OF step] d have u: "th_daemon th' \<noteq> Undefined" by simp
  show r: "(sink_trans deliver fin)\<^sup>=\<^sup>= (acc, sink_of th) (acc @ handed ev th, sink_of th')"
    by (rule thread_exec_refines [OF inv(1) step u])
  with inv(2) queue_sys.step_inv [of deliver fin m e0]
  have "sink_inv deliver fin m e0 (acc @ handed ev th, sink_of th')" by auto
  with thread_exec_inv [OF inv(1) step] u d show "threads_ok deliver fin m e0 (acc @ handed ev th, th')"
    by (simp add: threads_ok_def)
qed

interpretation thread_sys: invariant_system
    "\<lambda>p. p = ([], new_threads m e0) \<and> 0 < unat m" "thread_trans deliver fin" "threads_ok deliver fin m e0"
  for deliver :: "'e deliver" and fin m e0
proof
  fix p q :: "batch list \<times> 'e threads"
  have "sink_of (new_threads m e0) = new_queue_sink m e0"
    by (simp add: sink_of_def new_threads_def new_queue_sink_def)
  then show "p = ([], new_threads m e0) \<and> 0 < unat m \<Longrightarrow> threads_ok deliver fin m e0 p"
    using sink_inv_init [of deliver fin m e0] new_threads_inv [of m e0]
    by (auto simp: threads_ok_def) (simp add: new_threads_def)
  show "threads_ok deliver fin m e0 p \<Longrightarrow> thread_trans deliver fin p q \<Longrightarrow> threads_ok deliver fin m e0 q"
    by (cases p) (auto elim!: thread_transE intro: threads_ok_exec)
qed

text \<open>Runs: what the calls hand over, and what is still on its way to the queue.\<close>

fun called :: "thread_event \<Rightarrow> batch list" where
  "called (Call_Write b) = (if b = [] then [] else [b])"
| "called _ = []"

definition calls_of :: "thread_event list \<Rightarrow> batch list" where
  "calls_of evs = concat (map called evs)"

fun in_flight :: "daemon_pc \<Rightarrow> batch list" where
  "in_flight (Write_Lock b) = [b]"
| "in_flight (Write_Body b) = [b]"
| "in_flight _ = []"

lemma in_flight_drained [simp]: "in_flight (th_daemon (notify_drained th)) = in_flight (th_daemon th)"
  by (auto simp: notify_drained_def split: daemon_pc.split)

lemma thread_exec_handed:
  assumes "thread_exec deliver fin ev th = Some th'"
  shows "handed ev th @ in_flight (th_daemon th') = in_flight (th_daemon th) @ called ev"
  using assms
proof (cases rule: thread_exec_cases)
  case (calls pc)
  then show ?thesis by (auto simp: handed_def split: if_splits)
next
  case daemon
  then show ?thesis
    by (cases "th_daemon th")
      (auto simp: handed_def daemon_step_in_def lock_mu_Some write_body_def flush_test_def Let_def
        split: option.splits if_splits)
next
  case worker
  then show ?thesis
    by (cases "th_worker th")
      (auto simp: handed_def worker_step_in_def lock_mu_Some worker_test_def Let_def
        split: option.splits list.splits if_splits)
qed (auto simp: handed_def)

lemma sink_trans_exec:
  assumes "sink_trans deliver fin (acc, s) (acc', t)"
  obtains ev where "sink_exec deliver fin ev s = Some t" "acc' = acc @ accept ev"
  using assms
proof cases
  case (writes b)
  then show ?thesis by (intro that [of "Write b"]) (simp_all add: sink_exec_def)
next
  case stops
  then show ?thesis by (intro that [of Stop]) (simp_all add: sink_exec_def)
next
  case works
  then have "process_alive s"
    by (auto simp: sink_worker_def process_alive_def split: worker.splits)
  with works show ?thesis by (intro that [of Worker]) (simp_all add: sink_exec_def)
qed

lemma thread_run_append:
  "thread_run deliver fin (xs @ ys) th =
     (case thread_run deliver fin xs th of None \<Rightarrow> None | Some th' \<Rightarrow> thread_run deliver fin ys th')"
  by (induction xs arbitrary: th) (auto split: option.splits)

lemma thread_run_ok:
  assumes "threads_ok deliver fin m e0 (acc, th)" and "thread_run deliver fin evs th = Some th'"
  shows "\<exists>acc' sevs. threads_ok deliver fin m e0 (acc @ acc', th')
    \<and> sink_run deliver fin sevs (sink_of th) = Some (sink_of th') \<and> accepted sevs = acc'
    \<and> acc' @ in_flight (th_daemon th') = in_flight (th_daemon th) @ calls_of evs"
  using assms
proof (induction evs arbitrary: th acc)
  case Nil
  then show ?case by (intro exI [of _ "[]"]) (simp add: calls_of_def accepted_def)
next
  case (Cons ev evs)
  then obtain th1 where th1: "thread_exec deliver fin ev th = Some th1"
    "thread_run deliver fin evs th1 = Some th'" by (auto split: option.splits)
  note s1 = threads_ok_exec [OF Cons.prems(1) th1(1)]
  obtain sev where sev: "sink_run deliver fin sev (sink_of th) = Some (sink_of th1)"
    "accepted sev = handed ev th"
  proof (cases "(acc, sink_of th) = (acc @ handed ev th, sink_of th1)")
    case True
    then show ?thesis by (intro that [of "[]"]) (simp_all add: accepted_def)
  next
    case False
    with s1(2) have "sink_trans deliver fin (acc, sink_of th) (acc @ handed ev th, sink_of th1)" by auto
    then obtain e where "sink_exec deliver fin e (sink_of th) = Some (sink_of th1)" "handed ev th = accept e"
      by (rule sink_trans_exec) simp
    then show ?thesis by (intro that [of "[e]"]) (simp_all add: accepted_def)
  qed
  from Cons.IH [OF s1(1) th1(2)] obtain acc' sevs where r:
    "threads_ok deliver fin m e0 (acc @ handed ev th @ acc', th')"
    "sink_run deliver fin sevs (sink_of th1) = Some (sink_of th')" "accepted sevs = acc'"
    "acc' @ in_flight (th_daemon th') = in_flight (th_daemon th1) @ calls_of evs" by auto
  have "(handed ev th @ acc') @ in_flight (th_daemon th') = in_flight (th_daemon th) @ calls_of (ev # evs)"
    using r(4) thread_exec_handed [OF th1(1)] by (simp add: calls_of_def)
  with r sev show ?case
    by (intro exI [of _ "handed ev th @ acc'"] exI [of _ "sev @ sevs"])
      (simp add: sink_run_append accepted_def)
qed

fun is_call :: "thread_event \<Rightarrow> bool" where
  "is_call (Call_Write _) = True"
| "is_call Call_Flush = True"
| "is_call Call_Destroy = True"
| "is_call _ = False"

lemma no_calls: "list_all (\<lambda>ev. \<not> is_call ev) evs \<Longrightarrow> calls_of evs = []"
  by (induction evs) (auto simp: calls_of_def elim!: is_call.elims)

lemma threads_reachable:
  assumes "0 < unat m" and "thread_run deliver fin evs (new_threads m e0) = Some th"
  obtains acc sevs where "threads_ok deliver fin m e0 (acc, th)"
    "sink_run deliver fin sevs (new_queue_sink m e0) = Some (sink_of th)" "accepted sevs = acc"
    "acc @ in_flight (th_daemon th) = calls_of evs"
proof -
  have "threads_ok deliver fin m e0 ([], new_threads m e0)" using assms(1) by (simp add: thread_sys.init_inv)
  moreover have "sink_of (new_threads m e0) = new_queue_sink m e0" "th_daemon (new_threads m e0) = Outside"
    by (simp_all add: sink_of_def new_threads_def new_queue_sink_def)
  ultimately show ?thesis
    using thread_run_ok [of deliver fin m e0 "[]" "new_threads m e0" evs th] assms(2) that by fastforce
qed

section \<open>Progress\<close>

text \<open>No thread of its own can step, and what is left to do before that.\<close>

definition no_step :: "'e deliver \<Rightarrow> ('e \<Rightarrow> 'e) \<Rightarrow> 'e threads \<Rightarrow> bool" where
  "no_step deliver fin th \<longleftrightarrow>
     thread_exec deliver fin Daemon_Runs th = None \<and> thread_exec deliver fin Worker_Runs th = None"

lemma lock_mu_None: "lock_mu t th = None \<longleftrightarrow> th_owner th \<noteq> None"
  by (auto simp: lock_mu_def)

lemma worker_stuck:
  assumes "mutex_inv th" and "th_owner th \<noteq> Some Daemon_Thread"
    and "worker_step_in deliver fin th = None"
  shows "th_worker th \<in> {W_Asleep, W_Exited} \<or> (\<exists>b. th_worker th = W_Terminated b)"
  using assms
  by (cases "th_worker th"; cases "th_owner th" rule: option.exhaust; cases "the (th_owner th)")
    (auto simp: worker_step_in_def mutex_inv_def lock_mu_None Let_def split: option.splits)

lemma daemon_stuck:
  assumes "mutex_inv th" and "th_daemon th \<noteq> Undefined" and "daemon_step_in th = None"
  shows "th_owner th = Some Worker_Thread \<or> th_daemon th \<in> {Outside, Gone}
    \<or> (\<exists>t. th_daemon th = Flush_Asleep t) \<or> th_daemon th = Joining \<and> th_worker th \<noteq> W_Exited"
  using assms
  by (cases "th_daemon th"; cases "th_owner th" rule: option.exhaust; cases "the (th_owner th)")
    (auto simp: daemon_step_in_def mutex_inv_def lock_mu_None split: if_splits)

text \<open>The two threads cannot wait for each other: no wake-up is ever lost.\<close>

lemma no_step_returned:
  assumes ok: "threads_ok deliver fin m e0 (acc, th)" and small: "length acc < 2 ^ 64"
    and no_step: "no_step deliver fin th"
  shows "th_daemon th \<in> {Outside, Gone} \<or> (\<exists>b. th_worker th = W_Terminated b)"
proof (rule ccontr)
  assume c: "\<not> ?thesis"
  then have alive: "\<And>b. th_worker th \<noteq> W_Terminated b" by blast
  from ok have inv: "mutex_inv th" "wait_inv th" "control_inv th" "sink_inv deliver fin m e0 (acc, sink_of th)"
    and u: "th_daemon th \<noteq> Undefined" by (simp_all add: threads_ok_def thread_inv_def)
  have d: "daemon_step_in th = None" and w: "worker_step_in deliver fin th = None"
    using no_step alive by (cases "th_worker th"; simp add: no_step_def thread_exec_def)+
  have o: "th_owner th \<noteq> Some Worker_Thread"
  proof
    assume "th_owner th = Some Worker_Thread"
    with inv(1) worker_stuck [OF inv(1) _ w] alive show False by (auto simp: mutex_inv_def)
  qed
  with daemon_stuck [OF inv(1) u d] c have pc:
    "(\<exists>t. th_daemon th = Flush_Asleep t) \<or> th_daemon th = Joining \<and> th_worker th \<noteq> W_Exited" by auto
  then have "th_owner th \<noteq> Some Daemon_Thread" using inv(1) by (auto simp: mutex_inv_def)
  with worker_stuck [OF inv(1) _ w] alive have wk: "th_worker th \<in> {W_Asleep, W_Exited}" by auto
  from pc show False
  proof
    assume "\<exists>t. th_daemon th = Flush_Asleep t"
    then obtain t where t: "th_daemon th = Flush_Asleep t" by blast
    with inv wk have "\<not> sq_stopping (th_sink th)" "t = sq_queued_batches (th_sink th)"
      "\<not> flush_ready t (th_sink th)" "th_worker th = W_Asleep" "sq_queue (th_sink th) = []"
      by (auto simp: control_inv_def wait_inv_def)
    with flush_ready_iff [OF inv(4) _ small] show False by (simp add: sink_of_def flush_ready_def)
  next
    assume "th_daemon th = Joining \<and> th_worker th \<noteq> W_Exited"
    with inv wk show False by (auto simp: control_inv_def wait_inv_def)
  qed
qed

text \<open>A bound on the steps to that point.\<close>

fun daemon_left :: "daemon_pc \<Rightarrow> nat" where
  "daemon_left (Write_Lock _) = 15"
| "daemon_left (Write_Body _) = 14"
| "daemon_left Write_Notify = 3"
| "daemon_left Flush_Lock = 4"
| "daemon_left Flush_Target = 3"
| "daemon_left (Flush_Test _) = 2"
| "daemon_left (Flush_Asleep _) = 1"
| "daemon_left (Flush_Relock _) = 3"
| "daemon_left Stop_Lock = 6"
| "daemon_left Stop_Body = 5"
| "daemon_left Stop_Notify = 4"
| "daemon_left Joining = 1"
| "daemon_left _ = 0"

fun worker_left :: "worker_pc \<Rightarrow> nat" where
  "worker_left (W_Deliver _) = 13"
| "worker_left W_Count_Lock = 12"
| "worker_left W_Count = 11"
| "worker_left W_Notify = 10"
| "worker_left W_Lock = 7"
| "worker_left W_Relock = 7"
| "worker_left W_Test = 6"
| "worker_left W_Asleep = 5"
| "worker_left W_Close = 4"
| "worker_left W_Last_Notify = 3"
| "worker_left _ = 0"

definition steps_left :: "'e threads \<Rightarrow> nat" where
  "steps_left th =
     10 * length (sq_queue (th_sink th)) + daemon_left (th_daemon th) + worker_left (th_worker th)"

fun is_wake :: "thread_event \<Rightarrow> bool" where
  "is_wake Wake_Daemon = True"
| "is_wake Wake_Worker = True"
| "is_wake _ = False"

lemma steps_left_le: "steps_left th \<le> 10 * length (sq_queue (th_sink th)) + 28"
  by (cases "th_daemon th"; cases "th_worker th") (simp_all add: steps_left_def)

lemma notify_left:
  "worker_left (th_worker (notify_cv th)) \<le> worker_left (th_worker th) + 2"
  "daemon_left (th_daemon (notify_drained th)) \<le> daemon_left (th_daemon th) + 2"
  by (auto simp: notify_cv_def notify_drained_def split: daemon_pc.split)

lemma drop_loop_length:
  "drop_loop m q w d = Some (q', w', d') \<Longrightarrow> length q' \<le> length q"
  using drop_loop_Some [of m q w d q' w' d'] by auto

lemma thread_exec_left:
  assumes "thread_exec deliver fin ev th = Some th'" and "\<not> is_call ev"
  shows "Suc (steps_left th') \<le> steps_left th + (if is_wake ev then 3 else 0)"
  using assms(1)
proof (cases rule: thread_exec_cases)
  case (calls pc)
  with assms(2) show ?thesis by auto
next
  case daemon
  then show ?thesis
    using notify_left [of th] drop_loop_length
    by (cases "th_daemon th")
      (force simp: steps_left_def daemon_step_in_def lock_mu_Some write_body_def flush_test_def Let_def
        split: option.splits if_splits)+
next
  case worker
  then show ?thesis
    using notify_left [of th]
    by (cases "th_worker th")
      (auto simp: steps_left_def worker_step_in_def lock_mu_Some worker_test_def Let_def
        split: option.splits list.splits if_splits)
next
  case (wake_daemon target)
  then show ?thesis using notify_left [of th] by (simp add: steps_left_def)
next
  case wake_worker
  then show ?thesis using notify_left [of th] by (simp add: steps_left_def)
qed

lemma thread_run_left:
  "thread_run deliver fin evs th = Some th' \<Longrightarrow> list_all (\<lambda>ev. \<not> is_call ev) evs \<Longrightarrow>
     length evs + steps_left th' \<le> steps_left th + 3 * length (filter is_wake evs)"
proof (induction evs arbitrary: th)
  case (Cons ev evs)
  then obtain th1 where th1: "thread_exec deliver fin ev th = Some th1"
    "thread_run deliver fin evs th1 = Some th'" by (auto split: option.splits)
  from Cons.IH [OF th1(2)] thread_exec_left [OF th1(1)] Cons.prems(2) show ?case
    by (auto split: if_splits)
qed simp

section \<open>What the blocking calls compute\<close>

text \<open>An invariant and a simulation of the steps of a run without calls.\<close>

lemma thread_run_sim:
  assumes step: "\<And>acc ev th th'. threads_ok deliver fin m e0 (acc, th) \<Longrightarrow> length acc < 2 ^ 64 \<Longrightarrow> P th
      \<Longrightarrow> thread_exec deliver fin ev th = Some th' \<Longrightarrow> \<not> is_call ev
      \<Longrightarrow> P th' \<and> R\<^sup>=\<^sup>= (f th) (f th') \<and> handed ev th = []"
    and "threads_ok deliver fin m e0 (acc, th)" and small: "length acc < 2 ^ 64" and "P th"
    and "thread_run deliver fin evs th = Some th'" and "list_all (\<lambda>ev. \<not> is_call ev) evs"
  shows "threads_ok deliver fin m e0 (acc, th') \<and> P th' \<and> R\<^sup>*\<^sup>* (f th) (f th')"
  using assms(2,4-)
proof (induction evs arbitrary: th)
  case (Cons ev evs)
  then obtain th1 where th1: "thread_exec deliver fin ev th = Some th1"
    "thread_run deliver fin evs th1 = Some th'" by (auto split: option.splits)
  from step [OF Cons.prems(1) small Cons.prems(2) th1(1)] Cons.prems(4)
  have 1: "P th1" "R\<^sup>=\<^sup>= (f th) (f th1)" "handed ev th = []" by simp_all
  from threads_ok_exec(1) [OF Cons.prems(1) th1(1)] 1(3)
  have "threads_ok deliver fin m e0 (acc, th1)" by simp
  from Cons.IH [OF this 1(1) th1(2)] Cons.prems(4) 1(2) show ?case
    by (auto intro: converse_rtranclp_into_rtranclp)
qed simp

text \<open>The waiting call that the same steps make.\<close>

lemma wait_until_steps:
  assumes "(\<lambda>s t. step s = Some t)\<^sup>*\<^sup>* s t" and "I s" and "done_p t"
    and keep: "\<And>s t. I s \<Longrightarrow> step s = Some t \<Longrightarrow> I t"
    and last: "\<And>s. I s \<Longrightarrow> done_p s \<Longrightarrow> step s = None"
  shows "wait_until step done_p s = Some t"
  using assms(1,2)
proof (induction rule: converse_rtranclp_induct)
  case base
  with assms(3) show ?case by (simp add: wait_until.simps [of _ _ t])
next
  case (step u v)
  then have "\<not> done_p u" using last by auto
  with step keep show ?case by (simp add: wait_until.simps [of _ _ u])
qed

fun in_flush :: "daemon_pc \<Rightarrow> bool" where
  "in_flush Flush_Lock = True"
| "in_flush Flush_Target = True"
| "in_flush (Flush_Test _) = True"
| "in_flush (Flush_Asleep _) = True"
| "in_flush (Flush_Relock _) = True"
| "in_flush _ = False"

fun in_stop :: "daemon_pc \<Rightarrow> bool" where
  "in_stop Stop_Lock = True"
| "in_stop pc = stop_announced pc"

definition sink_idle :: "'e queue_sink \<Rightarrow> bool" where
  "sink_idle s \<longleftrightarrow> sq_worker s = Waiting \<and> sq_queue s = [] \<and> \<not> sq_stopping s"

lemma idle_stays: "sink_idle s \<Longrightarrow> sink_worker deliver fin s = None"
  by (simp add: sink_idle_def sink_worker_def)

lemma drained_pc [simp]:
  "in_flush (th_daemon (notify_drained th)) = in_flush (th_daemon th)"
  "in_stop (th_daemon (notify_drained th)) = in_stop (th_daemon th)"
  "th_daemon (notify_drained th) = Outside \<longleftrightarrow> th_daemon th = Outside"
  by (auto simp: notify_drained_def split: daemon_pc.split)

lemma worker_pc:
  assumes "worker_step_in deliver fin th = Some th'"
  shows "th_daemon th' = th_daemon th \<or> th_daemon th' = th_daemon (notify_drained th)"
  using assms
  by (cases "th_worker th")
    (auto simp: worker_step_in_def lock_mu_Some worker_test_def Let_def
      split: option.splits list.splits if_splits)

lemma flush_step:
  assumes ok: "threads_ok deliver fin m e0 (acc, th)" and small: "length acc < 2 ^ 64"
    and P: "in_flush (th_daemon th) \<or> th_daemon th = Outside \<and> sink_idle (sink_of th)"
    and step: "thread_exec deliver fin ev th = Some th'" and "\<not> is_call ev"
  shows "(in_flush (th_daemon th') \<or> th_daemon th' = Outside \<and> sink_idle (sink_of th'))
    \<and> (\<lambda>s t. sink_worker deliver fin s = Some t)\<^sup>=\<^sup>= (sink_of th) (sink_of th') \<and> handed ev th = []"
proof -
  from ok have inv: "control_inv th" "sink_inv deliver fin m e0 (acc, sink_of th)"
    by (simp_all add: threads_ok_def thread_inv_def)
  have h: "handed ev th = []" using P by (cases "th_daemon th") (auto simp: handed_def split: thread_event.split)
  from step show ?thesis
  proof (cases rule: thread_exec_cases)
    case (calls pc)
    with assms(5) show ?thesis by auto
  next
    case daemon
    then have same: "sink_of th' = sink_of th" using P
      by (cases "th_daemon th")
        (auto simp: daemon_step_in_def lock_mu_Some flush_test_def sink_of_def split: if_splits)
    show ?thesis
    proof (cases "in_flush (th_daemon th')")
      case False
      with daemon P obtain t where t: "th_daemon th = Flush_Test t" "th_daemon th' = Outside"
        "flush_ready t (th_sink th)"
        by (cases "th_daemon th")
          (auto simp: daemon_step_in_def lock_mu_Some flush_test_def flush_ready_def split: if_splits)
      with inv(1) have "\<not> sq_stopping (sink_of th)" "t = sq_queued_batches (sink_of th)"
        by (simp_all add: control_inv_def sink_of_def)
      with flush_ready_iff [OF inv(2) _ small] t have "sink_idle (sink_of th)"
        by (simp add: sink_idle_def sink_of_def flush_ready_def)
      with t same h show ?thesis by simp
    qed (use same h in simp)
  next
    case worker
    from worker_step_refines [OF inv(1) worker(2)] worker_pc [OF worker(2)] P h idle_stays [of "sink_of th" deliver fin]
    show ?thesis by auto
  next
    case (wake_daemon target)
    with P h show ?thesis by (auto simp: sink_of_def)
  next
    case wake_worker
    with P h show ?thesis by (auto simp: sink_of_def)
  qed
qed

lemma sink_worker_stop:
  "sink_worker deliver fin s = Some t \<Longrightarrow> sink_worker deliver fin (sink_stop s) = Some (sink_stop t)"
  by (auto simp: sink_worker_def sink_stop_def split: worker.splits list.splits option.splits if_splits)

lemma stop_step:
  assumes ok: "threads_ok deliver fin m e0 (acc, th)" and P: "in_stop (th_daemon th) \<or> th_daemon th = Stop_Body"
    and step: "thread_exec deliver fin ev th = Some th'" and "\<not> is_call ev"
  shows "(in_stop (th_daemon th') \<or> th_daemon th' = Stop_Body)
    \<and> (\<lambda>s t. sink_worker deliver fin s = Some t)\<^sup>=\<^sup>= (sink_stop (sink_of th)) (sink_stop (sink_of th'))
    \<and> handed ev th = []"
proof -
  from ok have inv: "control_inv th" by (simp add: threads_ok_def thread_inv_def)
  have h: "handed ev th = []" using P by (cases "th_daemon th") (auto simp: handed_def split: thread_event.split)
  from step show ?thesis
  proof (cases rule: thread_exec_cases)
    case (calls pc)
    with assms(4) show ?thesis by auto
  next
    case daemon
    with P h show ?thesis
      by (cases "th_daemon th")
        (auto simp: daemon_step_in_def lock_mu_Some sink_of_def sink_stop_def split: if_splits)
  next
    case worker
    from worker_step_refines [OF inv worker(2)] worker_pc [OF worker(2)] P h sink_worker_stop [of deliver fin "sink_of th"]
    show ?thesis by (auto simp: notify_drained_def split: daemon_pc.splits)
  next
    case (wake_daemon target)
    with P h show ?thesis by (auto simp: sink_of_def)
  next
    case wake_worker
    with P h show ?thesis by (auto simp: sink_of_def)
  qed
qed

lemma flush_phase:
  assumes ok: "threads_ok deliver fin m e0 (acc, th)" and small: "length acc < 2 ^ 64"
    and run: "thread_run deliver fin (Call_Flush # evs) th = Some th'"
    and nc: "list_all (\<lambda>ev. \<not> is_call ev) evs"
  shows "threads_ok deliver fin m e0 (acc, th')
    \<and> (in_flush (th_daemon th') \<or> th_daemon th' = Outside \<and> sink_idle (sink_of th'))
    \<and> (\<lambda>s t. sink_worker deliver fin s = Some t)\<^sup>*\<^sup>* (sink_of th) (sink_of th') \<and> th_daemon th = Outside"
proof -
  from run obtain th1 where th1: "thread_exec deliver fin Call_Flush th = Some th1"
    "thread_run deliver fin evs th1 = Some th'" by (auto split: option.splits)
  then have 1: "th_daemon th = Outside" "th_daemon th1 = Flush_Lock" "sink_of th1 = sink_of th" "handed Call_Flush th = []"
    by (auto simp: thread_exec_def call_in_def handed_def sink_of_def split: worker_pc.splits if_splits)
  from threads_ok_exec(1) [OF ok th1(1)] 1(4) have "threads_ok deliver fin m e0 (acc, th1)" by simp
  from thread_run_sim [where P = "\<lambda>th. in_flush (th_daemon th) \<or> th_daemon th = Outside \<and> sink_idle (sink_of th)"
      and f = sink_of and R = "\<lambda>s t. sink_worker deliver fin s = Some t",
      OF flush_step this small _ th1(2) nc] 1
  show ?thesis by auto
qed

lemma flush_exact:
  assumes ok: "threads_ok deliver fin m e0 (acc, th)" and small: "length acc < 2 ^ 64"
    and run: "thread_run deliver fin (Call_Flush # evs) th = Some th'"
    and nc: "list_all (\<lambda>ev. \<not> is_call ev) evs" and ret: "th_daemon th' = Outside"
  shows "sink_flush deliver fin (sink_of th) = Some (sink_of th')"
proof -
  from flush_phase [OF assms(1-4)] ret
  have steps: "(\<lambda>s t. sink_worker deliver fin s = Some t)\<^sup>*\<^sup>* (sink_of th) (sink_of th')"
    and idle: "sink_idle (sink_of th')" and ok': "threads_ok deliver fin m e0 (acc, th')"
    and outside: "th_daemon th = Outside" by auto
  let ?I = "\<lambda>s. sink_inv deliver fin m e0 (acc, s) \<and> \<not> sq_stopping s
    \<and> sq_queued_batches s = sq_queued_batches (sink_of th)"
  show ?thesis
    unfolding sink_flush_def
  proof (rule wait_until_steps [OF steps, where I = ?I])
    from ok outside show start: "?I (sink_of th)"
      by (simp add: threads_ok_def thread_inv_def control_inv_def) (simp add: sink_of_def)
    show "?I t" if "?I s" "sink_worker deliver fin s = Some t" for s t
      using that sink_inv_worker [of deliver fin m e0 acc s t] sink_worker_frame [of deliver fin s t] by simp
    show "sink_worker deliver fin s = None" if "?I s" "flush_ready (sq_queued_batches (sink_of th)) s" for s
      using that flush_ready_iff [of deliver fin m e0 acc s] small by (intro idle_stays) (simp add: sink_idle_def)
    from ok ok' have "sq_queued_batches (sink_of th') = sq_queued_batches (sink_of th)"
      by (simp add: threads_ok_def sink_inv_def)
    with ok' idle flush_ready_iff [of deliver fin m e0 acc "sink_of th'"] small
    show "flush_ready (sq_queued_batches (sink_of th)) (sink_of th')"
      by (simp add: sink_idle_def threads_ok_def)
  qed
qed

lemma destroy_exact:
  assumes ok: "threads_ok deliver fin m e0 (acc, th)" and small: "length acc < 2 ^ 64"
    and run: "thread_run deliver fin (Call_Destroy # evs) th = Some th'"
    and nc: "list_all (\<lambda>ev. \<not> is_call ev) evs" and ret: "th_daemon th' = Gone"
  shows "sink_destroy deliver fin (sink_of th) = Some (sink_of th')"
proof -
  from run obtain th1 where th1: "thread_exec deliver fin Call_Destroy th = Some th1"
    "thread_run deliver fin evs th1 = Some th'" by (auto split: option.splits)
  then have 1: "th_daemon th1 = Stop_Lock" "sink_of th1 = sink_of th" "handed Call_Destroy th = []"
    by (auto simp: thread_exec_def call_in_def handed_def sink_of_def split: worker_pc.splits if_splits)
  from threads_ok_exec(1) [OF ok th1(1)] 1(3) have "threads_ok deliver fin m e0 (acc, th1)" by simp
  from thread_run_sim [where P = "\<lambda>th. in_stop (th_daemon th) \<or> th_daemon th = Stop_Body"
      and f = "\<lambda>th. sink_stop (sink_of th)" and R = "\<lambda>s t. sink_worker deliver fin s = Some t",
      OF stop_step this small _ th1(2) nc] 1
  have steps: "(\<lambda>s t. sink_worker deliver fin s = Some t)\<^sup>*\<^sup>* (sink_stop (sink_of th)) (sink_stop (sink_of th'))"
    and ok': "threads_ok deliver fin m e0 (acc, th')" by auto
  from ok' ret have "sq_stopping (sink_of th')" "sq_worker (sink_of th') = Exited"
    by (simp_all add: threads_ok_def thread_inv_def control_inv_def sink_of_def)
  moreover from this(1) have "sink_stop (sink_of th') = sink_of th'" by (simp add: sink_stop_def)
  ultimately show ?thesis
    using steps unfolding sink_destroy_def
    by (intro wait_until_steps [where I = "\<lambda>_. True"]) (auto simp: sink_worker_def)
qed

text \<open>The members that \<^verbatim>\<open>mu_\<close> guards.\<close>

definition guarded :: "'e queue_sink \<Rightarrow> batch list \<times> bool \<times> u64 \<times> u64" where
  "guarded s = (sq_queue s, sq_stopping s, sq_written_batches s, sq_queued_batches s)"

lemma daemon_writes:
  assumes "mutex_inv th" and "daemon_step_in th = Some th'"
    and "guarded (th_sink th') \<noteq> guarded (th_sink th)"
  shows "th_owner th = Some Daemon_Thread"
  using assms
  by (cases "th_daemon th")
    (auto simp: daemon_step_in_def lock_mu_Some mutex_inv_def flush_test_def split: if_splits)

lemma worker_writes:
  assumes "mutex_inv th" and "worker_step_in deliver fin th = Some th'"
    and "guarded (th_sink th') \<noteq> guarded (th_sink th)"
  shows "th_owner th = Some Worker_Thread"
  using assms
  by (cases "th_worker th")
    (auto simp: worker_step_in_def lock_mu_Some mutex_inv_def guarded_def Let_def split: option.splits)

section \<open>Properties\<close>

text \<open>
  C17. The step system \<open>sink_run\<close> is what two threads with a mutex and two condition variables
  do: under every interleaving of calls, steps of the threads and spurious wake-ups the data
  members are those of a run of that system which accepted the batches written, in their
  order; the last may be on its way to the queue.
\<close>

theorem threads_refine_queue:
  assumes "0 < unat m" and "thread_run deliver fin evs (new_threads m e0) = Some th"
  shows "\<exists>sevs. sink_run deliver fin sevs (new_queue_sink m e0) = Some (sink_of th)
    \<and> accepted sevs @ in_flight (th_daemon th) = calls_of evs"
  by (rule threads_reachable [OF assms]) blast

lemma threads_refine_queue_witness:
  "\<exists>th sevs. thread_run (stdout_deliver example_dump) id
        [Worker_Runs, Worker_Runs, Call_Write [example_record], Daemon_Runs, Wake_Worker, Daemon_Runs,
         Daemon_Runs, Worker_Runs, Worker_Runs, Call_Write [], Call_Write [bad_record]]
        (new_threads 2 []) = Some th
    \<and> sink_run (stdout_deliver example_dump) id sevs (new_queue_sink 2 []) = Some (sink_of th)
    \<and> accepted sevs = [[example_record]]"
proof -
  let ?evs = "[Worker_Runs, Worker_Runs, Call_Write [example_record], Daemon_Runs, Wake_Worker, Daemon_Runs,
         Daemon_Runs, Worker_Runs, Worker_Runs, Call_Write [], Call_Write [bad_record]]"
  let ?th = "the (thread_run (stdout_deliver example_dump) id ?evs (new_threads 2 []))"
  have "thread_run (stdout_deliver example_dump) id ?evs (new_threads 2 []) \<noteq> None" by code_simp
  then have th: "thread_run (stdout_deliver example_dump) id ?evs (new_threads 2 []) = Some ?th" by simp
  have "in_flight (th_daemon ?th) = [[bad_record]]" by code_simp
  moreover have "calls_of ?evs = [[example_record], [bad_record]]" by (simp add: calls_of_def)
  ultimately show ?thesis
    using threads_refine_queue [OF _ th] th by (intro exI [of _ ?th]) simp
qed

text \<open>
  C18. Mutual exclusion: no two threads are in a critical section, and the queue, the stop flag
  and the two batch counters change only under the mutex, by the thread that holds it.
\<close>

theorem sink_mutual_exclusion:
  assumes "0 < unat m" and "thread_run deliver fin evs (new_threads m e0) = Some th"
  shows "\<not> (daemon_holds (th_daemon th) \<and> worker_holds (th_worker th))
    \<and> (thread_exec deliver fin ev th = Some th' \<and> guarded (th_sink th') \<noteq> guarded (th_sink th)
       \<longrightarrow> ev = Daemon_Runs \<and> th_owner th = Some Daemon_Thread
         \<or> ev = Worker_Runs \<and> th_owner th = Some Worker_Thread)"
proof (intro conjI impI)
  obtain acc where "threads_ok deliver fin m e0 (acc, th)" using threads_reachable [OF assms] by metis
  then have inv: "mutex_inv th" by (simp add: threads_ok_def thread_inv_def)
  then show "\<not> (daemon_holds (th_daemon th) \<and> worker_holds (th_worker th))"
    unfolding mutex_inv_def by (metis option.inject thread.distinct(1))
  assume a: "thread_exec deliver fin ev th = Some th' \<and> guarded (th_sink th') \<noteq> guarded (th_sink th)"
  then have "thread_exec deliver fin ev th = Some th'" by simp
  then show "ev = Daemon_Runs \<and> th_owner th = Some Daemon_Thread
      \<or> ev = Worker_Runs \<and> th_owner th = Some Worker_Thread"
  proof (cases rule: thread_exec_cases)
    case daemon
    with a daemon_writes [OF inv] show ?thesis by simp
  next
    case worker
    with a worker_writes [OF inv] show ?thesis by simp
  qed (use a in auto)
qed

lemma sink_mutual_exclusion_witness:
  "\<exists>th. thread_run (stdout_deliver example_dump) id [Call_Write [example_record], Daemon_Runs]
        (new_threads 1 []) = Some th
    \<and> th_owner th = Some Daemon_Thread \<and> \<not> worker_holds (th_worker th)"
proof -
  let ?th = "the (thread_run (stdout_deliver example_dump) id [Call_Write [example_record], Daemon_Runs] (new_threads 1 []))"
  have "thread_run (stdout_deliver example_dump) id [Call_Write [example_record], Daemon_Runs] (new_threads 1 []) \<noteq> None"
    by code_simp
  then have th: "thread_run (stdout_deliver example_dump) id [Call_Write [example_record], Daemon_Runs] (new_threads 1 [])
      = Some ?th" by simp
  have d: "daemon_holds (th_daemon ?th)" by code_simp
  let ?th' = "the (thread_exec (stdout_deliver example_dump) id Daemon_Runs ?th)"
  have "thread_exec (stdout_deliver example_dump) id Daemon_Runs ?th \<noteq> None" by code_simp
  then have "thread_exec (stdout_deliver example_dump) id Daemon_Runs ?th = Some ?th'" by simp
  moreover have "guarded (th_sink ?th') \<noteq> guarded (th_sink ?th)" by code_simp
  ultimately show ?thesis
    using sink_mutual_exclusion [OF _ th, of Daemon_Runs ?th'] th d by (intro exI [of _ ?th]) simp
qed

text \<open>
  C15. No deadlock and no lost wake-up. A call of \<^verbatim>\<open>write\<close>, \<^verbatim>\<open>flush\<close> or the destructor returns:
  after it no run of the two threads is longer than ten steps per batch of the queue's bound,
  28 more and three per spurious wake-up; and where neither thread can step the call has
  returned, or an exception in the worker has ended the process.
\<close>

theorem sink_calls_return:
  assumes "0 < unat m" and "thread_run deliver fin evs (new_threads m e0) = Some th"
    and "length (calls_of evs) < 2 ^ 64"
    and "thread_run deliver fin rest th = Some th'" and "list_all (\<lambda>ev. \<not> is_call ev) rest"
  shows "length rest \<le> 10 * unat m + 28 + 3 * length (filter is_wake rest)
    \<and> (no_step deliver fin th' \<longrightarrow>
         th_daemon th' \<in> {Outside, Gone} \<or> (\<exists>b. th_worker th' = W_Terminated b))"
proof (intro conjI impI)
  obtain acc where ok: "threads_ok deliver fin m e0 (acc, th)"
    using threads_reachable [OF assms(1,2)] by metis
  then have "length (sq_queue (th_sink th)) \<le> unat m" by (simp add: threads_ok_def sink_inv_def sink_of_def)
  with thread_run_left [OF assms(4,5)] steps_left_le [of th]
  show "length rest \<le> 10 * unat m + 28 + 3 * length (filter is_wake rest)" by linarith
  have run: "thread_run deliver fin (evs @ rest) (new_threads m e0) = Some th'"
    using assms(2,4) by (simp add: thread_run_append)
  obtain acc' where ok': "threads_ok deliver fin m e0 (acc', th')"
    and "acc' @ in_flight (th_daemon th') = calls_of (evs @ rest)"
    using threads_reachable [OF assms(1) run] by metis
  with no_calls [OF assms(5)] have "length acc' \<le> length (calls_of evs)"
    by (metis append_Nil2 calls_of_def concat_append le_add1 length_append map_append)
  with assms(3) have "length acc' < 2 ^ 64" by simp
  from no_step_returned [OF ok' this]
  show "no_step deliver fin th' \<Longrightarrow> th_daemon th' \<in> {Outside, Gone} \<or> (\<exists>b. th_worker th' = W_Terminated b)" .
qed

definition flush_schedule :: "thread_event list" where
  "flush_schedule = [Daemon_Runs, Daemon_Runs, Daemon_Runs, Worker_Runs, Wake_Daemon, Worker_Runs, Daemon_Runs,
     Daemon_Runs, Worker_Runs, Worker_Runs, Worker_Runs, Worker_Runs, Daemon_Runs, Daemon_Runs, Worker_Runs,
     Worker_Runs]"

lemma sink_calls_return_witness:
  "\<exists>th th'. thread_run (stdout_deliver example_dump) id
        [Call_Write [example_record], Daemon_Runs, Daemon_Runs, Daemon_Runs, Call_Flush] (new_threads 1 []) = Some th
    \<and> thread_run (stdout_deliver example_dump) id flush_schedule th = Some th'
    \<and> no_step (stdout_deliver example_dump) id th' \<and> length flush_schedule \<le> 10 * 1 + 28 + 3 * 1
    \<and> th_daemon th' \<in> {Outside, Gone}"
proof -
  let ?evs = "[Call_Write [example_record], Daemon_Runs, Daemon_Runs, Daemon_Runs, Call_Flush]"
  let ?run = "thread_run (stdout_deliver example_dump) id"
  let ?th = "the (?run ?evs (new_threads 1 []))"
  let ?th' = "the (?run flush_schedule ?th)"
  have "?run ?evs (new_threads 1 []) \<noteq> None" "?run flush_schedule ?th \<noteq> None" by code_simp+
  then have th: "?run ?evs (new_threads 1 []) = Some ?th" "?run flush_schedule ?th = Some ?th'" by simp_all
  have *: "length (calls_of ?evs) < 2 ^ 64" "list_all (\<lambda>ev. \<not> is_call ev) flush_schedule"
    by (simp_all add: calls_of_def flush_schedule_def)
  have q: "no_step (stdout_deliver example_dump) id ?th'" "filter is_wake flush_schedule = [Wake_Daemon]"
    unfolding no_step_def by code_simp+
  have t: "th_worker ?th' = W_Asleep" by code_simp
  from sink_calls_return [OF _ th(1) *(1) th(2) *(2)] q t th
  show ?thesis by (intro exI [of _ ?th] exI [of _ ?th']) simp
qed

text \<open>
  C16. What the blocking calls compute. Whatever the schedule, a \<^verbatim>\<open>flush\<close> that returns leaves the
  sink exactly as the sequential reading \<open>sink_flush\<close> says, and so does the destructor: the
  theorems on flushing and destroying a sink hold for the code with its lock and its
  condition variables.
\<close>

theorem sink_calls_exact:
  assumes "0 < unat m" and "thread_run deliver fin evs (new_threads m e0) = Some th"
    and "length (calls_of evs) < 2 ^ 64" and "list_all (\<lambda>ev. \<not> is_call ev) rest"
  shows "(thread_run deliver fin (Call_Flush # rest) th = Some th' \<and> th_daemon th' = Outside
        \<longrightarrow> sink_flush deliver fin (sink_of th) = Some (sink_of th'))
    \<and> (thread_run deliver fin (Call_Destroy # rest) th = Some th' \<and> th_daemon th' = Gone
        \<longrightarrow> sink_destroy deliver fin (sink_of th) = Some (sink_of th'))"
proof -
  obtain acc where ok: "threads_ok deliver fin m e0 (acc, th)"
    and "acc @ in_flight (th_daemon th) = calls_of evs"
    using threads_reachable [OF assms(1,2)] by metis
  then have "length acc \<le> length (calls_of evs)" by (metis le_add1 length_append)
  with assms(3) have small: "length acc < 2 ^ 64" by simp
  from flush_exact [OF ok small _ assms(4)] destroy_exact [OF ok small _ assms(4)] show ?thesis by blast
qed

lemma sink_calls_exact_witness:
  "\<exists>th th'. thread_run (stdout_deliver example_dump) id
        [Call_Write [example_record], Daemon_Runs, Daemon_Runs, Daemon_Runs] (new_threads 1 []) = Some th
    \<and> sink_flush (stdout_deliver example_dump) id (sink_of th) = Some th' \<and> sq_out th' = ''{}'' @ [CHR 0x0A]"
proof -
  let ?evs = "[Call_Write [example_record], Daemon_Runs, Daemon_Runs, Daemon_Runs]"
  let ?run = "thread_run (stdout_deliver example_dump) id"
  let ?th = "the (?run ?evs (new_threads 1 []))"
  let ?th' = "the (?run (Call_Flush # flush_schedule) ?th)"
  have "?run ?evs (new_threads 1 []) \<noteq> None" "?run (Call_Flush # flush_schedule) ?th \<noteq> None" by code_simp+
  then have th: "?run ?evs (new_threads 1 []) = Some ?th" "?run (Call_Flush # flush_schedule) ?th = Some ?th'" by simp_all
  have *: "length (calls_of ?evs) < 2 ^ 64" "list_all (\<lambda>ev. \<not> is_call ev) flush_schedule"
    by (simp_all add: calls_of_def flush_schedule_def)
  have "th_daemon ?th' = Outside" "sq_out (sink_of ?th') = ''{}'' @ [CHR 0x0A]" by code_simp+
  with sink_calls_exact [OF _ th(1) * , of ?th'] th show ?thesis
    by (intro exI [of _ ?th] exI [of _ "sink_of ?th'"]) simp
qed

end
