(* ===== verification/StreamThreads.thy ===== *)
theory StreamThreads
  imports DaemonInstances SinkThreads
begin

text \<open>
  From the rings to the outside through both layers: the records of a run of the daemon
  (\<open>DaemonDelivery\<close>) against the bytes a stdout sink writes, and the batches an http sink's
  server acknowledges, each with the sink's two threads, its mutex and its condition variables
  (\<open>SinkThreads\<close>).
\<close>

section \<open>The last flush\<close>

text \<open>With nothing to make the worker throw, a flush that cannot go on has returned.\<close>

lemma flush_returned:
  assumes m: "0 < unat m" and run: "thread_run deliver fin evs (new_threads m e0) = Some th"
    and small: "length (calls_of evs) < 2 ^ 64"
    and flush: "thread_run deliver fin (Call_Flush # rest) th = Some th'"
    and nc: "list_all (\<lambda>ev. \<not> is_call ev) rest" and last: "no_step deliver fin th'"
    and good: "\<forall>b \<in> set (calls_of evs). deliverable J deliver b"
    and J: "J e0" "\<And>e. J e \<Longrightarrow> J (fin e)"
  shows "th_daemon th' = Outside"
proof -
  have all: "thread_run deliver fin (evs @ Call_Flush # rest) (new_threads m e0) = Some th'"
    using run flush by (simp add: thread_run_append)
  obtain acc sevs where ok': "threads_ok deliver fin m e0 (acc, th')"
    and srun: "sink_run deliver fin sevs (new_queue_sink m e0) = Some (sink_of th')" "accepted sevs = acc"
    and acc: "acc @ in_flight (th_daemon th') = calls_of (evs @ Call_Flush # rest)"
    using threads_reachable [OF m all] by metis
  have "calls_of (evs @ Call_Flush # rest) = calls_of evs"
    using no_calls [OF nc] by (simp add: calls_of_def)
  with acc have acc_eq: "acc @ in_flight (th_daemon th') = calls_of evs" by simp
  then have sub: "set acc \<subseteq> set (calls_of evs)" "length acc \<le> length (calls_of evs)"
    by (metis set_append sup_ge1, metis le_add1 length_append)
  then have "process_alive (sink_of th')" using sink_run_alive [OF srun(1) _ J] srun(2) good by auto
  then have "\<nexists>b. th_worker th' = W_Terminated b" by (auto simp: sink_of_def process_alive_def)
  with no_step_returned [OF ok' _ last] sub(2) small have pc: "th_daemon th' \<in> {Outside, Gone}" by auto
  obtain acc0 where ok: "threads_ok deliver fin m e0 (acc0, th)" and "acc0 @ in_flight (th_daemon th) = calls_of evs"
    using threads_reachable [OF m run] by metis
  then have "length acc0 \<le> length (calls_of evs)" by (metis le_add1 length_append)
  with small have "length acc0 < 2 ^ 64" by simp
  from flush_phase [OF ok this flush nc] pc show ?thesis by auto
qed

text \<open>What it leaves behind, whatever the sink delivers to.\<close>

lemma threads_flushed:
  assumes m: "0 < unat m" and run: "thread_run deliver fin evs (new_threads m e0) = Some th"
    and small: "length (calls_of evs) < 2 ^ 64"
    and flush: "thread_run deliver fin (Call_Flush # rest) th = Some th'"
    and nc: "list_all (\<lambda>ev. \<not> is_call ev) rest" and last: "no_step deliver fin th'"
    and good: "\<forall>b \<in> set (calls_of evs). deliverable J deliver b"
    and J: "J e0" "\<And>e. J e \<Longrightarrow> J (fin e)"
  shows "th_daemon th' = Outside \<and> sq_queue (th_sink th') = []
    \<and> (\<exists>dl k n. deliver_all deliver dl e0 = Some (n, sq_out (th_sink th')) \<and> subseq dl (calls_of evs)
         \<and> length (calls_of evs) = length dl + k \<and> unat (sq_dropped (th_sink th')) = k + n)"
proof -
  have ret: "th_daemon th' = Outside" by (rule flush_returned [OF assms])
  have outside: "th_daemon th = Outside"
    using flush by (auto simp: thread_exec_def call_in_def split: worker_pc.splits if_splits option.splits)
  obtain acc sevs where ok: "threads_ok deliver fin m e0 (acc, th)"
    and srun: "sink_run deliver fin sevs (new_queue_sink m e0) = Some (sink_of th)" "accepted sevs = acc"
    and acc: "acc @ in_flight (th_daemon th) = calls_of evs"
    using threads_reachable [OF m run] by metis
  have acc': "acc = calls_of evs" using acc outside by simp
  have stop: "\<not> sq_stopping (sink_of th)"
    using ok outside by (simp add: threads_ok_def thread_inv_def control_inv_def sink_of_def)
  have "sink_flush deliver fin (sink_of th) = Some (sink_of th')"
    using flush_exact [OF ok _ flush nc ret] small acc' by simp
  with flushed_sink [OF srun(1) _ J stop] srun(2) acc' good small ret show ?thesis
    by (simp add: sink_of_def)
qed

lemma max_1 [simp]: "0 < unat (if m = 0 then 1 else m :: u64)"
  by (simp add: unat_gt_0)

section \<open>To the stream\<close>

text \<open>
  C3. From the ring buffers to the stream: let a stdout sink that stays loaded, with the queue
  its settings gave it, receive exactly
  what the daemon's log says is written to it, its two threads scheduled in any way, spurious
  wake-ups included. When neither thread can go on, the flush at shutdown has returned, and
  the stream holds exactly the JSON lines of the records of the run, in order, if the sink
  dropped nothing; if it dropped \<open>k\<close> batches, it holds the lines of all batches but \<open>k\<close>. (No
  record makes \<^verbatim>\<open>dump\<close> throw; fewer than \<^verbatim>\<open>2^64\<close> batches.)
\<close>

theorem rings_to_stream:
  assumes "is_start d0" and "\<forall>inp \<in> set inps. reload_ok inp"
    and "daemon_run offset inps now d0 = (rc, d)"
    and "q \<in> ls_sink ` set (d_sinks d0)" and "q \<in> ls_sink ` set (d_sinks d)"
    and "Sink_Made ident q (Stdout_Json_Sink (new_stdout_sink max_queued)) \<in> set (d_log d)"
    and "thread_run (stdout_deliver dump) id evs
           (new_threads (if max_queued = 0 then 1 else max_queued) []) = Some th"
    and "calls_of evs = written_log q (d_log d)" and "length (calls_of evs) < 2 ^ 64"
    and "thread_run (stdout_deliver dump) id (Call_Flush # rest) th = Some th'"
    and "list_all (\<lambda>ev. \<not> is_call ev) rest" and "no_step (stdout_deliver dump) id th'"
    and "\<forall>r \<in> set (loop_records offset inps d0). to_json dump r \<noteq> None"
  shows "th_daemon th' = Outside \<and> sq_queue (th_sink th') = []
    \<and> (\<exists>dl. subseq dl (written_log q (d_log d)) \<and> ndjson dump (concat dl) = Some (sq_out (th_sink th'))
         \<and> length (written_log q (d_log d)) = length dl + unat (sq_dropped (th_sink th')))
    \<and> (sq_dropped (th_sink th') = 0
         \<longrightarrow> ndjson dump (loop_records offset inps d0) = Some (sq_out (th_sink th')))"
proof -
  let ?log = "written_log q (d_log d)"
  have q: "q \<in> live_sinks d0" "q \<in> live_sinks d" using assms(4,5) by (simp_all add: live_sinks_def)
  have "\<forall>b \<in> set (calls_of evs). deliverable (\<lambda>_. True) (stdout_deliver dump) b"
    using log_records [OF assms(1-3) q] assms(8,13) by (fastforce simp: stdout_deliverable)
  from threads_flushed [OF max_1 assms(7,9-12) this] obtain dl k n where
    ret: "th_daemon th' = Outside" "sq_queue (th_sink th') = []"
    and d: "deliver_all (stdout_deliver dump) dl [] = Some (n, sq_out (th_sink th'))"
    and dl: "subseq dl ?log" "length ?log = length dl + k"
    and c: "unat (sq_dropped (th_sink th')) = k + n"
    unfolding assms(8) by blast
  from d have n: "n = 0" "ndjson dump (concat dl) = Some (sq_out (th_sink th'))"
    by (auto simp: stdout_deliver_all)
  have "ndjson dump (loop_records offset inps d0) = Some (sq_out (th_sink th'))" if "sq_dropped (th_sink th') = 0"
  proof -
    from that c n have "dl = ?log" using dl by (simp add: subseq_same_length)
    with n kept_given [OF assms(1-3) q] show ?thesis by simp
  qed
  with ret dl c n show ?thesis by auto
qed

section \<open>To the server\<close>





section \<open>A schedule\<close>

text \<open>One batch, and a flush during which the worker runs late.\<close>

definition write_schedule :: "batch \<Rightarrow> thread_event list" where
  "write_schedule b = [Call_Write b, Daemon_Runs, Daemon_Runs, Daemon_Runs]"

definition late_worker :: "thread_event list" where
  "late_worker = [Daemon_Runs, Daemon_Runs, Daemon_Runs] @ replicate 6 Worker_Runs
     @ [Daemon_Runs, Daemon_Runs, Worker_Runs, Worker_Runs]"

lemma late_worker_run:
  assumes "deliver b e0 = Some (False, e1)" and "b \<noteq> []" and "0 < unat m"
  shows "\<exists>th th'. thread_run deliver fin (write_schedule b) (new_threads m e0) = Some th
    \<and> thread_run deliver fin (Call_Flush # late_worker) th = Some th'
    \<and> no_step deliver fin th' \<and> sq_dropped (th_sink th') = 0"
proof -
  define th where "th = (new_threads m e0)
    \<lparr>th_sink := (new_queue_sink m e0)\<lparr>sq_queue := [b], sq_queued_batches := 1\<rparr>\<rparr>"
  define th' where "th' = th\<lparr>th_sink := (new_queue_sink m e0)\<lparr>sq_queued_batches := 1, sq_written_batches := 1,
    sq_out := e1\<rparr>, th_worker := W_Asleep\<rparr>"
  note defs = thread_exec_def call_in_def daemon_step_in_def worker_step_in_def lock_mu_def write_body_def
    flush_test_def worker_test_def notify_cv_def notify_drained_def new_threads_def new_queue_sink_def Let_def
  have "thread_run deliver fin (write_schedule b) (new_threads m e0) = Some th"
    using assms(2,3) by (simp add: write_schedule_def th_def defs)
  moreover have "thread_run deliver fin (Call_Flush # late_worker) th = Some th'"
    using assms by (simp add: late_worker_def th_def th'_def numeral_eq_Suc defs)
  moreover have "no_step deliver fin th' \<and> sq_dropped (th_sink th') = 0"
    by (simp add: no_step_def th_def th'_def defs)
  ultimately show ?thesis by blast
qed

text \<open>A run whose log has one batch of one record for a sink loaded from the start.\<close>

lemma one_batch:
  assumes "is_start d0" and "reload_ok inp" and run: "daemon_run 7 [inp] 9 d0 = (rc, d)"
    and on: "1 \<in> ls_sink ` set (d_sinks d0)" "1 \<in> ls_sink ` set (d_sinks d)"
    and one: "map length (written_log 1 (d_log d)) = [1]"
    and made: "map (\<lambda>r. to_json example_dump r \<noteq> None) (loop_records 7 [inp] d0) = [True]"
  obtains r where "calls_of (write_schedule [r]) = written_log 1 (d_log d)"
    "length (calls_of (write_schedule [r])) < 2 ^ 64" "ndjson example_dump [r] = Some [CHR ''{'', CHR ''}'', CHR 0x0A]"
    "\<forall>r \<in> set (loop_records 7 [inp] d0). to_json example_dump r \<noteq> None"
proof -
  from one obtain r where r: "written_log 1 (d_log d) = [[r]]" by (auto simp: length_Suc_conv)
  have recs: "loop_records 7 [inp] d0 = [r]"
    using kept_given [OF assms(1) _ run, of 1] on assms(2) r by (simp add: live_sinks_def del: loop_records.simps)
  with made have good: "to_json example_dump r \<noteq> None" by (simp del: loop_records.simps)
  then have "to_json example_dump r = Some ''{}''" by (auto simp: to_json_def example_dump_def split: if_splits)
  then show thesis
    using that [of r] good r unfolding recs by (simp add: calls_of_def write_schedule_def)
qed

lemma late_worker_no_calls: "list_all (\<lambda>ev. \<not> is_call ev) late_worker"
  by (simp add: late_worker_def list_all_iff)

lemma rings_to_stream_witness:
  "\<exists>out. ndjson example_dump (loop_records 7 [stream_tick] stream_daemon) = Some out"
proof -
  obtain rc d where run: "daemon_run 7 [stream_tick] 9 stream_daemon = (rc, d)" by (metis prod.exhaust)
  have on: "1 \<in> ls_sink ` set (d_sinks stream_daemon)" "1 \<in> ls_sink ` set (d_sinks d)"
    using stream_records(3) stream_run run by (simp_all flip: set_map)
  have ok: "reload_ok stream_tick" using stream_reload_ok by simp
  have "case daemon_run 7 [stream_tick] 9 stream_daemon of (rc, d) \<Rightarrow>
      find (\<lambda>c. case c of Sink_Made i q k \<Rightarrow> q = 1 | _ \<Rightarrow> False) (d_log d)
        = Some (Sink_Made ''out'' 1 (Stdout_Json_Sink (new_stdout_sink 1024)))" by code_simp
  then have made: "Sink_Made ''out'' 1 (Stdout_Json_Sink (new_stdout_sink 1024)) \<in> set (d_log d)"
    using run find_SomeD by fastforce
  obtain r where calls: "calls_of (write_schedule [r]) = written_log 1 (d_log d)"
    "length (calls_of (write_schedule [r])) < 2 ^ 64"
    and lines: "ndjson example_dump [r] = Some [CHR ''{'', CHR ''}'', CHR 0x0A]"
    and good: "\<forall>r \<in> set (loop_records 7 [stream_tick] stream_daemon). to_json example_dump r \<noteq> None"
    by (rule one_batch [OF stream_is_start ok run on])
      (use stream_run run stream_records(2) in \<open>simp_all add: stream_records(1) del: loop_records.simps\<close>)
  let ?m = "if (1024 :: u64) = 0 then 1 else 1024"
  have "stdout_deliver example_dump [r] [] = Some (False, [CHR ''{'', CHR ''}'', CHR 0x0A])"
    using lines by (simp add: stdout_deliver_def)
  then obtain th th' where t:
    "thread_run (stdout_deliver example_dump) id (write_schedule [r]) (new_threads ?m []) = Some th"
    "thread_run (stdout_deliver example_dump) id (Call_Flush # late_worker) th = Some th'"
    "no_step (stdout_deliver example_dump) id th'" "sq_dropped (th_sink th') = 0"
    using late_worker_run [of "stdout_deliver example_dump" "[r]" "[]" _ ?m id] max_1 [of 1024] by blast
  from rings_to_stream [OF stream_is_start stream_reload_ok run on made t(1) calls t(2) late_worker_no_calls t(3) good] t(4)
  show ?thesis by (auto simp del: loop_records.simps)
qed


end
