(* ===== verification/DaemonLifetime.thy ===== *)
theory DaemonLifetime
  imports DaemonSafety
begin

text \<open>
  The objects of the daemon from construction to destruction. The log of the daemon's calls
  (\<open>d_log\<close>) is executed on a heap of objects, which refuses a construction at an address in
  use, a call on an object that does not exist, and the unloading of a plugin while an object
  of that instance exists. The heap is at all times what the daemon's members own, and it is
  empty when the destructor is done.
\<close>

section \<open>The heap of objects\<close>

text \<open>An object with the instance whose plugin holds its code; the cgroup watcher has none.\<close>

record objects =
  ob_sinks :: "(sink_ptr \<times> string) list"
  ob_probes :: "(probe_ptr \<times> string option) list"

definition no_objects :: objects where
  "no_objects = \<lparr>ob_sinks = [], ob_probes = []\<rparr>"

definition made :: "nat \<Rightarrow> 'i \<Rightarrow> (nat \<times> 'i) list \<Rightarrow> (nat \<times> 'i) list option" where
  "made p i os = (if p \<in> fst ` set os then None else Some (os @ [(p, i)]))"

definition used :: "nat \<Rightarrow> (nat \<times> 'i) list \<Rightarrow> (nat \<times> 'i) list option" where
  "used p os = (if p \<in> fst ` set os then Some os else None)"

definition destroyed :: "nat \<Rightarrow> (nat \<times> 'i) list \<Rightarrow> (nat \<times> 'i) list option" where
  "destroyed p os = (if p \<in> fst ` set os then Some (filter (\<lambda>x. fst x \<noteq> p) os) else None)"

definition unloaded :: "'i \<Rightarrow> (nat \<times> 'i) list \<Rightarrow> (nat \<times> 'i) list option" where
  "unloaded i os = (if i \<in> snd ` set os then None else Some os)"

definition on_sinks where
  "on_sinks f obs = map_option (\<lambda>os. obs\<lparr>ob_sinks := os\<rparr>) (f (ob_sinks obs))"

definition on_probes where
  "on_probes f obs = map_option (\<lambda>os. obs\<lparr>ob_probes := os\<rparr>) (f (ob_probes obs))"

fun object_step :: "daemon_call \<Rightarrow> objects \<Rightarrow> objects option" where
  "object_step (Sink_Made i s k) = on_sinks (made s i)"
| "object_step (Probe_Made i p) = on_probes (made p (Some i))"
| "object_step (Watcher_Made p) = on_probes (made p None)"
| "object_step (Sink_Call (Sink_Write s b)) = on_sinks (used s)"
| "object_step (Sink_Call (Sink_Flush s)) = on_sinks (used s)"
| "object_step (Sink_Call (Sink_Destroy s)) = on_sinks (destroyed s)"
| "object_step (Probe_Detach p) = on_probes (used p)"
| "object_step (Probe_Destroy p) = on_probes (destroyed p)"
| "object_step (Unload_Sink i) = on_sinks (unloaded i)"
| "object_step (Unload_Probe i) = on_probes (unloaded (Some i))"

fun replay :: "daemon_call list \<Rightarrow> objects \<Rightarrow> objects option" where
  "replay [] obs = Some obs"
| "replay (c # cs) obs = (case object_step c obs of None \<Rightarrow> None | Some obs' \<Rightarrow> replay cs obs')"

lemma replay_append:
  "replay (xs @ ys) obs = (case replay xs obs of None \<Rightarrow> None | Some obs' \<Rightarrow> replay ys obs')"
  by (induction xs arbitrary: obs) (auto split: option.split)

lemmas heap_defs = on_sinks_def on_probes_def made_def used_def destroyed_def unloaded_def

section \<open>What the daemon owns\<close>

definition watcher_object :: "daemon \<Rightarrow> (probe_ptr \<times> string option) list" where
  "watcher_object d = (case d_watcher d of None \<Rightarrow> [] | Some w \<Rightarrow> [(w, None)])"

definition objects_of :: "daemon \<Rightarrow> objects" where
  "objects_of d =
     \<lparr>ob_sinks = map (\<lambda>s. (ls_sink s, ls_id s)) (d_sinks d),
      ob_probes = watcher_object d @ map (\<lambda>lp. (lp_probe lp, Some (lp_id lp))) (d_probes d)\<rparr>"

definition life_inv :: "daemon \<Rightarrow> bool" where
  "life_inv d \<longleftrightarrow> replay (d_log d) no_objects = Some (objects_of d)"

text \<open>An operation keeps the heap in step when its own calls do.\<close>

lemma life_step:
  assumes "life_inv d" and "d_log d' = d_log d @ cs" and "replay cs (objects_of d) = Some (objects_of d')"
  shows "life_inv d'"
  using assms by (simp add: life_inv_def replay_append)

lemma life_cong:
  assumes "d_log d' = d_log d" and "d_sinks d' = d_sinks d" and "d_probes d' = d_probes d"
    and "d_watcher d' = d_watcher d"
  shows "life_inv d \<Longrightarrow> life_inv d'"
  using assms by (simp add: life_inv_def objects_of_def watcher_object_def)

text \<open>
  The daemon destroyed as a whole: the destructor's body, then the members against their
  order in the class. The event loop frees its ring buffer, the pipeline goes, the vectors
  destroy their elements (front to back in the usual implementation), the watcher and the
  resolver go; the loader closes no handle.
\<close>

definition daemon_teardown :: "daemon \<Rightarrow> daemon" where
  "daemon_teardown d =
     (let d1 = daemon_destroy d in
      log_calls (map (\<lambda>lp. Probe_Destroy (lp_probe lp)) (d_probes d1)
          @ map (\<lambda>s. Sink_Call (Sink_Destroy (ls_sink s))) (d_sinks d1)
          @ (case d_watcher d1 of None \<Rightarrow> [] | Some w \<Rightarrow> [Probe_Destroy w]))
        (d1\<lparr>d_loop := new_event_loop, d_pipeline := None, d_probes := [], d_sinks := [],
            d_watcher := None, d_resolver := None\<rparr>))"

section \<open>Every operation keeps the heap in step\<close>

lemma erase_find_map:
  assumes "find P xs = Some x" and "distinct (map f xs)"
  shows "map g (erase_first P xs) = map g (filter (\<lambda>y. f y \<noteq> f x) xs)"
  using assms
proof (induction xs)
  case (Cons y xs)
  show ?case
  proof (cases "P y")
    case True
    with Cons.prems have "f x \<notin> f ` set xs" "y = x" by auto
    then have "filter (\<lambda>y. f y \<noteq> f x) xs = xs" by (auto simp: filter_id_conv rev_image_eqI)
    with True \<open>y = x\<close> show ?thesis by simp
  next
    case False
    with Cons.prems have "x \<in> set xs" using find_in by simp
    with Cons False show ?thesis by (auto simp: rev_image_eqI)
  qed
qed simp

lemma add_sink_life:
  assumes "daemon_inv d" and "life_inv d"
  shows "life_inv (add_sink env i c d)"
proof -
  obtain r l where r: "load_sink (en_disk env) i (plugin_of i c) c (d_loader d) = (r, l)"
    by (metis prod.exhaust)
  have "d_fresh d \<notin> ls_sink ` set (d_sinks d)"
    using assms(1) by (auto simp: daemon_inv_def sinks_inv_def)
  then have "replay [Sink_Made i (d_fresh d) x] (objects_of d) = Some (objects_of (add_sink env i c d))"
    if "r = Some x" for x
    using r that by (auto simp: heap_defs objects_of_def watcher_object_def add_sink_def image_image)
  moreover have "life_inv (d\<lparr>d_loader := l\<rparr>)" by (rule life_cong [OF _ _ _ _ assms(2)]) simp_all
  ultimately show ?thesis
    using r by (cases r) (auto simp: add_sink_def intro: life_step [OF assms(2)])
qed

lemma remove_sink_life:
  assumes inv: "daemon_inv d" and "life_inv d"
  shows "life_inv (remove_sink i d)"
proof (cases "find (\<lambda>s. ls_id s = i) (d_sinks d)")
  case None
  with assms(2) show ?thesis by (simp add: remove_sink_def)
next
  case (Some s)
  have dist: "distinct (map ls_id (d_sinks d))" "distinct (map ls_sink (d_sinks d))"
    using inv by (simp_all add: daemon_inv_def sinks_inv_def)
  have s: "s \<in> set (d_sinks d)" "ls_id s = i" using find_SomeD [OF Some] by simp_all
  let ?rest = "erase_first (\<lambda>s. ls_id s = i) (d_sinks d)"
  have ptr: "map g ?rest = map g (filter (\<lambda>x. ls_sink x \<noteq> ls_sink s) (d_sinks d))" for g :: "_ \<Rightarrow> sink_ptr \<times> string"
    by (rule erase_find_map [OF Some dist(2)])
  have gone: "ls_id x \<noteq> i" if "x \<in> set (d_sinks d)" "ls_sink x \<noteq> ls_sink s" for x
    using that s dist(1) unfolding distinct_map by (metis inj_onD)
  have "replay [Sink_Call (Sink_Flush (ls_sink s)), Sink_Call (Sink_Destroy (ls_sink s)), Unload_Sink i] (objects_of d)
      = Some (objects_of (remove_sink i d))"
    using Some s(1) gone ptr [of "\<lambda>s. (ls_sink s, ls_id s)"]
    by (auto simp: heap_defs objects_of_def watcher_object_def remove_sink_def Let_def image_image filter_map comp_def
        simp flip: map_map)
  from life_step [OF assms(2) _ this] Some show ?thesis by (simp add: remove_sink_def Let_def)
qed

definition watcher_apart :: "daemon \<Rightarrow> bool" where
  "watcher_apart d \<longleftrightarrow> (\<forall>lp \<in> set (d_probes d). d_watcher d \<noteq> Some (lp_probe lp))"

lemma forget_probe_life:
  assumes core: "probes_core d" and apart: "watcher_apart d" and life: "life_inv d"
    and found: "find (\<lambda>p. f p = a) (d_probes d) = Some lp"
  shows "life_inv (forget_probe (\<lambda>p. f p = a) lp d)"
proof -
  have dist: "distinct (map lp_id (d_probes d))" "distinct (map lp_probe (d_probes d))"
    using core by (simp_all add: probes_core_def)
  have lp: "lp \<in> set (d_probes d)" using find_in [OF found] .
  have ptr: "map g (erase_first (\<lambda>p. f p = a) (d_probes d))
      = map g (filter (\<lambda>x. lp_probe x \<noteq> lp_probe lp) (d_probes d))" for g :: "_ \<Rightarrow> probe_ptr \<times> string option"
    by (rule erase_find_map [OF found dist(2)])
  have gone: "lp_id lp \<noteq> lp_id x" if "x \<in> set (d_probes d)" "lp_probe x \<noteq> lp_probe lp" for x
    using that lp dist(1) unfolding distinct_map by (metis inj_onD)
  have w: "filter (\<lambda>x. fst x \<noteq> lp_probe lp) (watcher_object d) = watcher_object d"
    "Some (lp_id lp) \<notin> snd ` set (watcher_object d)"
    using apart lp by (auto simp: watcher_apart_def watcher_object_def split: option.splits)
  have "replay [Probe_Detach (lp_probe lp), Probe_Destroy (lp_probe lp), Unload_Probe (lp_id lp)] (objects_of d)
      = Some (objects_of (forget_probe (\<lambda>p. f p = a) lp d))"
    using lp gone w ptr [of "\<lambda>lp. (lp_probe lp, Some (lp_id lp))"]
    by (auto simp: heap_defs objects_of_def watcher_object_def [of "forget_probe _ _ _"] image_image image_Un
        filter_map comp_def simp flip: map_map watcher_object_def)
  from life_step [OF life _ this] show ?thesis by (simp add: forget_probe_def)
qed

lemma forget_apart: "watcher_apart d \<Longrightarrow> watcher_apart (forget_probe P lp d)"
proof -
  have "set (erase_first P xs) \<subseteq> set xs" for xs :: "loaded_probe list" by (induction xs) auto
  then show "watcher_apart d \<Longrightarrow> ?thesis" by (auto simp: watcher_apart_def)
qed

lemma forget_dropped_life:
  "probes_core d \<Longrightarrow> watcher_apart d \<Longrightarrow> life_inv d \<Longrightarrow> life_inv (forget_dropped ps d)"
proof (induction ps d rule: forget_dropped.induct)
  case (2 dead ps d)
  show ?case
  proof (cases "find (\<lambda>p. lp_probe p = dead) (d_probes d)")
    case None
    with 2 show ?thesis by simp
  next
    case (Some lp)
    have "distinct (map lp_probe (d_probes d))" using 2 by (simp add: probes_core_def)
    from 2(2) [OF Some forget_found(2) [OF 2(3) Some this] forget_apart forget_probe_life] 2(3-) Some
    show ?thesis by simp
  qed
qed simp

lemma daemon_inv_apart: "daemon_inv d \<Longrightarrow> watcher_apart d"
  by (simp add: daemon_inv_def probes_inv_def watcher_apart_def)

lemma remove_probe_life:
  assumes inv: "daemon_inv d" and life: "life_inv d"
  shows "life_inv (remove_probe env i d)"
proof (cases "find (\<lambda>p. lp_id p = i) (d_probes d)")
  case None
  with life show ?thesis by (simp add: remove_probe_def)
next
  case (Some lp)
  obtain dropped el where r: "loop_remove (en_armable env) (lp_probe lp) (d_loop d) = (dropped, el)"
    by (metis prod.exhaust)
  let ?d = "d\<lparr>d_loop := el\<rparr>"
  have core: "probes_core ?d" and apart: "watcher_apart ?d" and found: "find (\<lambda>p. lp_id p = i) (d_probes ?d) = Some lp"
    using probes_inv_core [OF inv] daemon_inv_apart [OF inv] Some by (simp_all add: probes_core_def watcher_apart_def)
  have "life_inv ?d" by (rule life_cong [OF _ _ _ _ life]) simp_all
  note f = forget_probe_life [OF core apart this found]
  have "distinct (map lp_id (d_probes ?d))" using core by (simp add: probes_core_def)
  from forget_dropped_life [OF forget_found(2) [OF core found this] forget_apart [OF apart] f] Some r
  show ?thesis by (simp add: remove_probe_def)
qed

lemma add_probe_life:
  assumes inv: "daemon_inv d" and new: "i \<notin> lp_id ` set (d_probes d)" and life: "life_inv d"
  shows "life_inv (add_probe env i c d)"
proof -
  let ?p = "d_fresh d"
  obtain r l where r: "load_probe (en_disk env) i (plugin_of i c) c (d_loader d) = (r, l)"
    by (metis prod.exhaust)
  obtain ok el where el: "loop_add (en_ring_fd env) (en_armable env) ?p (Suc ?p) (d_loop d) = (ok, el)"
    by (metis prod.exhaust)
  have fresh: "?p \<notin> lp_probe ` set (d_probes d)" "?p \<notin> fst ` set (watcher_object d)"
    and w: "Some i \<notin> snd ` set (watcher_object d)"
    using inv by (cases "d_watcher d"; auto simp: daemon_inv_def probes_inv_def watcher_object_def)+
  have notin: "?p \<notin> fst ` set (ob_probes (objects_of d))" "Some i \<notin> snd ` set (ob_probes (objects_of d))"
    using fresh w new by (auto simp: objects_of_def image_Un image_image)
  then have keep: "filter (\<lambda>x. fst x \<noteq> ?p) (ob_probes (objects_of d)) = ob_probes (objects_of d)"
    by (intro filter_True) force
  consider "r = None" | h where "r = Some h" "\<not> comes_up env ?p"
    | h where "r = Some h" "comes_up env ?p" "\<not> ok" | h where "r = Some h" "comes_up env ?p" "ok"
    by (cases r) auto
  then show ?thesis
  proof cases
    case 1
    with r show ?thesis by (auto simp: add_probe_def intro!: life_cong [OF _ _ _ _ life])
  next
    case 2
    then have "objects_of (add_probe env i c d) = objects_of d"
      using r by (simp add: add_probe_def Let_def objects_of_def watcher_object_def)
    with 2 r keep notin show ?thesis
      by (intro life_step [OF life, of _ "[Probe_Made i ?p, Probe_Destroy ?p, Unload_Probe i]"])
        (auto simp: add_probe_def Let_def heap_defs)
  next
    case 3
    then have "objects_of (add_probe env i c d) = objects_of d"
      using r el by (simp add: add_probe_def Let_def objects_of_def watcher_object_def)
    with 3 r el keep notin show ?thesis
      by (intro life_step [OF life, of _ "[Probe_Made i ?p, Probe_Detach ?p, Probe_Destroy ?p, Unload_Probe i]"])
        (auto simp: add_probe_def Let_def heap_defs)
  next
    case 4
    with r el have "objects_of (add_probe env i c d) = (objects_of d)\<lparr>ob_probes := ob_probes (objects_of d) @ [(?p, Some i)]\<rparr>"
      by (simp add: add_probe_def Let_def objects_of_def watcher_object_def)
    with 4 r el notin show ?thesis
      by (intro life_step [OF life, of _ "[Probe_Made i ?p]"]) (auto simp: add_probe_def Let_def heap_defs)
  qed
qed

lemma start_watcher_life:
  assumes inv: "daemon_inv d" and none: "d_watcher d = None" "d_probes d = []" and life: "life_inv d"
    and start: "start_cgroup_watcher env d = (ok, d')"
  shows "life_inv d'"
proof -
  let ?w = "d_fresh d"
  obtain bound el where el: "loop_add (en_ring_fd env) (en_armable env) ?w pipeline_emitter (d_loop d) = (bound, el)"
    by (metis prod.exhaust)
  consider "\<not> comes_up env ?w" | "comes_up env ?w" "\<not> bound" | "comes_up env ?w" "bound" by auto
  then show ?thesis
  proof cases
    case 1
    with start none show ?thesis
      by (intro life_step [OF life, of _ "[Watcher_Made ?w, Probe_Destroy ?w]"])
        (auto simp: start_cgroup_watcher_def Let_def heap_defs objects_of_def watcher_object_def)
  next
    case 2
    with start el none show ?thesis
      by (intro life_step [OF life, of _ "[Watcher_Made ?w, Probe_Detach ?w, Probe_Destroy ?w]"])
        (auto simp: start_cgroup_watcher_def Let_def heap_defs objects_of_def watcher_object_def)
  next
    case 3
    with start el none show ?thesis
      by (intro life_step [OF life, of _ "[Watcher_Made ?w]"])
        (auto simp: start_cgroup_watcher_def Let_def heap_defs objects_of_def watcher_object_def)
  qed
qed

section \<open>Start, reload, the main loop and the end\<close>

lemma fold_remove_sink_life:
  "daemon_inv d \<Longrightarrow> life_inv d \<Longrightarrow> life_inv (fold remove_sink is d)"
  by (induction "is" arbitrary: d) (simp_all add: remove_sink_inv remove_sink_life)

lemma fold_remove_probe_life:
  "daemon_inv d \<Longrightarrow> life_inv d \<Longrightarrow> life_inv (fold (remove_probe env) is d)"
  by (induction "is" arbitrary: d) (simp_all add: remove_probe_inv remove_probe_life)

lemma fold_add_sink_life:
  "daemon_inv d \<Longrightarrow> life_inv d \<Longrightarrow> distinct is \<Longrightarrow> set is \<inter> ls_id ` set (d_sinks d) = {} \<Longrightarrow>
     life_inv (fold (\<lambda>i. add_sink env i (c i)) is d)"
proof (induction "is" arbitrary: d)
  case (Cons i "is")
  let ?d = "add_sink env i (c i) d"
  have "daemon_inv ?d" by (rule add_sink_inv) (use Cons.prems in auto)
  moreover have "set is \<inter> ls_id ` set (d_sinks ?d) = {}"
    using Cons.prems(3,4) by (auto simp: add_sink_sinks(1))
  ultimately show ?case
    using Cons.IH [of ?d] add_sink_life [OF Cons.prems(1,2)] Cons.prems(3) by simp
qed simp

lemma fold_add_probe_life:
  "daemon_inv d \<Longrightarrow> life_inv d \<Longrightarrow> rings_ok env \<Longrightarrow> distinct is \<Longrightarrow> set is \<inter> lp_id ` set (d_probes d) = {} \<Longrightarrow>
     life_inv (fold (\<lambda>i. add_probe env i (c i)) is d)"
proof (induction "is" arbitrary: d)
  case (Cons i "is")
  let ?d = "add_probe env i (c i) d"
  have new: "i \<notin> lp_id ` set (d_probes d)" using Cons.prems(5) by simp
  have "set is \<inter> lp_id ` set (d_probes ?d) = {}"
    using Cons.prems(4,5) add_probe_probes [of env i "c i" d] by (fastforce simp: disjoint_iff)
  with Cons.IH [of ?d] add_probe_life [OF Cons.prems(1) new Cons.prems(2)] add_probe_inv [OF Cons.prems(1) new Cons.prems(3)]
    Cons.prems(3,4) show ?case by simp
qed simp

lemma reload_life:
  assumes run: "running_inv d" and life: "life_inv d" and ok: "case loaded of Inl _ \<Rightarrow> True | Inr c \<Rightarrow> rings_ok env \<and> config_ok c"
  shows "life_inv (reload_config env loaded d)"
proof (cases "d_config_path d = [] \<or> (\<exists>err. loaded = Inl err) \<or> (\<exists>c. loaded = Inr c \<and> diff_for_reload (d_config d) c = None)")
  case True
  with life show ?thesis by (auto simp: reload_config_def)
next
  case False
  then obtain c diff where c: "loaded = Inr c" "diff_for_reload (d_config d) c = Some diff" "d_config_path d \<noteq> []"
    by (cases loaded) auto
  have cok: "config_ok (d_config d)" "config_ok c" and rings: "rings_ok env" and dinv: "daemon_inv d"
    and sub: "ls_id ` set (d_sinks d) \<subseteq> set (map_keys (cfg_sinks (d_config d)))"
      "lp_id ` set (d_probes d) \<subseteq> set (map_keys (cfg_probes (d_config d)))"
    using run ok c(1) by (simp_all add: running_inv_def)
  note dp = reload_diff_sound(1) [OF c(2) cok] and ds = reload_diff_sound(2) [OF c(2) cok]
  let ?s = "\<lambda>i. the (map_find (cfg_sinks c) i)" and ?p = "\<lambda>i. the (map_find (cfg_probes c) i)"
  define d1 where "d1 = fold remove_sink (removed_sinks diff) d"
  define d2 where "d2 = fold (\<lambda>i. add_sink env i (?s i)) (added_sinks diff) d1"
  define d3 where "d3 = fold (remove_probe env) (removed_probes diff) d2"
  define d4 where "d4 = fold (\<lambda>i. add_probe env i (?p i)) (added_probes diff) d3"
  have i1: "daemon_inv d1" and s1: "d_sinks d1 = filter (\<lambda>s. ls_id s \<notin> set (removed_sinks diff)) (d_sinks d)"
    and l1: "life_inv d1"
    using fold_remove_sink [OF dinv] fold_remove_sink_life [OF dinv life] by (simp_all add: d1_def)
  have new: "distinct (added_sinks diff)" "set (added_sinks diff) \<inter> ls_id ` set (d_sinks d1) = {}"
    using ds sub(1) unfolding s1 diff_sound_def by auto
  from fold_add_sink [OF i1 new] fold_add_sink_life [OF i1 l1 new]
  have i2: "daemon_inv d2" and l2: "life_inv d2" by (simp_all add: d2_def)
  have "d_probes d2 = d_probes d"
    by (simp add: d2_def d1_def fold_frame [where g = d_probes])
  then have i3: "daemon_inv d3" and l3: "life_inv d3"
    and p3: "lp_id ` set (d_probes d3) \<subseteq> lp_id ` set (d_probes d) - set (removed_probes diff)"
    using fold_remove_probe [OF i2, of env "removed_probes diff"] fold_remove_probe_life [OF i2 l2] by (auto simp: d3_def)
  have "lp_id ` set (d_probes d3) \<subseteq> set (map_keys (cfg_probes (d_config d))) - set (removed_probes diff)"
    using p3 sub(2) by blast
  then have "distinct (added_probes diff)" "set (added_probes diff) \<inter> lp_id ` set (d_probes d3) = {}"
    using dp unfolding diff_sound_def by blast+
  from fold_add_probe_life [OF i3 l3 rings this, of ?p] have "life_inv d4" by (simp add: d4_def)
  moreover have "reload_config env loaded d =
      d4\<lparr>d_config := (d_config d4)\<lparr>cfg_sinks := cfg_sinks c, cfg_probes := cfg_probes c\<rparr>\<rparr>"
    using c by (simp add: reload_config_def d1_def d2_def d3_def d4_def Let_def)
  ultimately show ?thesis by (auto intro: life_cong [of _ d4])
qed

lemma replay_pipeline:
  assumes "pipeline_calls_ok (fst ` set (ob_sinks obs)) calls"
  shows "replay (map Sink_Call calls) obs = Some obs"
  using assms unfolding pipeline_calls_ok_def
proof (induction calls)
  case (Cons c calls)
  then show ?case by (cases c) (auto simp: heap_defs)
qed simp

lemma pipeline_calls_mono: "pipeline_calls_ok A calls \<Longrightarrow> A \<subseteq> B \<Longrightarrow> pipeline_calls_ok B calls"
  unfolding pipeline_calls_ok_def by (induction calls) (auto split: sink_call.splits)

lemma pipeline_life:
  assumes "life_inv d" and "pipeline_calls_ok (set (pl_sinks p)) calls" and "set (pl_sinks p) \<subseteq> live_sinks d"
    and d': "d_log d' = d_log d @ map Sink_Call calls" "d_sinks d' = d_sinks d" "d_probes d' = d_probes d"
      "d_watcher d' = d_watcher d"
  shows "life_inv d'"
proof -
  have "pipeline_calls_ok (fst ` set (ob_sinks (objects_of d))) calls"
    by (rule pipeline_calls_mono [OF assms(2)]) (use assms(3) in \<open>simp add: objects_of_def live_sinks_def image_image\<close>)
  with d' show ?thesis
    by (intro life_step [OF assms(1) d'(1)]) (simp add: replay_pipeline objects_of_def watcher_object_def)
qed

lemma wired_live: "daemon_inv d \<Longrightarrow> d_pipeline d = Some p \<Longrightarrow> set (pl_sinks p) \<subseteq> live_sinks d"
  by (simp add: daemon_inv_def sinks_inv_def live_sinks_def)

lemma on_pipeline_life:
  assumes "daemon_inv d" and "life_inv d" and "\<And>p. pipeline_calls_ok (set (pl_sinks p)) (snd (f p))"
  shows "life_inv (on_pipeline f d)"
proof (cases "d_pipeline d")
  case None
  with assms(2) show ?thesis by (simp add: on_pipeline_def)
next
  case (Some p)
  show ?thesis
    by (rule pipeline_life [OF assms(2,3) wired_live [OF assms(1) Some]])
      (use Some in \<open>auto simp: on_pipeline_def split: prod.split\<close>)
qed

lemma dispatch_life:
  assumes "running_inv d" and "life_inv d"
  shows "life_inv (dispatch offset pw ev d)"
proof -
  have emit: "life_inv (instance_emit offset pw i r d)" for i r
  proof (cases "d_pipeline d = None \<or> d_resolver d = None")
    case True
    with assms(2) show ?thesis by (auto simp: instance_emit_def split: option.split)
  next
    case False
    then obtain p res where p: "d_pipeline d = Some p" "d_resolver d = Some res" by auto
    obtain p' calls res' where e: "pipeline_emit offset pw (r\<lparr>rec_probe := i\<rparr>) p res = ((p', calls), res')"
      by (metis prod.exhaust)
    have "daemon_inv d" using assms(1) by (simp add: running_inv_def)
    show ?thesis
      by (rule pipeline_life [OF assms(2) emit_calls_ok [OF e] wired_live [OF \<open>daemon_inv d\<close> p(1)]])
        (use p e in \<open>auto simp: instance_emit_def Let_def\<close>)
  qed
  with assms(2) show ?thesis
    by (auto simp: dispatch_def intro: life_cong split: prod.split option.split)
qed

lemma daemon_tick_life:
  assumes run: "running_inv d" and life: "life_inv d" and ok: "reload_ok inp"
    and tick: "daemon_tick offset inp d = (go_on, d')"
  shows "life_inv d'"
proof -
  obtain polled events where poll: "loop_poll (ti_poll inp) (d_loop d) = (polled, events)"
    by (metis prod.exhaust)
  define d1 where "d1 = fold (dispatch offset (ti_users inp)) events d"
  define d2 where "d2 = d1\<lparr>d_resolver := map_option (resolver_tick (ti_monotonic inp)) (d_resolver d1)\<rparr>"
  define d3 where "d3 = on_pipeline (pipeline_tick (ti_steady inp)) d2"
  have "running_inv (fold (dispatch offset (ti_users inp)) evs e) \<and> life_inv (fold (dispatch offset (ti_users inp)) evs e)"
    if "running_inv e" "life_inv e" for evs e
    using that by (induction evs arbitrary: e) (simp_all add: dispatch_inv dispatch_life)
  then have 1: "running_inv d1" "life_inv d1" using run life by (simp_all add: d1_def)
  then have 2: "running_inv d2" "life_inv d2"
    unfolding d2_def by (auto intro: running_inv_cong [of _ d1] life_cong [of _ d1])
  then have "daemon_inv d2" by (simp add: running_inv_def)
  then have 3: "running_inv d3" "life_inv d3"
    unfolding d3_def using on_pipeline_inv [OF 2(1)] on_pipeline_life [OF _ 2(2) tick_calls_ok] by simp_all
  have "d' = d1 \<or> d' = d3 \<or> (\<exists>env loaded. ti_reload inp = Some (env, loaded) \<and> d' = reload_config env loaded d3)"
    using tick poll by (auto simp: daemon_tick_def Let_def d1_def d2_def d3_def split: if_splits option.splits)
  moreover have "life_inv (reload_config env loaded d3)" if "ti_reload inp = Some (env, loaded)" for env loaded
    using that ok by (intro reload_life [OF 3]) (auto simp: reload_ok_def split: sum.splits)
  ultimately show ?thesis using 1 3 by auto
qed

lemma start_components_life:
  assumes inv: "daemon_inv d" and life: "life_inv d" and cok: "config_ok (d_config d)" and rings: "rings_ok env"
    and fresh: "d_watcher d = None" "d_sinks d = []" "d_probes d = []"
    and start: "start_components env now d = Some (ok, d')"
  shows "daemon_inv d' \<and> life_inv d'"
proof -
  let ?sinks = "cfg_sinks (d_config d)" and ?probes = "cfg_probes (d_config d)"
  have maps: "map_ok ?sinks" "map_ok ?probes" using cok by (simp_all add: config_ok_def)
  define d1 where "d1 = fold (\<lambda>(i, c). add_sink env i c) ?sinks d"
  have d1: "d1 = fold (\<lambda>i. add_sink env i (the (map_find ?sinks i))) (map_keys ?sinks) d"
    unfolding d1_def by (rule fold_pairs [OF maps(1)])
  have 1: "daemon_inv d1" "life_inv d1"
    unfolding d1 using fold_add_sink [OF inv map_ok_distinct [OF maps(1)]]
      fold_add_sink_life [OF inv life map_ok_distinct [OF maps(1)]] fresh(2) by simp_all
  have f1: "d_config d1 = d_config d" "d_watcher d1 = None" "d_probes d1 = []"
    unfolding d1 using fresh
    by (simp_all add: fold_frame [where g = d_config] fold_frame [where g = d_watcher] fold_frame [where g = d_probes])
  define d2 where "d2 = wire_sinks (d1\<lparr>d_pipeline :=
      Some (new_pipeline (pipeline_options_of (d_config d1)) [] now)\<rparr>)"
  have 2: "daemon_inv d2"
    using 1(1) unfolding d2_def by (auto simp: daemon_inv_def sinks_inv_def probes_inv_def set_sinks_def)
  have "life_inv d2" by (rule life_cong [OF _ _ _ _ 1(2)]) (simp_all add: d2_def)
  obtain watching d3 where w: "start_cgroup_watcher env d2 = (watching, d3)" by (metis prod.exhaust)
  have f2: "d_watcher d2 = None" "d_probes d2 = []" "d_config d2 = d_config d" using f1 by (simp_all add: d2_def)
  have 3: "daemon_inv d3" "life_inv d3"
    using start_watcher_inv [OF 2 f2(1) rings w] start_watcher_life [OF 2 f2(1,2) \<open>life_inv d2\<close> w] by simp_all
  have f3: "d_config d3 = d_config d" "d_probes d3 = []"
    using w f2 by (auto simp: start_cgroup_watcher_def Let_def split: if_splits prod.splits)
  define d4 where "d4 = fold (\<lambda>(i, c). add_probe env i c) (cfg_probes (d_config d3)) d3"
  have d4: "d4 = fold (\<lambda>i. add_probe env i (the (map_find ?probes i))) (map_keys ?probes) d3"
    unfolding d4_def f3(1) by (rule fold_pairs [OF maps(2)])
  have 4: "daemon_inv d4" "life_inv d4"
    unfolding d4 using fold_add_probe [OF 3(1) rings map_ok_distinct [OF maps(2)]]
      fold_add_probe_life [OF 3 rings map_ok_distinct [OF maps(2)]] f3(2) by simp_all
  have "d' = d1 \<or> d' = d3 \<or> d' = d4"
    using start w unfolding d1_def d2_def d4_def
    by (auto simp: start_components_def make_pipeline_def Let_def split: if_splits)
  with 1 3 4 show ?thesis by auto
qed

lemma daemon_start_life:
  assumes cok: "config_ok c" and rings: "rings_ok env"
    and start: "daemon_start env fs glob conf offset now (new_daemon c path) = Some (ok, d)"
  shows "daemon_inv d \<and> life_inv d"
proof -
  have new: "daemon_inv ((new_daemon c path)\<lparr>d_resolver := r\<rparr>)" "life_inv ((new_daemon c path)\<lparr>d_resolver := r\<rparr>)" for r
    using new_daemon_inv [OF cok, of path]
    by (simp add: daemon_inv_def sinks_inv_def probes_inv_def)
      (simp add: life_inv_def new_daemon_def objects_of_def watcher_object_def no_objects_def)
  have same: "(new_daemon c path)\<lparr>d_resolver := None\<rparr> = new_daemon c path" by (simp add: new_daemon_def)
  have "(\<exists>r. d = (new_daemon c path)\<lparr>d_resolver := r\<rparr>)
      \<or> (\<exists>res. start_components env now ((new_daemon c path)\<lparr>d_resolver := Some res\<rparr>) = Some (ok, d))"
    using start same [symmetric] by (auto simp: daemon_start_def Let_def split: if_splits option.splits prod.splits)
  with new show ?thesis
    using start_components_life [OF new(1) new(2) _ rings] cok
    by (elim disjE exE) (simp_all add: new_daemon_def)
qed

text \<open>The live objects of a daemon whose state is consistent are destroyed one by one.\<close>

lemma replay_detaches:
  "set ps \<subseteq> fst ` set (ob_probes obs) \<Longrightarrow> replay (map Probe_Detach ps) obs = Some obs"
  by (induction ps) (auto simp: heap_defs)

lemma replay_destroys:
  "distinct (map f xs) \<Longrightarrow> ob_probes obs = ws @ map (\<lambda>x. (f x, g x)) xs \<Longrightarrow> fst ` set ws \<inter> f ` set xs = {} \<Longrightarrow>
     replay (map (\<lambda>x. Probe_Destroy (f x)) xs) obs = Some (obs\<lparr>ob_probes := ws\<rparr>)"
proof (induction xs arbitrary: obs)
  case (Cons x xs)
  have "filter (\<lambda>y. fst y \<noteq> f x) (ob_probes obs) = ws @ map (\<lambda>x. (f x, g x)) xs"
  proof -
    have "filter (\<lambda>y. fst y \<noteq> f x) ws = ws" "filter (\<lambda>y. fst y \<noteq> f x) (map (\<lambda>x. (f x, g x)) xs) = map (\<lambda>x. (f x, g x)) xs"
      using Cons.prems(1,3) by (force intro: filter_True)+
    with Cons.prems(2) show ?thesis by simp
  qed
  with Cons show ?case by (simp add: heap_defs)
qed simp

lemma replay_sink_destroys:
  "distinct (map f xs) \<Longrightarrow> ob_sinks obs = map (\<lambda>x. (f x, g x)) xs \<Longrightarrow>
     replay (map (\<lambda>x. Sink_Call (Sink_Destroy (f x))) xs) obs = Some (obs\<lparr>ob_sinks := []\<rparr>)"
proof (induction xs arbitrary: obs)
  case (Cons x xs)
  have "filter (\<lambda>y. fst y \<noteq> f x) (map (\<lambda>x. (f x, g x)) xs) = map (\<lambda>x. (f x, g x)) xs"
    using Cons.prems(1) by (force intro: filter_True)
  with Cons show ?case by (simp add: heap_defs)
qed simp

lemma teardown_clean:
  assumes inv: "daemon_inv d" and life: "life_inv d"
  shows "replay (d_log (daemon_teardown d)) no_objects = Some no_objects"
proof -
  let ?ps = "map (\<lambda>lp. Probe_Destroy (lp_probe lp)) (d_probes d)"
    and ?ss = "map (\<lambda>s. Sink_Call (Sink_Destroy (ls_sink s))) (d_sinks d)"
    and ?w = "case d_watcher d of None \<Rightarrow> [] | Some w \<Rightarrow> [Probe_Destroy w]"
    and ?detach = "map Probe_Detach (map fst (ob_probes (objects_of d)))"
  have log: "d_log (daemon_teardown d) = d_log d @ ?detach @ ?ps @ ?ss @ ?w"
    by (simp add: daemon_teardown_def daemon_destroy_def Let_def objects_of_def watcher_object_def comp_def
        split: option.split)
  have dist: "distinct (map lp_probe (d_probes d))" "distinct (map ls_sink (d_sinks d))"
    "fst ` set (watcher_object d) \<inter> lp_probe ` set (d_probes d) = {}"
    using inv daemon_inv_apart [OF inv]
    by (auto simp: daemon_inv_def probes_inv_def sinks_inv_def watcher_apart_def watcher_object_def split: option.splits)
  have "replay ?detach (objects_of d) = Some (objects_of d)"
    by (rule replay_detaches) auto
  moreover have "replay ?ps (objects_of d) = Some ((objects_of d)\<lparr>ob_probes := watcher_object d\<rparr>)"
    by (rule replay_destroys [OF dist(1) _ dist(3), where g = "\<lambda>lp. Some (lp_id lp)"]) (simp add: objects_of_def)
  moreover have "replay ?ss ((objects_of d)\<lparr>ob_probes := watcher_object d\<rparr>)
      = Some \<lparr>ob_sinks = [], ob_probes = watcher_object d\<rparr>"
    using replay_sink_destroys [OF dist(2), of "(objects_of d)\<lparr>ob_probes := watcher_object d\<rparr>" ls_id]
    by (simp add: objects_of_def)
  moreover have "replay ?w \<lparr>ob_sinks = [], ob_probes = watcher_object d\<rparr> = Some no_objects"
    by (simp add: watcher_object_def no_objects_def heap_defs split: option.split)
  ultimately show ?thesis
    using life by (simp add: log replay_append life_inv_def)
qed

lemma is_start_life: "is_start d \<Longrightarrow> life_inv d"
  unfolding is_start_def using daemon_start_life by blast

interpretation life_sys: invariant_system is_start daemon_step "\<lambda>d. running_inv d \<and> life_inv d"
  by unfold_locales
    (auto dest: is_start_life is_start_fully_started simp: fully_started_def elim!: daemon_stepE
      intro: daemon_tick_inv daemon_tick_life)

section \<open>Properties\<close>

definition plugin_mapped :: "(string, string) std_map \<Rightarrow> loader \<Rightarrow> string \<Rightarrow> bool" where
  "plugin_mapped handles l i \<longleftrightarrow> (case map_find handles i of None \<Rightarrow> False | Some h \<Rightarrow> 0 < ld_refs l h)"

lemma instance_mapped:
  assumes "loader_inv l" and "handles = ld_sink_handles l \<or> handles = ld_probe_handles l"
    and "i \<in> dom (map_find handles)"
  shows "plugin_mapped handles l i"
proof -
  from assms(3) obtain h where h: "map_find handles i = Some h" by auto
  then have "(i, h) \<in> set handles" by (simp add: map_of_SomeD)
  then have "0 < holders h handles" by (force simp: holders_def filter_empty_conv)
  with assms(1,2) h show ?thesis by (auto simp: plugin_mapped_def loader_inv_def)
qed

text \<open>
  C9. Object lifetimes, from \<^verbatim>\<open>start\<close> (also one that fails) through any run to the end of the
  destructor: no object is built where one lives, used or destroyed when it does not exist,
  and no plugin is unloaded while an object of its instance exists; at all times the objects
  that exist are exactly those the daemon holds, each with its plugin mapped; and when the
  daemon is gone all of them have been destroyed, once.
\<close>

theorem object_lifetimes:
  assumes "config_ok c" and "rings_ok env"
    and "daemon_start env fs glob conf offset now (new_daemon c path) = Some (ok, d0)"
    and "if ok then daemon_step\<^sup>*\<^sup>* d0 d else d = d0"
  shows "replay (d_log d) no_objects = Some (objects_of d)
    \<and> list_all (\<lambda>s. plugin_mapped (ld_sink_handles (d_loader d)) (d_loader d) (ls_id s)) (d_sinks d)
    \<and> list_all (\<lambda>lp. plugin_mapped (ld_probe_handles (d_loader d)) (d_loader d) (lp_id lp)) (d_probes d)
    \<and> replay (d_log (daemon_teardown (if ok then on_pipeline (pipeline_flush t) d else d))) no_objects
        = Some no_objects"
proof -
  have inv: "daemon_inv d \<and> life_inv d"
  proof (cases ok)
    case True
    then have "ok = True" by simp
    with assms(1-3) have "is_start d0" unfolding is_start_def by blast
    moreover have "daemon_step\<^sup>*\<^sup>* d0 d" using assms(4) \<open>ok = True\<close> by simp
    ultimately show ?thesis using life_sys.reachable_inv by (force simp: running_inv_def)
  next
    case False
    with assms daemon_start_life [OF assms(1-3)] show ?thesis by simp
  qed
  have "daemon_inv (on_pipeline (pipeline_flush t) d)"
    using inv unfolding on_pipeline_def daemon_inv_def sinks_inv_def probes_inv_def
    by (auto split: option.split prod.split) (metis fst_conv flush_sinks)
  then have "daemon_inv (if ok then on_pipeline (pipeline_flush t) d else d)"
    "life_inv (if ok then on_pipeline (pipeline_flush t) d else d)"
    using inv on_pipeline_life [OF _ _ flush_calls_ok] by simp_all
  from teardown_clean [OF this] inv show ?thesis
    by (auto simp: life_inv_def daemon_inv_def sinks_inv_def probes_inv_def list_all_iff intro!: instance_mapped)
qed

lemma object_lifetimes_witness:
  "objects_of (snd (daemon_tick 0 example_tick example_daemon))
     = \<lparr>ob_sinks = [(1, ''null''), (7, ''out'')], ob_probes = [(2, None), (5, Some ''procs'')]\<rparr>
   \<and> replay (d_log (daemon_teardown (on_pipeline (pipeline_flush 0)
        (snd (daemon_tick 0 example_tick example_daemon))))) no_objects = Some no_objects"
proof -
  let ?d = "snd (daemon_tick 0 example_tick example_daemon)"
  have "daemon_step\<^sup>*\<^sup>* example_daemon ?d" using example_step by blast
  moreover have "objects_of ?d
      = \<lparr>ob_sinks = [(1, ''null''), (7, ''out'')], ob_probes = [(2, None), (5, Some ''procs'')]\<rparr>"
    by code_simp
  ultimately show ?thesis
    using object_lifetimes [OF example_config_ok example_rings example_started [unfolded started_def], of ?d 0] by simp
qed

end
