(* ===== verification/DaemonLatency.thy ===== *)
theory DaemonLatency
  imports DaemonInstances
begin

text \<open>
  How long the daemon holds a record back: the pipeline's flush interval, seen from the main
  loop.
\<close>

section \<open>Lists\<close>

lemma suffix_chain: "suffix c (b @ r) \<Longrightarrow> suffix b (a @ q) \<Longrightarrow> suffix c (a @ q @ r)"
proof -
  assume "suffix c (b @ r)" and "suffix b (a @ q)"
  then have "suffix (b @ r) ((a @ q) @ r)" by (auto simp: suffix_def)
  with \<open>suffix c (b @ r)\<close> show ?thesis using suffix_order.trans by fastforce
qed

lemma sorted_last: "sorted xs \<Longrightarrow> x \<in> set xs \<Longrightarrow> (x :: int) \<le> last xs"
  by (induction xs) auto

section \<open>What the pipeline holds\<close>

definition held :: "daemon \<Rightarrow> (pipeline_options \<times> int \<times> batch) option" where
  "held d = map_option (\<lambda>p. (pl_opt p, pl_last_flush p, pl_batch p)) (d_pipeline d)"

text \<open>The flush interval in the clock's nanoseconds, as the comparison computes it.\<close>

definition interval_ns :: "pipeline_options \<Rightarrow> int" where
  "interval_ns opt = s64 (po_flush_interval opt * 1000000)"

lemma component_ops_held:
  "held (add_sink env i c d) = held d" "held (remove_sink i d) = held d" "held (remove_probe env i d) = held d"
  "held (add_probe env i c d) = held d" "held (d\<lparr>d_config := cfg\<rparr>) = held d"
  by (cases "d_pipeline d"; auto simp: held_def add_sink_def remove_sink_def Let_def set_sinks_def
      split: prod.split option.split)+

lemma reload_held: "held (reload_config env loaded d) = held d"
  by (simp add: reload_config_def Let_def component_ops_held fold_frame [where g = held]
      split: sum.split option.split)

lemma add_record_held:
  "pl_opt (fst (add_record r p)) = pl_opt p" "pl_last_flush (fst (add_record r p)) = pl_last_flush p"
  "suffix (pl_batch (fst (add_record r p))) (pl_batch p @ [r])"
  by (simp_all add: add_record_eq ship_def Let_def)

lemma dispatch_held:
  assumes "held d = Some (opt, t, b)"
  shows "\<exists>b'. held (dispatch offset pw ev d) = Some (opt, t, b') \<and> suffix b' (b @ dispatch_record offset pw ev d)"
proof -
  obtain probe out data where ev: "ev = (probe, out, data)" by (cases ev)
  show ?thesis
  proof (cases "dispatch_record offset pw ev d = []")
    case True
    then have "dispatch offset pw ev d = d \<or> (\<exists>r. dispatch offset pw ev d = d\<lparr>d_resolver := r\<rparr>)"
      unfolding ev by (auto simp: dispatch_record_def dispatch_def instance_emit_def
          split: option.splits if_splits)
    with assms True show ?thesis by (auto simp: held_def)
  next
    case False
    then obtain lp r p res where lp: "d_watcher d \<noteq> Some probe"
      "find (\<lambda>lp. lp_probe lp = probe \<and> lp_emitter lp = out) (d_probes d) = Some lp"
      "lp_handler lp data = Some r" "d_pipeline d = Some p" "d_resolver d = Some res"
      unfolding ev by (auto simp: dispatch_record_def split: option.splits if_splits)
    obtain r' p' res' where e: "enrich offset pw (r\<lparr>rec_probe := lp_id lp\<rparr>) p res = (r', p', res')"
      by (metis prod.exhaust)
    then have p': "pl_opt p' = opt" "pl_last_flush p' = t" "pl_batch p' = b"
      using enrich_frame [of offset pw "r\<lparr>rec_probe := lp_id lp\<rparr>" p res] assms lp(4) by (simp_all add: held_def)
    have "dispatch_record offset pw ev d = [r']" using lp e by (simp add: ev dispatch_record_def)
    moreover have "d_pipeline (dispatch offset pw ev d) = Some (fst (add_record r' p'))"
      using lp e by (simp add: ev dispatch_def instance_emit_def pipeline_emit_def Let_def split: prod.split)
    ultimately show ?thesis using add_record_held [of r' p'] p' by (simp add: held_def)
  qed
qed

lemma poll_held:
  "held d = Some (opt, t, b) \<Longrightarrow>
     \<exists>b'. held (fold (dispatch offset pw) evs d) = Some (opt, t, b') \<and> suffix b' (b @ poll_records offset pw evs d)"
proof (induction evs arbitrary: d b)
  case (Cons ev evs)
  obtain b1 where 1: "held (dispatch offset pw ev d) = Some (opt, t, b1)"
    "suffix b1 (b @ dispatch_record offset pw ev d)"
    using dispatch_held [OF Cons.prems] by blast
  obtain b2 where "held (fold (dispatch offset pw) evs (dispatch offset pw ev d)) = Some (opt, t, b2)"
    "suffix b2 (b1 @ poll_records offset pw evs (dispatch offset pw ev d))"
    using Cons.IH [OF 1(1)] by blast
  with 1(2) show ?case using suffix_chain by fastforce
qed simp

text \<open>An iteration: either the interval has not passed, or all is shipped.\<close>

lemma tick_held:
  assumes "held d = Some (opt, t, b)" and tick: "daemon_tick offset inp d = (True, d')"
  shows "\<exists>t' b'. held d' = Some (opt, t', b')
    \<and> (if t' = t then ti_steady inp - t < interval_ns opt \<and> suffix b' (b @ tick_records offset inp d) \<or> b' = []
       else t' = ti_steady inp \<and> b' = [])"
proof -
  obtain events where poll: "loop_poll (ti_poll inp) (d_loop d) = (True, events)"
    using tick by (auto simp: daemon_tick_def Let_def split: prod.splits if_splits)
  define d1 where "d1 = fold (dispatch offset (ti_users inp)) events d"
  define d2 where "d2 = d1\<lparr>d_resolver := map_option (resolver_tick (ti_monotonic inp)) (d_resolver d1)\<rparr>"
  define d3 where "d3 = on_pipeline (pipeline_tick (ti_steady inp)) d2"
  have "d' = d3 \<or> (\<exists>env loaded. d' = reload_config env loaded d3)"
    using tick poll by (auto simp: daemon_tick_def Let_def d1_def d2_def d3_def split: option.splits)
  then have same: "held d' = held d3" by (auto simp: reload_held)
  obtain b1 where "held d1 = Some (opt, t, b1)" and sub: "suffix b1 (b @ tick_records offset inp d)"
    using poll_held [OF assms(1), of offset "ti_users inp" events] poll by (auto simp: d1_def tick_records_def)
  then obtain p where p: "d_pipeline d2 = Some p" "pl_opt p = opt" "pl_last_flush p = t" "pl_batch p = b1"
    by (auto simp: held_def d2_def)
  have "held d3 = (if flush_due (ti_steady inp) p then Some (opt, ti_steady inp, []) else Some (opt, t, b1))"
    using p by (simp add: d3_def on_pipeline_def held_def pipeline_tick_def split: prod.split)
      (metis fst_conv ship_frame(1,3))
  with same sub p show ?thesis by (auto simp: flush_due_def interval_ns_def)
qed

text \<open>Any number of iterations, none of which failed.\<close>

lemma loop_held:
  "held d = Some (opt, t, b) \<Longrightarrow> daemon_loop offset inps d = (0, d') \<Longrightarrow>
     \<exists>t' b'. held d' = Some (opt, t', b')
       \<and> (t' = t \<and> suffix b' (b @ loop_records offset inps d)
              \<and> (inps \<noteq> [] \<longrightarrow> ti_steady (last inps) - t < interval_ns opt)
          \<or> (t' = t \<or> t' \<in> ti_steady ` set inps) \<and> suffix b' (loop_records offset inps d))"
proof (induction inps arbitrary: d t b)
  case (Cons inp inps)
  let ?recs = "tick_records offset inp d"
  obtain go_on d1 where "daemon_tick offset inp d = (go_on, d1)" by (metis prod.exhaust)
  with Cons.prems(2) have tick: "daemon_tick offset inp d = (True, d1)" and rest: "daemon_loop offset inps d1 = (0, d')"
    by (cases go_on; simp)+
  have recs: "loop_records offset (inp # inps) d = ?recs @ loop_records offset inps d1" using tick by simp
  obtain t1 b1 where 1: "held d1 = Some (opt, t1, b1)"
    "if t1 = t then ti_steady inp - t < interval_ns opt \<and> suffix b1 (b @ ?recs) \<or> b1 = []
     else t1 = ti_steady inp \<and> b1 = []"
    using tick_held [OF Cons.prems(1) tick] by blast
  obtain t' b' where t': "held d' = Some (opt, t', b')"
    "t' = t1 \<and> suffix b' (b1 @ loop_records offset inps d1)
       \<and> (inps \<noteq> [] \<longrightarrow> ti_steady (last inps) - t1 < interval_ns opt)
     \<or> (t' = t1 \<or> t' \<in> ti_steady ` set inps) \<and> suffix b' (loop_records offset inps d1)"
    using Cons.IH [OF 1(1) rest] by blast
  consider "b1 = []" "t1 = t \<or> t1 = ti_steady inp"
    | "t1 = t" "ti_steady inp - t < interval_ns opt" "suffix b1 (b @ ?recs)"
    using 1(2) by (auto split: if_splits)
  then show ?case
  proof cases
    case 1
    with t' have "(t' = t \<or> t' \<in> ti_steady ` set (inp # inps)) \<and> suffix b' (?recs @ loop_records offset inps d1)"
      by (auto intro: suffix_appendI)
    with t'(1) recs show ?thesis by metis
  next
    case 2
    from t'(2) show ?thesis
    proof
      assume *: "t' = t1 \<and> suffix b' (b1 @ loop_records offset inps d1)
        \<and> (inps \<noteq> [] \<longrightarrow> ti_steady (last inps) - t1 < interval_ns opt)"
      with 2(3) have "suffix b' (b @ ?recs @ loop_records offset inps d1)" using suffix_chain by blast
      with * 2 t'(1) recs show ?thesis by (intro exI [of _ t'] exI [of _ b']) simp
    next
      assume "(t' = t1 \<or> t' \<in> ti_steady ` set inps) \<and> suffix b' (loop_records offset inps d1)"
      with 2(1) have "(t' = t \<or> t' \<in> ti_steady ` set (inp # inps)) \<and> suffix b' (?recs @ loop_records offset inps d1)"
        by (auto intro: suffix_appendI)
      with t'(1) recs show ?thesis by metis
    qed
  qed
qed simp

lemma loop_split:
  "daemon_loop offset (xs @ ys) d = (0, d') \<Longrightarrow>
     \<exists>d1. daemon_loop offset xs d = (0, d1) \<and> daemon_loop offset ys d1 = (0, d')
       \<and> loop_records offset (xs @ ys) d = loop_records offset xs d @ loop_records offset ys d1"
  by (induction xs arbitrary: d) (auto split: prod.split_asm if_split_asm)

section \<open>Properties\<close>

text \<open>
  C6. Bounded delay: a record of the iterations \<open>early\<close> has been written to every sink loaded all
  along once an iteration comes to the flush interval after the last of them (a quiet node
  wakes up for it, \<^verbatim>\<open>poll\<close> has a timeout), whatever the batch size, the load and the reloads
  in between. (The steady clock does not go back; no poll failed.)
\<close>

theorem delivery_delay:
  assumes "is_start d0" and "\<forall>inp \<in> set (early @ late). reload_ok inp"
    and "daemon_loop offset (early @ late) d0 = (0, d)"
    and "d_pipeline d0 = Some p0" and "sorted (pl_last_flush p0 # map ti_steady early)" and "late \<noteq> []"
    and "s64 (po_flush_interval (pl_opt p0) * 1000000)
           \<le> ti_steady (last late) - last (pl_last_flush p0 # map ti_steady early)"
    and "q \<in> ls_sink ` set (d_sinks d0)" and "q \<in> ls_sink ` set (d_sinks d)"
  shows "prefix (loop_records offset early d0) (concat (written_log q (d_log d)))"
proof -
  let ?opt = "pl_opt p0" and ?ts = "pl_last_flush p0 # map ti_steady early"
  obtain d1 where d1: "daemon_loop offset early d0 = (0, d1)" "daemon_loop offset late d1 = (0, d)"
    and recs: "loop_records offset (early @ late) d0 = loop_records offset early d0 @ loop_records offset late d1"
    using loop_split [OF assms(3)] by blast
  have "held d0 = Some (?opt, pl_last_flush p0, pl_batch p0)" using assms(4) by (simp add: held_def)
  from loop_held [OF this d1(1)] obtain t1 b1 where h1: "held d1 = Some (?opt, t1, b1)" and "t1 \<in> set ?ts"
    by auto
  with sorted_last assms(5) have "t1 \<le> last ?ts" by blast
  with assms(7) have late: "\<not> ti_steady (last late) - t1 < interval_ns ?opt" by (simp add: interval_ns_def)
  from loop_held [OF h1 d1(2)] late assms(6) obtain t' b' where "held d = Some (?opt, t', b')"
    and sub: "suffix b' (loop_records offset late d1)" by auto
  then have pend: "pending d = b'" by (auto simp: pending_def held_def)
  have q: "q \<in> live_sinks d0" "q \<in> live_sinks d" using assms(8,9) by (simp_all add: live_sinks_def)
  have "running_inv d0" using is_start_fully_started [OF assms(1)] by (simp add: fully_started_def)
  from loop_delivery [OF is_start_delivery [OF assms(1)] this assms(2,3)]
  have "concat (written_log q (d_log d)) @ b' = loop_records offset early d0 @ loop_records offset late d1"
    using delivery_invD(3) q recs pend by fastforce
  moreover obtain w where "loop_records offset late d1 = w @ b'" using sub by (auto simp: suffix_def)
  ultimately have "concat (written_log q (d_log d)) = loop_records offset early d0 @ w" by simp
  then show ?thesis by simp
qed

text \<open>An iteration in which nothing happens, two seconds later.\<close>

definition idle_tick :: tick_input where
  "idle_tick = \<lparr>ti_poll = Inr [], ti_monotonic = 0, ti_steady = 2000000000, ti_reload = None, ti_users = (\<lambda>_. None)\<rparr>"

lemma delivery_delay_witness:
  "\<exists>d. daemon_loop 7 ([stream_tick] @ [idle_tick]) stream_daemon = (0, d)
    \<and> prefix (loop_records 7 [stream_tick] stream_daemon) (concat (written_log 1 (d_log d)))"
proof -
  have "case daemon_loop 7 ([stream_tick] @ [idle_tick]) stream_daemon of (rc, d) \<Rightarrow>
      rc = 0 \<and> map ls_sink (d_sinks d) = [1, 5]" by code_simp
  then obtain d where run: "daemon_loop 7 ([stream_tick] @ [idle_tick]) stream_daemon = (0, d)"
    and on: "map ls_sink (d_sinks d) = [1, 5]" by (auto split: prod.splits)
  have "case d_pipeline stream_daemon of None \<Rightarrow> False | Some p \<Rightarrow>
      pl_last_flush p = 0 \<and> po_flush_interval (pl_opt p) = 1000" by code_simp
  then obtain p0 where p0: "d_pipeline stream_daemon = Some p0" "pl_last_flush p0 = 0"
    "po_flush_interval (pl_opt p0) = 1000" by (auto split: option.splits)
  have "s64 1000000000 = 1000000000" by code_simp
  then have late: "s64 (po_flush_interval (pl_opt p0) * 1000000)
      \<le> ti_steady (last [idle_tick]) - last (pl_last_flush p0 # map ti_steady [stream_tick])"
    using p0 by (simp add: idle_tick_def stream_tick_def)
  have ok: "\<forall>inp \<in> set ([stream_tick] @ [idle_tick]). reload_ok inp"
    using stream_reload_ok by (simp add: idle_tick_def reload_ok_def)
  have "sorted (pl_last_flush p0 # map ti_steady [stream_tick])" by (simp add: p0 stream_tick_def)
  moreover have "1 \<in> ls_sink ` set (d_sinks stream_daemon)" "1 \<in> ls_sink ` set (d_sinks d)"
    using stream_records(3) on by (simp_all flip: set_map)
  ultimately have "prefix (loop_records 7 [stream_tick] stream_daemon) (concat (written_log 1 (d_log d)))"
    using delivery_delay [OF stream_is_start ok run p0(1) _ _ late] by blast
  with run show ?thesis by blast
qed

end
