(* ===== verification/DaemonEvents.thy ===== *)
theory DaemonEvents
  imports DaemonInstances
begin

text \<open>
  From the tracepoints to the records of the daemon: what the programs of
  \<^verbatim>\<open>proc_lifecycle.bpf.c\<close> submit during a burst, through one ring of a poll, to the records the
  pipeline puts into its batch.
\<close>

section \<open>The kernel side\<close>

text \<open>One hit of a tracepoint: an exec, or the exit of a task with its ids and exit code.\<close>

datatype proc_hook = Exec_Hook task_ctx | Exit_Hook u32 u32 u32 task_ctx

fun hook_ctx :: "proc_hook \<Rightarrow> task_ctx" where
  "hook_ctx (Exec_Hook ctx) = ctx"
| "hook_ctx (Exit_Hook _ _ _ ctx) = ctx"

text \<open>The flag: whether the ring had room.\<close>

fun hook_event :: "u64 \<Rightarrow> bool \<times> proc_hook \<Rightarrow> st_proc_event option" where
  "hook_event filter_id (reserved, Exec_Hook ctx) = on_exec filter_id reserved ctx"
| "hook_event filter_id (reserved, Exit_Hook pid tgid code ctx) = on_exit filter_id reserved pid tgid code ctx"

text \<open>
  Which hits are reported: there was room in the ring, the cgroup passes the filter, and an
  exiting task leads its thread group.
\<close>

fun reported :: "u64 \<Rightarrow> bool \<times> proc_hook \<Rightarrow> bool" where
  "reported filter_id (reserved, h) \<longleftrightarrow>
     reserved \<and> (filter_id = 0 \<or> ctx_cgroup_id (hook_ctx h) = filter_id)
     \<and> (case h of Exec_Hook _ \<Rightarrow> True | Exit_Hook pid tgid _ _ \<Rightarrow> pid = tgid)"

definition event_of :: "proc_hook \<Rightarrow> st_proc_event" where
  "event_of h = the (hook_event 0 (True, h))"

lemma hook_event_reported:
  "hook_event filter_id (reserved, h) =
     (if reported filter_id (reserved, h) then Some (event_of h) else None)"
  by (cases h) (simp_all add: event_of_def on_exec_def on_exit_def proc_emit_def Let_def)

lemma events_reported:
  "List.map_filter (hook_event filter_id) hooks = map event_of (map snd (filter (reported filter_id) hooks))"
proof (induction hooks)
  case (Cons hit hooks)
  obtain reserved h where "hit = (reserved, h)" by (cases hit)
  with Cons.IH show ?case by (simp add: List.map_filter_def hook_event_reported del: reported.simps)
qed (simp add: List.map_filter_def)

section \<open>One event, one record\<close>

text \<open>
  The record of an event: what the event says, the instance, the node, wall-clock time, and the
  job that the map of the resolver has for the event's cgroup and time.
\<close>

definition event_recorded ::
  "string \<Rightarrow> u64 \<Rightarrow> pipeline_options \<Rightarrow> (u64 \<Rightarrow> u64 \<Rightarrow> attribution option) \<Rightarrow> st_proc_event \<Rightarrow> st_record \<Rightarrow> bool" where
  "event_recorded ident offset opt attr e r \<longleftrightarrow>
     (let h = pe_hdr e in
      rec_probe r = ident \<and> rec_ts_ns r = hdr_ts_ns h + offset \<and> rec_cgroup_id r = hdr_cgroup_id h
      \<and> rec_pid r = hdr_pid h \<and> rec_tid r = hdr_tid h \<and> rec_uid r = Some (hdr_uid h)
      \<and> rec_comm r = c_string (pe_comm e) ST_COMM_LEN
      \<and> rec_event_type r = (if hdr_type h = ST_EVENT_EXEC then ''exec'' else ''exit'')
      \<and> rec_value r = (if hdr_type h = ST_EVENT_EXEC then 1
           else real_of_int (sint (signed_drop_bit 8 (pe_exit_code e) AND 0xff)))
      \<and> rec_node r = po_node opt \<and> rec_cluster r = po_cluster opt
      \<and> rec_job_id r = map_option attr_job_id (attr (hdr_cgroup_id h) (hdr_ts_ns h)))"

text \<open>The record of a hit: the same, with the task as the kernel saw it.\<close>

definition recorded ::
  "string \<Rightarrow> u64 \<Rightarrow> pipeline_options \<Rightarrow> (u64 \<Rightarrow> u64 \<Rightarrow> attribution option) \<Rightarrow> proc_hook \<Rightarrow> st_record \<Rightarrow> bool" where
  "recorded ident offset opt attr h r \<longleftrightarrow>
     (let ctx = hook_ctx h in
      rec_probe r = ident \<and> rec_ts_ns r = ctx_now ctx + offset \<and> rec_cgroup_id r = ctx_cgroup_id ctx
      \<and> rec_pid r = ucast (drop_bit 32 (ctx_pid_tgid ctx)) \<and> rec_tid r = ucast (ctx_pid_tgid ctx)
      \<and> rec_uid r = Some (ucast (ctx_uid_gid ctx))
      \<and> rec_comm r = takeWhile (\<lambda>c. c \<noteq> NUL) (ctx_comm ctx)
      \<and> rec_event_type r = (case h of Exec_Hook _ \<Rightarrow> ''exec'' | Exit_Hook _ _ _ _ \<Rightarrow> ''exit'')
      \<and> rec_value r = (case h of Exec_Hook _ \<Rightarrow> 1
           | Exit_Hook _ _ code _ \<Rightarrow> real_of_int (uint code div 2 ^ 8 mod 2 ^ 8))
      \<and> rec_node r = po_node opt \<and> rec_cluster r = po_cluster opt
      \<and> rec_job_id r = map_option attr_job_id (attr (ctx_cgroup_id ctx) (ctx_now ctx)))"

lemma event_recorded_hook:
  assumes "reported filter_id (reserved, h)" and "length (ctx_comm (hook_ctx h)) = ST_COMM_LEN"
    and "event_recorded ident offset opt attr (event_of h) r"
  shows "recorded ident offset opt attr h r"
  using assms
  by (cases h) (simp_all add: event_recorded_def recorded_def event_of_def on_exec_def on_exit_def proc_emit_def
      c_string_eq exit_status_value ST_EVENT_EXEC_def ST_EVENT_EXIT_def Let_def)

definition proc_event_known :: "st_proc_event \<Rightarrow> bool" where
  "proc_event_known e \<longleftrightarrow> proc_event_valid e \<and> hdr_type (pe_hdr e) \<in> {ST_EVENT_EXEC, ST_EVENT_EXIT}"

lemma event_of_known:
  assumes "reported filter_id (reserved, h)" and "length (ctx_comm (hook_ctx h)) = ST_COMM_LEN"
  shows "proc_event_known (event_of h)"
  using assms
  by (cases h) (simp_all add: proc_event_known_def proc_event_valid_def event_of_def on_exec_def on_exit_def
      proc_emit_def Let_def)

lemma translate_proc_known:
  "proc_event_known e \<Longrightarrow> \<exists>r. translate_proc e = Some r \<and> partly_filled (pe_hdr e) r
     \<and> rec_comm r = c_string (pe_comm e) ST_COMM_LEN
     \<and> rec_event_type r = (if hdr_type (pe_hdr e) = ST_EVENT_EXEC then ''exec'' else ''exit'')
     \<and> rec_value r = (if hdr_type (pe_hdr e) = ST_EVENT_EXEC then 1
          else real_of_int (sint (signed_drop_bit 8 (pe_exit_code e) AND 0xff)))"
  by (auto simp: translate_proc_def proc_event_known_def partly_filled_def fill_from_hdr_def c_string_length
      Let_def ST_EVENT_EXEC_def ST_EVENT_EXIT_def)

lemma enrich_recorded:
  assumes "proc_event_known e"
  shows "\<exists>r. proc_on_event (encode_proc_event padding e) = Some r
    \<and> event_recorded ident offset (pl_opt p) (lookup_attr res) e (fst (enrich offset pw (r\<lparr>rec_probe := ident\<rparr>) p res))"
proof -
  have "proc_on_event (encode_proc_event padding e) = translate_proc e"
    unfolding proc_on_event_def using assms
    by (intro proc_wire.handle_encoded_exact) (simp add: proc_event_known_def)
  moreover from translate_proc_known [OF assms] obtain r where "translate_proc e = Some r"
    "partly_filled (pe_hdr e) r" "rec_comm r = c_string (pe_comm e) ST_COMM_LEN"
    "rec_event_type r = (if hdr_type (pe_hdr e) = ST_EVENT_EXEC then ''exec'' else ''exit'')"
    "rec_value r = (if hdr_type (pe_hdr e) = ST_EVENT_EXEC then 1
       else real_of_int (sint (signed_drop_bit 8 (pe_exit_code e) AND 0xff)))" by blast
  moreover from this have "event_recorded ident offset (pl_opt p) (lookup_attr res) e
      (fst (enrich offset pw (r\<lparr>rec_probe := ident\<rparr>) p res))"
    using enrich_spec [where offset = offset and pw = pw and r = "r\<lparr>rec_probe := ident\<rparr>" and p = p and res = res]
    by (cases "lookup_attr res (hdr_cgroup_id (pe_hdr e)) (hdr_ts_ns (pe_hdr e))")
      (auto simp: event_recorded_def partly_filled_def Let_def split: prod.splits)
  ultimately show ?thesis by simp
qed

section \<open>One ring, one poll\<close>

lemma add_record_opt: "pl_opt (fst (add_record r p)) = pl_opt p"
  by (simp add: add_record_eq Let_def)

text \<open>What stays the same while a probe's ring is drained.\<close>

definition draining :: "loaded_probe \<Rightarrow> pipeline_options \<Rightarrow> (u64 \<Rightarrow> u64 \<Rightarrow> attribution option) \<Rightarrow> daemon \<Rightarrow> bool" where
  "draining lp opt attr d \<longleftrightarrow>
     d_watcher d \<noteq> Some (lp_probe lp)
     \<and> find (\<lambda>x. lp_probe x = lp_probe lp \<and> lp_emitter x = lp_emitter lp) (d_probes d) = Some lp
     \<and> (\<exists>p res. d_pipeline d = Some p \<and> pl_opt p = opt \<and> d_resolver d = Some res \<and> lookup_attr res = attr)"

lemma dispatch_draining:
  assumes d: "draining lp opt attr d" and "lp_handler lp = proc_on_event" and known: "proc_event_known e"
    and ev: "ev = (lp_probe lp, lp_emitter lp, encode_proc_event padding e)"
  shows "\<exists>r. dispatch_record offset pw ev d = [r] \<and> event_recorded (lp_id lp) offset opt attr e r
    \<and> draining lp opt attr (dispatch offset pw ev d)"
proof -
  from d obtain p res where p: "d_pipeline d = Some p" "pl_opt p = opt" "d_resolver d = Some res"
    "lookup_attr res = attr" and lp: "d_watcher d \<noteq> Some (lp_probe lp)"
    "find (\<lambda>x. lp_probe x = lp_probe lp \<and> lp_emitter x = lp_emitter lp) (d_probes d) = Some lp"
    unfolding draining_def by blast
  from enrich_recorded [OF known, of padding "lp_id lp" offset p res pw] p obtain r where
    r: "proc_on_event (encode_proc_event padding e) = Some r"
    "event_recorded (lp_id lp) offset opt attr e (fst (enrich offset pw (r\<lparr>rec_probe := lp_id lp\<rparr>) p res))" by auto
  obtain r' p' res' where e: "enrich offset pw (r\<lparr>rec_probe := lp_id lp\<rparr>) p res = (r', p', res')"
    by (metis prod.exhaust)
  then have "lookup_attr res' = attr" "pl_opt p' = opt"
    using enrich_spec [where offset = offset and pw = pw and r = "r\<lparr>rec_probe := lp_id lp\<rparr>" and p = p and res = res]
      enrich_frame(1) [of offset pw "r\<lparr>rec_probe := lp_id lp\<rparr>" p res] p by simp_all
  moreover obtain p'' calls where a: "add_record r' p' = (p'', calls)" by (metis prod.exhaust)
  then have "pl_opt p'' = pl_opt p'" using add_record_opt [of r' p'] by simp
  ultimately show ?thesis
    using p lp r e a assms(2)
    by (simp add: ev dispatch_record_def dispatch_def instance_emit_def pipeline_emit_def draining_def)
qed

lemma drain_ring:
  "draining lp opt attr d \<Longrightarrow> lp_handler lp = proc_on_event \<Longrightarrow> list_all proc_event_known es \<Longrightarrow>
     length pads = length es \<Longrightarrow>
     list_all2 (event_recorded (lp_id lp) offset opt attr) es
       (poll_records offset pw (map (\<lambda>data. (lp_probe lp, lp_emitter lp, data)) (map2 encode_proc_event pads es)) d)"
proof (induction es arbitrary: pads d)
  case (Cons e es)
  then obtain pad pads' where pads: "pads = pad # pads'" by (cases pads) auto
  from Cons.prems dispatch_draining [OF Cons.prems(1,2), of e _ pad offset pw] Cons.IH [of _ pads']
  show ?case by (force simp: pads)
qed simp

lemma poll_records_append:
  "poll_records offset pw (xs @ ys) d =
     poll_records offset pw xs d @ poll_records offset pw ys (fold (dispatch offset pw) xs d)"
  by (induction xs arbitrary: d) simp_all

lemma dispatch_draining_other:
  assumes "running_inv d" and "lp \<in> set (d_probes d)" and "d_pipeline d = Some p" and "d_resolver d = Some res"
  shows "\<exists>res'. d_resolver (fold (dispatch offset pw) evs d) = Some res'
    \<and> draining lp (pl_opt p) (lookup_attr res') (fold (dispatch offset pw) evs d)"
proof -
  have step: "d_probes (dispatch offset pw ev d) = d_probes d \<and> d_watcher (dispatch offset pw ev d) = d_watcher d
      \<and> (\<exists>p' res'. d_pipeline (dispatch offset pw ev d) = Some p' \<and> pl_opt p' = pl_opt p
           \<and> d_resolver (dispatch offset pw ev d) = Some res')"
    if "d_pipeline d = Some p" "d_resolver d = Some res" for ev d p res
  proof -
    have "pl_opt p' = pl_opt p" if "pipeline_emit offset pw r p res = ((p', calls), res')" for r p' calls res'
      using step_frame(1) [of offset "Emit pw r" "(p, res)"] that by simp
    with that show ?thesis
      by (auto simp: dispatch_def instance_emit_def Let_def split: prod.split option.split)
  qed
  have "d_probes (fold (dispatch offset pw) evs d) = d_probes d
      \<and> d_watcher (fold (dispatch offset pw) evs d) = d_watcher d
      \<and> (\<exists>p' res'. d_pipeline (fold (dispatch offset pw) evs d) = Some p' \<and> pl_opt p' = pl_opt p
           \<and> d_resolver (fold (dispatch offset pw) evs d) = Some res')"
    using assms(3,4)
  proof (induction evs arbitrary: d p res)
    case (Cons ev evs)
    from step [OF Cons.prems, of ev] obtain p1 res1 where 1: "d_pipeline (dispatch offset pw ev d) = Some p1"
      "pl_opt p1 = pl_opt p" "d_resolver (dispatch offset pw ev d) = Some res1" by blast
    from step [OF Cons.prems, of ev] Cons.IH [OF 1(1,3)] 1(2) show ?case by simp
  qed simp
  moreover have "d_watcher d \<noteq> Some (lp_probe lp)"
    "find (\<lambda>x. lp_probe x = lp_probe lp \<and> lp_emitter x = lp_emitter lp) (d_probes d) = Some lp"
  proof -
    have inv: "distinct (map lp_probe (d_probes d))" "d_watcher d \<noteq> Some (lp_probe lp)"
      using assms(1,2) by (auto simp: running_inv_def daemon_inv_def probes_inv_def)
    show "d_watcher d \<noteq> Some (lp_probe lp)" by (fact inv)
    have "find (\<lambda>x. lp_probe x = lp_probe y \<and> lp_emitter x = lp_emitter y) ps = Some y"
      if "distinct (map lp_probe ps)" "y \<in> set ps" for y ps
      using that by (induction ps) (auto simp: rev_image_eqI)
    from this [OF inv(1) assms(2)]
    show "find (\<lambda>x. lp_probe x = lp_probe lp \<and> lp_emitter x = lp_emitter lp) (d_probes d) = Some lp" .
  qed
  ultimately show ?thesis unfolding draining_def by auto
qed

section \<open>Properties\<close>

text \<open>
  C2. From the tracepoints to the sinks, a burst at a time: let the ring of a running
  proc_lifecycle instance hold what the kernel programs submitted for a sequence of execs and
  exits, and let the poll of an iteration find it ready, among other rings in any order. Of the
  hits there was room for, that pass the filter and, for an exit, are of a group's leader, the
  daemon makes exactly one record each, in the order of the hits: with the task's ids, command
  name and exit status as the kernel saw them, the id of the instance, the node, wall-clock
  time, and the job of its cgroup according to the watcher events handled before this ring. At
  the end of the iteration these records are, between those of the rings before and after, what
  every loaded sink has more than before, in batches written to it or in the waiting batch.
\<close>

theorem kernel_burst_recorded:
  assumes "running_inv d" and "d_pipeline d = Some p" and "d_resolver d = Some res"
    and "lp \<in> set (d_probes d)" and "lp_handler lp = proc_on_event"
    and "el_rb (d_loop d) = Some rings" and "k < length rings" and "rings ! k = binding_of lp"
    and "events = List.map_filter (hook_event filter_id) hooks"
    and "\<forall>(reserved, h) \<in> set hooks. length (ctx_comm (hook_ctx h)) = ST_COMM_LEN"
    and "length pads = length events"
    and "ti_poll inp = Inr (before @ (k, map2 encode_proc_event pads events) # after)"
    and "daemon_tick offset inp d = (go_on, d')"
  shows "let d1 = fold (dispatch offset (ti_users inp)) (snd (loop_poll (Inr before) (d_loop d))) d
    in \<exists>earlier recs later res1. d_resolver d1 = Some res1
      \<and> list_all2 (recorded (lp_id lp) offset (pl_opt p) (lookup_attr res1))
          (map snd (filter (reported filter_id) hooks)) recs
      \<and> (\<forall>ls \<in> set (d_sinks d).
           given_to (ls_sink ls) d1 = given_to (ls_sink ls) d @ earlier
           \<and> given_to (ls_sink ls) d' = given_to (ls_sink ls) d @ earlier @ recs @ later)"
proof -
  let ?evs = "\<lambda>ready. snd (loop_poll (Inr ready) (d_loop d))"
  let ?burst = "map (\<lambda>data. (lp_probe lp, lp_emitter lp, data)) (map2 encode_proc_event pads events)"
  let ?hits = "map snd (filter (reported filter_id) hooks)"
  define d1 where "d1 = fold (dispatch offset (ti_users inp)) (?evs before) d"
  define recs where "recs = poll_records offset (ti_users inp) ?burst d1"
  obtain res1 where res1: "d_resolver d1 = Some res1" and drain: "draining lp (pl_opt p) (lookup_attr res1) d1"
    using dispatch_draining_other [OF assms(1,4,2,3)] unfolding d1_def by blast
  have events: "events = map event_of ?hits" unfolding assms(9) by (rule events_reported)
  have hits: "\<exists>reserved. reported filter_id (reserved, h) \<and> length (ctx_comm (hook_ctx h)) = ST_COMM_LEN"
    if "h \<in> set ?hits" for h using that assms(10) by fastforce
  have "list_all proc_event_known events"
    using hits event_of_known by (fastforce simp: events list_all_iff simp del: reported.simps)
  from drain_ring [OF drain assms(5) this assms(11)]
  have "list_all2 (event_recorded (lp_id lp) offset (pl_opt p) (lookup_attr res1)) (map event_of ?hits) recs"
    unfolding recs_def events .
  then have "list_all2 (\<lambda>h. event_recorded (lp_id lp) offset (pl_opt p) (lookup_attr res1) (event_of h)) ?hits recs"
    by (simp only: list_all2_map1)
  then have recs: "list_all2 (recorded (lp_id lp) offset (pl_opt p) (lookup_attr res1)) ?hits recs"
    by (rule list.rel_mono_strong) (use hits event_recorded_hook in blast)
  have "snd (loop_poll (ti_poll inp) (d_loop d)) = ?evs before @ ?burst @ ?evs after"
    using assms(6-8) by (simp add: assms(12) loop_poll_def binding_of_def)
  then have all: "tick_records offset inp d = poll_records offset (ti_users inp) (?evs before) d @ recs
      @ poll_records offset (ti_users inp) (?evs after) (fold (dispatch offset (ti_users inp)) ?burst d1)"
    by (simp only: tick_records_def poll_records_append d1_def recs_def)
  have given: "given_to (ls_sink ls) d1 = given_to (ls_sink ls) d @ poll_records offset (ti_users inp) (?evs before) d"
    "given_to (ls_sink ls) d' = given_to (ls_sink ls) d @ tick_records offset inp d" if "ls \<in> set (d_sinks d)" for ls
    using poll_given [OF assms(1)] tick_given [OF assms(1) _ assms(13)] that by (simp_all add: d1_def live_sinks_def)
  show ?thesis
    unfolding Let_def d1_def [symmetric]
    by (rule exI [of _ "poll_records offset (ti_users inp) (?evs before) d"], rule exI [of _ recs], rule exI, rule exI,
        intro conjI ballI, rule res1, rule recs, erule given(1), subst given(2), assumption, subst all, rule refl)
qed

text \<open>An exec, one that finds no room, and the exit of a thread that does not lead its group.\<close>

definition burst :: "(bool \<times> proc_hook) list" where
  "burst = [(True, Exec_Hook example_task), (False, Exec_Hook example_task), (True, Exit_Hook 43 42 0 example_task)]"

definition burst_tick :: tick_input where
  "burst_tick = \<lparr>ti_poll = Inr ([(0, [])] @ (1, map2 encode_proc_event [0] (List.map_filter (hook_event 0) burst)) # []),
     ti_monotonic = 0, ti_steady = 0, ti_reload = None, ti_users = (\<lambda>_. None)\<rparr>"

lemma stream_procs:
  obtains lp where "d_probes stream_daemon = [lp]" "lp_handler lp = proc_on_event"
    "el_rb (d_loop stream_daemon) = Some [watcher_binding 2, binding_of lp]"
proof -
  have "map lp_id (d_probes stream_daemon) = [''procs''] \<and> map lp_probe (d_probes stream_daemon) = [3]
      \<and> map lp_emitter (d_probes stream_daemon) = [4]
      \<and> map_option (map (\<lambda>b. (b_probe b, b_out b))) (el_rb (d_loop stream_daemon)) = Some [(2, 0), (3, 4)]"
    by code_simp
  then obtain lp where lp: "d_probes stream_daemon = [lp]" "lp_id lp = ''procs''" "lp_probe lp = 3" "lp_emitter lp = 4"
    "el_rb (d_loop stream_daemon) = Some [\<lparr>b_probe = 2, b_out = 0\<rparr>, \<lparr>b_probe = 3, b_out = 4\<rparr>]"
    by (auto simp: map_eq_Cons_conv)
  have "config_ok stream_config" by code_simp
  moreover have "en_disk example_env = built_tree (cfg_plugin_dir stream_config)"
    by (simp add: example_env_def stream_config_def example_config_def)
  ultimately have "handlers_inv stream_daemon"
    using start_settings [OF stream_started [unfolded stream_start_def] example_rings] by blast
  then obtain c where c: "map_find (cfg_probes (d_config stream_daemon)) ''procs'' = Some c"
    "handler_of (plugin_of ''procs'' c) = Some (lp_handler lp)"
    using lp(1,2) by (auto simp: handlers_inv_def handled_def)
  have "map_find (cfg_probes (d_config stream_daemon)) ''procs'' = Some [(''plugin'', ''proc_lifecycle'')]"
    by code_simp
  with c(1) have "c = [(''plugin'', ''proc_lifecycle'')]" by simp
  with c(2) have "lp_handler lp = proc_on_event"
    by (simp add: handler_of_def plugin_of_def cc_get_def)
  then show thesis using that lp by (simp add: binding_of_def watcher_binding_def pipeline_emitter_def)
qed

lemma kernel_burst_recorded_witness:
  "\<exists>recs ls. d_sinks stream_daemon = [ls] \<and> length recs = 1 \<and> map rec_pid recs = [42]
     \<and> sublist recs (given_to (ls_sink ls) (snd (daemon_tick 7 burst_tick stream_daemon)))"
proof -
  obtain lp where lp: "d_probes stream_daemon = [lp]" "lp_handler lp = proc_on_event"
    "el_rb (d_loop stream_daemon) = Some [watcher_binding 2, binding_of lp]" by (rule stream_procs)
  have started: "fully_started stream_daemon" by (rule is_start_fully_started [OF stream_is_start])
  then obtain p res where "running_inv stream_daemon" "d_pipeline stream_daemon = Some p" "d_resolver stream_daemon = Some res"
    by (auto simp: fully_started_def)
  moreover have "lp \<in> set (d_probes stream_daemon)" by (simp add: lp)
  moreover have hits: "map snd (filter (reported 0) burst) = [Exec_Hook example_task]" by (simp add: burst_def)
  moreover have "\<forall>(reserved, h) \<in> set burst. length (ctx_comm (hook_ctx h)) = ST_COMM_LEN"
    by (simp add: burst_def example_task_def ST_COMM_LEN_def)
  moreover have "length (List.map_filter (hook_event 0) burst) = 1" by (simp only: events_reported hits) simp
  moreover obtain go_on d' where tick: "daemon_tick 7 burst_tick stream_daemon = (go_on, d')"
    by (metis prod.exhaust)
  moreover obtain ls where ls: "d_sinks stream_daemon = [ls]"
    using stream_records(3) by (auto simp: map_eq_Cons_conv)
  ultimately have "\<exists>earlier recs later attr.
      given_to (ls_sink ls) d' = given_to (ls_sink ls) stream_daemon @ earlier @ recs @ later
      \<and> list_all2 (recorded (lp_id lp) 7 (pl_opt p) attr) [Exec_Hook example_task] recs"
    using kernel_burst_recorded [of stream_daemon p res lp "[watcher_binding 2, binding_of lp]" 1
        "List.map_filter (hook_event 0) burst" 0 burst "[0]" burst_tick "[(0, [])]" "[]" 7 go_on d'] lp(2,3)
    unfolding Let_def burst_tick_def by simp blast
  then obtain earlier recs later attr where
    given: "given_to (ls_sink ls) d' = given_to (ls_sink ls) stream_daemon @ earlier @ recs @ later"
    and recs: "list_all2 (recorded (lp_id lp) 7 (pl_opt p) attr) [Exec_Hook example_task] recs" by blast
  from recs have "length recs = 1 \<and> map rec_pid recs = [42]"
    by (auto simp: list_all2_Cons1 recorded_def example_task_def)
  moreover have "sublist recs (given_to (ls_sink ls) d')"
    unfolding given sublist_def by (metis append.assoc)
  ultimately show ?thesis using tick ls by auto
qed

end
