(* ===== verification/DaemonWatcher.thy ===== *)
theory DaemonWatcher
  imports DaemonInstances
begin

text \<open>
  The loss of the cgroup watcher during a reload, and the run after it: what the operations
  of the daemon leave alone of a component that is not among its probes.
\<close>

section \<open>What an operation leaves alone\<close>

definition bound :: "daemon \<Rightarrow> probe_ptr set" where
  "bound d = b_probe ` set (el_bindings (d_loop d))"

definition probes_of :: "daemon \<Rightarrow> probe_ptr set" where
  "probes_of d = lp_probe ` set (d_probes d)"

text \<open>
  The watcher stays; rings and probes go, or come at new addresses; only probes, and objects
  made on the way, are detached or destroyed.
\<close>

definition leaves :: "daemon \<Rightarrow> daemon \<Rightarrow> bool" where
  "leaves d d' \<longleftrightarrow>
     d_watcher d' = d_watcher d \<and> d_fresh d \<le> d_fresh d'
     \<and> bound d' \<subseteq> bound d \<union> {d_fresh d..} \<and> probes_of d' \<subseteq> probes_of d \<union> {d_fresh d..}
     \<and> (\<forall>p. Probe_Detach p \<in> set (d_log d') \<or> Probe_Destroy p \<in> set (d_log d') \<longrightarrow>
          Probe_Detach p \<in> set (d_log d) \<or> Probe_Destroy p \<in> set (d_log d)
          \<or> p \<in> probes_of d \<or> d_fresh d \<le> p)"

lemma leaves_refl [simp]: "leaves d d"
  by (simp add: leaves_def)

lemma leavesD:
  assumes "leaves d d'"
  shows "d_watcher d' = d_watcher d" and "d_fresh d \<le> d_fresh d'"
    and "p \<in> bound d' \<Longrightarrow> p \<in> bound d \<or> d_fresh d \<le> p"
    and "p \<in> probes_of d' \<Longrightarrow> p \<in> probes_of d \<or> d_fresh d \<le> p"
    and "Probe_Detach p \<in> set (d_log d') \<or> Probe_Destroy p \<in> set (d_log d') \<Longrightarrow>
      (Probe_Detach p \<in> set (d_log d) \<or> Probe_Destroy p \<in> set (d_log d)) \<or> p \<in> probes_of d \<or> d_fresh d \<le> p"
  using assms by (auto simp: leaves_def)

lemma leaves_trans:
  assumes "leaves d d'" and "leaves d' d''"
  shows "leaves d d''"
proof -
  note a = leavesD [OF assms(1)] and b = leavesD [OF assms(2)]
  have up: "d_fresh d \<le> p" if "d_fresh d' \<le> p" for p using a(2) that by simp
  have "p \<in> bound d \<or> d_fresh d \<le> p" if "p \<in> bound d''" for p
    using b(3) [OF that] a(3) [of p] up by blast
  moreover have "p \<in> probes_of d \<or> d_fresh d \<le> p" if "p \<in> probes_of d''" for p
    using b(4) [OF that] a(4) [of p] up by blast
  moreover have "(Probe_Detach p \<in> set (d_log d) \<or> Probe_Destroy p \<in> set (d_log d)) \<or> p \<in> probes_of d \<or> d_fresh d \<le> p"
    if "Probe_Detach p \<in> set (d_log d'') \<or> Probe_Destroy p \<in> set (d_log d'')" for p
    using b(5) [OF that] a(4,5) [of p] up by blast
  ultimately show ?thesis using a(1,2) b(1,2) unfolding leaves_def by auto
qed

lemma leaves_fold: "(\<And>x d. leaves d (f x d)) \<Longrightarrow> leaves d (fold f xs d)"
  by (induction xs arbitrary: d) (auto intro: leaves_trans)

lemma add_sink_leaves: "leaves d (add_sink env i c d)"
  by (auto simp: leaves_def add_sink_def bound_def probes_of_def split: prod.split option.split)

lemma remove_sink_leaves: "leaves d (remove_sink i d)"
  by (auto simp: leaves_def remove_sink_def bound_def probes_of_def Let_def split: option.split)

lemma loop_add_bindings:
  "b_probe ` set (el_bindings (snd (loop_add fd armable probe out l))) \<subseteq> insert probe (b_probe ` set (el_bindings l))"
  by (auto simp: loop_add_def Let_def split: prod.split)

lemma add_probe_leaves: "leaves d (add_probe env i c d)"
proof (cases "load_probe (en_disk env) i (plugin_of i c) c (d_loader d)")
  case (Pair h l)
  let ?l = "loop_add (en_ring_fd env) (en_armable env) (d_fresh d) (Suc (d_fresh d)) (d_loop d)"
  obtain ok el where el: "?l = (ok, el)" by (metis prod.exhaust)
  then have "b_probe ` set (el_bindings el) \<subseteq> insert (d_fresh d) (bound d)"
    using loop_add_bindings [of "en_ring_fd env" "en_armable env" "d_fresh d" "Suc (d_fresh d)" "d_loop d"]
    by (simp add: bound_def)
  then have "b \<in> bound d" if "b \<in> b_probe ` set (el_bindings el)" "\<not> d_fresh d \<le> b" for b
    using that by auto
  with Pair el show ?thesis
    by (cases h) (auto simp: leaves_def add_probe_def bound_def probes_of_def Let_def)
qed

lemma loop_remove_bindings:
  assumes "loop_inv l"
  shows "b_probe ` set (el_bindings (snd (loop_remove armable probe l))) \<subseteq> b_probe ` set (el_bindings l)"
  by (auto simp: loop_remove_eq [OF assms] Let_def)

lemma erase_first_subset: "set (erase_first P xs) \<subseteq> set xs"
  by (induction xs) auto

lemma forget_probe_leaves:
  assumes "lp \<in> set (d_probes d)"
  shows "leaves d (forget_probe P lp d)"
  using assms erase_first_subset [of P "d_probes d"]
  by (fastforce simp: leaves_def forget_probe_def bound_def probes_of_def)

lemma forget_dropped_leaves: "leaves d (forget_dropped ps d)"
proof (induction ps d rule: forget_dropped.induct)
  case (2 dead ps d)
  show ?case
  proof (cases "find (\<lambda>p. lp_probe p = dead) (d_probes d)")
    case (Some lp)
    from leaves_trans [OF forget_probe_leaves [OF conjunct1 [OF find_SomeD [OF Some]]] 2(2) [OF Some]] Some
    show ?thesis by simp
  qed (use 2(1) in simp)
qed simp

lemma remove_probe_leaves:
  assumes "loop_inv (d_loop d)"
  shows "leaves d (remove_probe env i d)"
proof (cases "find (\<lambda>p. lp_id p = i) (d_probes d)")
  case (Some lp)
  obtain dropped el where r: "loop_remove (en_armable env) (lp_probe lp) (d_loop d) = (dropped, el)"
    by (metis prod.exhaust)
  have 1: "leaves d (d\<lparr>d_loop := el\<rparr>)"
    using loop_remove_bindings [OF assms, of "en_armable env" "lp_probe lp"] r
    by (simp add: leaves_def bound_def probes_of_def) blast
  have "lp \<in> set (d_probes (d\<lparr>d_loop := el\<rparr>))" using find_SomeD [OF Some] by simp
  from leaves_trans [OF 1 leaves_trans [OF forget_probe_leaves [OF this] forget_dropped_leaves]] Some r
  show ?thesis by (simp add: remove_probe_def)
qed (simp add: remove_probe_def)

lemma remove_probe_loop_inv: "loop_inv (d_loop d) \<Longrightarrow> loop_inv (d_loop (remove_probe env i d))"
  by (auto simp: remove_probe_def loop_remove_eq loop_inv_def distinct_map_filter Let_def split: option.split prod.split)

lemma remove_probes_leaves: "loop_inv (d_loop d) \<Longrightarrow> leaves d (fold (remove_probe env) ids d)"
proof (induction ids arbitrary: d)
  case (Cons i ids)
  from leaves_trans [OF remove_probe_leaves [OF Cons.prems] Cons.IH [OF remove_probe_loop_inv [OF Cons.prems]]]
  show ?case by simp
qed simp

lemma reload_leaves:
  assumes "loop_inv (d_loop d)"
  shows "leaves d (reload_config env loaded d)"
proof (cases "d_config_path d = [] \<or> (\<exists>err. loaded = Inl err)")
  case True
  then show ?thesis by (auto simp: reload_config_def)
next
  case False
  then obtain nxt where nxt: "loaded = Inr nxt" "d_config_path d \<noteq> []" by (cases loaded) auto
  show ?thesis
  proof (cases "diff_for_reload (d_config d) nxt")
    case None
    with nxt show ?thesis by (simp add: reload_config_def)
  next
    case (Some diff)
    define d1 where "d1 = fold remove_sink (removed_sinks diff) d"
    define d2 where "d2 = fold (\<lambda>i. add_sink env i (the (map_find (cfg_sinks nxt) i))) (added_sinks diff) d1"
    define d3 where "d3 = fold (remove_probe env) (removed_probes diff) d2"
    define d4 where "d4 = fold (\<lambda>i. add_probe env i (the (map_find (cfg_probes nxt) i))) (added_probes diff) d3"
    have "d_loop d2 = d_loop d" by (simp add: d2_def d1_def fold_frame [where g = d_loop])
    then have "leaves d2 d3" unfolding d3_def using assms by (intro remove_probes_leaves) simp
    moreover have "leaves d d1" "leaves d1 d2" "leaves d3 d4"
      unfolding d1_def d2_def d4_def by (intro leaves_fold remove_sink_leaves add_sink_leaves add_probe_leaves)+
    ultimately have "leaves d d4" by (blast intro: leaves_trans)
    moreover have "reload_config env loaded d =
        d4\<lparr>d_config := (d_config d4)\<lparr>cfg_sinks := cfg_sinks nxt, cfg_probes := cfg_probes nxt\<rparr>\<rparr>"
      using nxt Some by (simp add: reload_config_def d1_def d2_def d3_def d4_def Let_def)
    ultimately show ?thesis by (simp add: leaves_def bound_def probes_of_def)
  qed
qed

lemma sink_calls_leave:
  "d_watcher d' = d_watcher d \<Longrightarrow> d_fresh d' = d_fresh d \<Longrightarrow> d_loop d' = d_loop d \<Longrightarrow> d_probes d' = d_probes d
     \<Longrightarrow> d_log d' = d_log d @ map Sink_Call calls \<Longrightarrow> leaves d d'"
  by (auto simp: leaves_def bound_def probes_of_def)

lemma dispatch_leaves: "leaves d (dispatch offset pw ev d)"
proof -
  have emit: "leaves e (instance_emit offset pw i r e)" for i r e
    by (auto simp: instance_emit_def Let_def intro: sink_calls_leave [where calls = "[]"] sink_calls_leave
        split: prod.split option.split)
  have "leaves e (e\<lparr>d_resolver := r\<rparr>)" for e r by (rule sink_calls_leave [where calls = "[]"]) simp_all
  with emit show ?thesis by (auto simp: dispatch_def split: prod.split option.split)
qed

section \<open>The loss\<close>

lemma lost_in_removal:
  assumes "loop_inv (d_loop d)" and "binding_of ` set (d_probes d) \<subseteq> set (el_bindings (d_loop d))"
    and "set ids \<inter> lp_id ` set (d_probes d) \<noteq> {}" and "\<not> en_armable env w" and "w < d_fresh d"
  shows "w \<notin> bound (fold (remove_probe env) ids d)"
  using assms
proof (induction ids arbitrary: d)
  case (Cons i ids)
  show ?case
  proof (cases "i \<in> lp_id ` set (d_probes d)")
    case True
    then obtain lp where lp: "lp \<in> set (d_probes d)" "i = lp_id lp" by auto
    have "w \<notin> bound (remove_probe env i d)"
      using remove_probe_drops_watcher [OF Cons.prems(1,2) lp(1) Cons.prems(4)] by (simp add: bound_def lp(2))
    moreover have "w < d_fresh (remove_probe env i d)" using Cons.prems(5) by simp
    moreover have "leaves (remove_probe env i d) (fold (remove_probe env) ids (remove_probe env i d))"
      by (rule remove_probes_leaves [OF remove_probe_loop_inv [OF Cons.prems(1)]])
    ultimately show ?thesis using leavesD(3) by fastforce
  next
    case False
    then have "remove_probe env i d = d" by (auto simp: remove_probe_def find_None_iff split: option.split dest: find_SomeD)
    with False Cons show ?thesis by simp
  qed
qed simp

text \<open>The watcher of record, bound no more.\<close>

definition watcher_lost :: "probe_ptr \<Rightarrow> daemon \<Rightarrow> bool" where
  "watcher_lost w d \<longleftrightarrow> d_watcher d = Some w \<and> w < d_fresh d \<and> w \<notin> bound d \<and> w \<notin> probes_of d"

lemma lost_stays:
  "watcher_lost w d \<Longrightarrow> leaves d d' \<Longrightarrow> watcher_lost w d'"
  unfolding watcher_lost_def leaves_def by auto

lemma lost_not_called:
  "watcher_lost w d \<Longrightarrow> leaves d d' \<Longrightarrow> Probe_Detach w \<in> set (d_log d') \<or> Probe_Destroy w \<in> set (d_log d') \<Longrightarrow>
     Probe_Detach w \<in> set (d_log d) \<or> Probe_Destroy w \<in> set (d_log d)"
  unfolding watcher_lost_def leaves_def by auto

section \<open>Attribution without a watcher\<close>

text \<open>Nothing is learnt: an id resolves as it did, or no more.\<close>

definition learns_nothing :: "daemon \<Rightarrow> daemon \<Rightarrow> bool" where
  "learns_nothing d d' \<longleftrightarrow>
     (case (d_resolver d, d_resolver d') of
        (Some res, Some res') \<Rightarrow> \<forall>k ts. lookup_attr res' k ts \<in> {None, lookup_attr res k ts}
      | (None, None) \<Rightarrow> True
      | _ \<Rightarrow> False)"

lemma learns_nothing_same [simp]: "d_resolver d' = d_resolver d \<Longrightarrow> learns_nothing d d'"
  by (simp add: learns_nothing_def split: option.split)

lemma learns_nothing_trans: "learns_nothing d d' \<Longrightarrow> learns_nothing d' d'' \<Longrightarrow> learns_nothing d d''"
  by (auto simp: learns_nothing_def split: option.splits) (metis)+

lemma emit_learns_nothing: "learns_nothing d (instance_emit offset pw i r d)"
proof (cases "d_pipeline d = None \<or> d_resolver d = None")
  case True
  then show ?thesis by (auto simp: instance_emit_def split: option.split)
next
  case False
  then obtain p res where pr: "d_pipeline d = Some p" "d_resolver d = Some res" by auto
  obtain r' p' res' where e: "enrich offset pw (r\<lparr>rec_probe := i\<rparr>) p res = (r', p', res')" by (metis prod.exhaust)
  then have "lookup_attr res' = lookup_attr res"
    using enrich_spec [where offset = offset and pw = pw and r = "r\<lparr>rec_probe := i\<rparr>" and p = p and res = res] by simp
  with pr e show ?thesis
    by (simp add: instance_emit_def pipeline_emit_def learns_nothing_def split: prod.split)
qed

lemma poll_learns_nothing:
  "d_watcher d = Some w \<Longrightarrow> w \<notin> fst ` set evs \<Longrightarrow> learns_nothing d (fold (dispatch offset pw) evs d)"
proof (induction evs arbitrary: d)
  case (Cons ev evs)
  obtain probe out data where ev: "ev = (probe, out, data)" by (cases ev)
  have "learns_nothing d (dispatch offset pw ev d)"
    using Cons.prems emit_learns_nothing by (auto simp: ev dispatch_def split: option.split)
  moreover have "d_watcher (dispatch offset pw ev d) = Some w"
    using dispatch_leaves [of d offset pw ev] Cons.prems(1) by (simp add: leaves_def)
  ultimately show ?case using Cons learns_nothing_trans by simp
qed simp

lemma clock_learns_nothing:
  "learns_nothing d (d\<lparr>d_resolver := map_option (resolver_tick now) (d_resolver d)\<rparr>)"
  by (auto simp: learns_nothing_def resolver_tick_def expire_def lookup_attr_def split: option.split)

lemma tick_lost:
  assumes lost: "watcher_lost w d" and run: "running_inv d" and tick: "daemon_tick offset inp d = (go_on, d')"
  shows "leaves d d' \<and> learns_nothing d d'"
proof -
  obtain ok events where poll: "loop_poll (ti_poll inp) (d_loop d) = (ok, events)"
    by (metis prod.exhaust)
  have linv: "loop_inv (d_loop d)" using run by (simp add: running_inv_def daemon_inv_def probes_inv_def)
  have "probe \<in> bound d" if "(probe, out, data) \<in> set events" for probe out data
    using loop_poll_bound [OF linv, of probe out data "ti_poll inp"] poll that
    by (force simp: bound_def)
  then have "w \<notin> fst ` set events" using lost by (auto simp: watcher_lost_def)
  moreover define d1 where "d1 = fold (dispatch offset (ti_users inp)) events d"
  ultimately have 1: "leaves d d1" "learns_nothing d d1" "running_inv d1"
    using poll_learns_nothing lost run
    by (auto simp: d1_def watcher_lost_def intro!: leaves_fold dispatch_leaves
        intro: fold_invariant [where P = running_inv and Q = "\<lambda>_. True"] dispatch_inv)
  define d2 where "d2 = d1\<lparr>d_resolver := map_option (resolver_tick (ti_monotonic inp)) (d_resolver d1)\<rparr>"
  have 2: "leaves d1 d2" "learns_nothing d1 d2"
    unfolding d2_def by (rule sink_calls_leave [where calls = "[]"]) (simp_all add: clock_learns_nothing)
  define d3 where "d3 = on_pipeline (pipeline_tick (ti_steady inp)) d2"
  have 3: "leaves d2 d3" "d_resolver d3 = d_resolver d2" "d_loop d3 = d_loop d1"
    unfolding d3_def
    by (auto simp: on_pipeline_def d2_def split: option.split prod.split intro: sink_calls_leave [where calls = "[]"] sink_calls_leave)
  have linv3: "loop_inv (d_loop d3)" using 1(3) 3(3) by (simp add: running_inv_def daemon_inv_def probes_inv_def)
  have "d_resolver (reload_config env loaded d3) = d_resolver d3" for env loaded
    by (simp add: reload_config_def Let_def fold_frame [where g = d_resolver] split: sum.split option.split)
  moreover have "d' = d1 \<or> d' = d3 \<or> (\<exists>env loaded. d' = reload_config env loaded d3)"
    using tick poll by (auto simp: daemon_tick_def Let_def d1_def d2_def d3_def split: if_splits option.splits)
  ultimately show ?thesis
    using 1 2 3(1,2) reload_leaves [OF linv3]
    by (metis leaves_trans learns_nothing_trans learns_nothing_same)
qed

lemma loop_lost:
  "watcher_lost w d \<Longrightarrow> running_inv d \<Longrightarrow> \<forall>inp \<in> set inps. reload_ok inp \<Longrightarrow> daemon_loop offset inps d = (rc, d') \<Longrightarrow>
     leaves d d' \<and> learns_nothing d d'"
proof (induction inps arbitrary: d)
  case (Cons inp inps)
  obtain go_on d1 where tick: "daemon_tick offset inp d = (go_on, d1)" by (metis prod.exhaust)
  from tick_lost [OF Cons.prems(1,2) tick] have 1: "leaves d d1" "learns_nothing d d1" by simp_all
  have run: "running_inv d1" using daemon_tick_inv [OF Cons.prems(2) _ tick] Cons.prems(3) by simp
  show ?case
  proof (cases go_on)
    case True
    with Cons.IH [OF lost_stays [OF Cons.prems(1) 1(1)] run] Cons.prems(3,4) tick 1 show ?thesis
      by (auto intro: leaves_trans learns_nothing_trans)
  next
    case False
    with Cons.prems(4) tick 1 show ?thesis by simp
  qed
qed simp

lemma loop_code:
  "daemon_loop offset inps d = (rc, d') \<Longrightarrow>
     \<forall>inp \<in> set inps. \<forall>err. ti_poll inp = Inl err \<longrightarrow> 0 \<le> err \<or> err = - EINTR \<Longrightarrow> rc = 0"
proof (induction inps arbitrary: d)
  case (Cons inp inps)
  obtain go_on d1 where tick: "daemon_tick offset inp d = (go_on, d1)" by (metis prod.exhaust)
  have "go_on"
    using tick Cons.prems(2)
    by (auto simp: daemon_tick_def loop_poll_def Let_def split: prod.splits option.splits sum.splits if_splits)
  with Cons tick show ?case by simp
qed simp

section \<open>Properties\<close>

text \<open>The bindings of a running daemon.\<close>

lemma running_bindings:
  assumes "running_inv d"
  shows "loop_inv (d_loop d)" and "binding_of ` set (d_probes d) \<subseteq> set (el_bindings (d_loop d))"
    and "d_watcher d = Some w \<Longrightarrow> w < d_fresh d" and "d_watcher d = Some w \<Longrightarrow> w \<notin> probes_of d"
  using assms by (auto simp: running_inv_def daemon_inv_def probes_inv_def probes_of_def)

lemma reload_loses_watcher:
  assumes run: "running_inv d" and w: "d_watcher d = Some w" "\<not> en_armable env w"
    and cfg: "d_config_path d \<noteq> []" "config_ok nxt" "live_settings (d_config d) nxt"
    and gone: "lp \<in> set (d_probes d)" "\<not> same_plugin (cfg_probes (d_config d)) (cfg_probes nxt) (lp_id lp)"
  shows "watcher_lost w (reload_config env (Inr nxt) d)"
proof -
  obtain diff where diff: "diff_for_reload (d_config d) nxt = Some diff"
    using cfg(3) diff_for_reload_None [of "d_config d" nxt] by auto
  have cok: "config_ok (d_config d)" "lp_id lp \<in> set (map_keys (cfg_probes (d_config d)))"
    using run gone(1) by (auto simp: running_inv_def)
  have "lp_id lp \<in> set (removed_probes diff)"
    using reload_diff_sound(1) [OF diff cok(1) cfg(2)] cok(2) gone(2) unfolding diff_sound_def by blast
  define d1 where "d1 = fold remove_sink (removed_sinks diff) d"
  define d2 where "d2 = fold (\<lambda>i. add_sink env i (the (map_find (cfg_sinks nxt) i))) (added_sinks diff) d1"
  define d3 where "d3 = fold (remove_probe env) (removed_probes diff) d2"
  define d4 where "d4 = fold (\<lambda>i. add_probe env i (the (map_find (cfg_probes nxt) i))) (added_probes diff) d3"
  note b = running_bindings [OF run]
  have 12: "leaves d d1" "leaves d1 d2"
    unfolding d1_def d2_def by (intro leaves_fold remove_sink_leaves add_sink_leaves)+
  have f2: "d_loop d2 = d_loop d" "d_probes d2 = d_probes d"
    by (simp_all add: d2_def d1_def fold_frame [where g = d_loop] fold_frame [where g = d_probes])
  have fresh: "w < d_fresh d2" using b(3) [OF w(1)] leavesD(2) [OF leaves_trans [OF 12]] by simp
  have "w \<notin> bound d3"
    unfolding d3_def
    by (rule lost_in_removal) (use b(1,2) f2 gone(1) \<open>lp_id lp \<in> set (removed_probes diff)\<close> w(2) fresh in auto)
  moreover have 23: "leaves d2 d3" unfolding d3_def by (rule remove_probes_leaves) (simp add: f2 b(1))
  moreover have "w \<notin> probes_of d2" using b(4) [OF w(1)] f2 by (simp add: probes_of_def)
  ultimately have "watcher_lost w d3"
    using leavesD(1) [OF leaves_trans [OF 12]] leavesD(1,2) [OF 23] leavesD(4) [OF 23, of w] w(1) fresh
    by (auto simp: watcher_lost_def)
  moreover have "leaves d3 d4" unfolding d4_def by (intro leaves_fold add_probe_leaves)
  ultimately have "watcher_lost w d4" by (rule lost_stays)
  moreover have "reload_config env (Inr nxt) d =
      d4\<lparr>d_config := (d_config d4)\<lparr>cfg_sinks := cfg_sinks nxt, cfg_probes := cfg_probes nxt\<rparr>\<rparr>"
    using cfg(1) diff by (simp add: reload_config_def d1_def d2_def d3_def d4_def Let_def)
  ultimately show ?thesis by (simp add: watcher_lost_def bound_def probes_of_def)
qed

text \<open>
  C38. The watcher can be lost: if its ring cannot be re-armed while a reload removes some probe,
  the event loop drops it (with a message), but the daemon, which looks for dropped components
  among its probes only, keeps it as its watcher, attached and bound no more, through all polls
  and reloads that follow. From then on attribution gets no further events: an id that had no
  job for a time never gets one, whatever cgroups are made. And the run goes on: it ends with
  success unless a poll fails.
\<close>

theorem watcher_lost_on_rearm:
  assumes "running_inv d" and "d_watcher d = Some w" and "\<not> en_armable env w" and "rings_ok env"
    and "d_config_path d \<noteq> []" and "config_ok nxt" and "live_settings (d_config d) nxt"
    and "lp \<in> set (d_probes d)" and "\<not> same_plugin (cfg_probes (d_config d)) (cfg_probes nxt) (lp_id lp)"
    and "d_resolver d = Some res" and "\<forall>inp \<in> set inps. reload_ok inp"
    and "daemon_loop offset inps (reload_config env (Inr nxt) d) = (rc, d')"
  shows "d_watcher d' = Some w \<and> w \<notin> b_probe ` set (el_bindings (d_loop d'))
    \<and> (Probe_Detach w \<in> set (d_log d') \<or> Probe_Destroy w \<in> set (d_log d') \<longrightarrow>
         Probe_Detach w \<in> set (d_log d) \<or> Probe_Destroy w \<in> set (d_log d))
    \<and> (\<exists>res'. d_resolver d' = Some res'
         \<and> (\<forall>k ts. fst (resolve k ts res') \<in> {None, fst (resolve k ts res)}))
    \<and> ((\<forall>inp \<in> set inps. \<forall>err. ti_poll inp = Inl err \<longrightarrow> 0 \<le> err \<or> err = - EINTR) \<longrightarrow> rc = 0)"
proof -
  let ?d = "reload_config env (Inr nxt) d"
  have lost: "watcher_lost w ?d" by (rule reload_loses_watcher [OF assms(1-3,5-9)])
  have run: "running_inv ?d" using reload_inv [OF assms(1), of env nxt "Inr nxt"] assms(4,6) by simp
  from loop_lost [OF lost run assms(11,12)] have l: "leaves ?d d'" "learns_nothing ?d d'" by simp_all
  have "watcher_lost w d'" by (rule lost_stays [OF lost l(1)])
  moreover have "leaves d d'"
    by (rule leaves_trans [OF reload_leaves [OF running_bindings(1) [OF assms(1)]] l(1)])
  moreover have "w < d_fresh d" "w \<notin> probes_of d" using running_bindings(3,4) [OF assms(1,2)] .
  moreover have "d_resolver ?d = Some res"
    using assms(10) by (simp add: reload_config_def Let_def fold_frame [where g = d_resolver] split: option.split)
  ultimately show ?thesis
    using l(2) leavesD(5) [of d d' w] loop_code [OF assms(12)]
    by (auto simp: watcher_lost_def bound_def learns_nothing_def resolve_fst not_le split: option.splits)
qed

text \<open>A reload without the oom probe, then a poll in which the kernel has nothing for the watcher.\<close>

lemma watcher_lost_on_rearm_witness:
  "\<exists>rc d'. daemon_loop 0 [example_tick] (reload_config (example_env\<lparr>en_armable := (\<lambda>p. p \<noteq> 2)\<rparr>) (Inr example_next) example_daemon) = (rc, d')
    \<and> d_watcher d' = Some 2 \<and> rc = 0 \<and> (\<exists>res'. d_resolver d' = Some res' \<and> fst (resolve 99 0 res') = None)"
proof -
  let ?env = "example_env\<lparr>en_armable := (\<lambda>p. p \<noteq> 2)\<rparr>"
  obtain rc d' where run: "daemon_loop 0 [example_tick] (reload_config ?env (Inr example_next) example_daemon) = (rc, d')"
    by (metis prod.exhaust)
  have w: "d_watcher example_daemon = Some 2" "map lp_id (d_probes example_daemon) = [''oom'', ''procs'']"
    "live_settings (d_config example_daemon) example_next" "d_config_path example_daemon \<noteq> []"
    "\<not> same_plugin (cfg_probes (d_config example_daemon)) (cfg_probes example_next) ''oom''"
    "map_option (\<lambda>r. fst (resolve 99 0 r)) (d_resolver example_daemon) = Some None" by code_simp+
  then obtain res where res: "d_resolver example_daemon = Some res" "fst (resolve 99 0 res) = None" by auto
  have "''oom'' \<in> lp_id ` set (d_probes example_daemon)" using arg_cong [OF w(2), of set] by simp
  then obtain lp where lp: "lp \<in> set (d_probes example_daemon)" "lp_id lp = ''oom''" by fastforce
  have "rings_ok ?env" using example_rings by (simp add: rings_ok_def comes_up_def)
  moreover have "\<forall>inp \<in> set [example_tick]. reload_ok inp"
    by (simp add: reload_ok_def example_tick_def example_rings example_next_ok)
  moreover have "\<not> en_armable ?env 2" by simp
  moreover have "\<forall>inp \<in> set [example_tick]. \<forall>err. ti_poll inp = Inl err \<longrightarrow> 0 \<le> err \<or> err = - EINTR"
    by (simp add: example_tick_def)
  ultimately have "d_watcher d' = Some 2 \<and> rc = 0
      \<and> (\<exists>res'. d_resolver d' = Some res' \<and> (\<forall>k ts. fst (resolve k ts res') \<in> {None, fst (resolve k ts res)}))"
    using watcher_lost_on_rearm [OF example_running w(1) _ _ w(4) example_next_ok w(3) lp(1) _ res(1) _ run] lp(2) w(5)
    by simp
  with res(2) run show ?thesis by (metis insertE singletonD)
qed

end
