(* ===== verification/Spec2Isabelle.thy ===== *)
theory Spec2Isabelle
  imports MainProgram StreamThreads DaemonLifetime DaemonLatency DaemonEvents DaemonWatcher
begin

text \<open>
  A model of \<^verbatim>\<open>slurm-tracer\<close>, the eBPF observability daemon for Slurm compute nodes
  (\<^verbatim>\<open>src/src\<close>), with the theorems that make it correct.

  The program. Kernel programs stamp every exec, exit and OOM kill with the id of its cgroup
  and hand it over in a ring buffer. The daemon polls the rings, translates the bytes of an
  event to a record, finds the Slurm job of the cgroup id (a map fed by the startup walk of
  the cgroup tree and by the cgroup watcher's own ring), completes the record, batches it and
  gives each batch to every sink. A sink owns a bounded queue and a worker thread that
  serialises the records and writes or posts them. Probes and sinks are plugins, loaded by
  name, and the set of them follows the configuration file at each reload.

  The theories, from the leaves to the root, and the code they model:

  \<^item> \<open>Prelude\<close>: machine integers, the functions of \<^verbatim>\<open>std::string\<close>, \<^verbatim>\<open>strtoul\<close> and \<^verbatim>\<open>atoi\<close>, ordered
    maps as sorted association lists, the interface \<open>invariant_system\<close> of a transition system
    with an invariant; everything later is an interpretation or a client of these.
  \<^item> \<open>Clock\<close> (\<^verbatim>\<open>core/utilities/clock.cpp\<close>): the conversions and the offset sampled once.
  \<^item> \<open>Attribution\<close>, \<open>Resolver\<close> (\<^verbatim>\<open>core/attribution/attribution.cpp\<close>): path parsing, the search for the
    cgroup root, and \<^verbatim>\<open>CgroupResolver\<close>: state \<open>resolver\<close>, one function per member function. Its
    abstract specification is the life cycle of a single id (\<open>life_step\<close>).
  \<^item> \<open>Wire\<close>, \<open>Watcher\<close>, \<open>Probes\<close> (\<^verbatim>\<open>core/events.h\<close>, \<^verbatim>\<open>cgroup_watcher*\<close>, \<^verbatim>\<open>probes/*\<close>): the structs byte by
    byte, the kernel programs, the translations and the handlers. The interface between the
    two sides of a ring is a locale with the round trip as its law.
  \<^item> \<open>Records\<close> (\<^verbatim>\<open>core/record\<close>): the record and its JSON object.
  \<^item> \<open>Config\<close>, \<open>ConfigFile\<close> (\<^verbatim>\<open>core/config\<close>): settings and their readers, the reload difference, the
    loader over a parsed JSON document.
  \<^item> \<open>HttpEndpoint\<close>, \<open>HttpClient\<close>, \<open>SinkQueue\<close>, \<open>HttpSink\<close> (\<^verbatim>\<open>sinks/*\<close>): the URL parser, the HTTP/1.1
    client over a scripted network, the queue with its worker as a step system of two threads
    (\<open>sink_trans\<close>), and the three sinks built on them. \<open>sink_contract\<close> is the interface the
    pipeline relies on. \<open>SinkThreads\<close> goes one level down: program counters, the mutex, the two
    condition variables with spurious wake-ups; it refines that step system. \<open>StreamThreads\<close>
    sets the daemon above it, for the stdout sink (up to the stream) and for the http sink (up
    to the server's acknowledgements).
  \<^item> \<open>Pipeline\<close> (\<^verbatim>\<open>core/pipeline\<close>): enrichment, the user cache, batching; an operation returns the calls
    it makes on sinks.
  \<^item> \<open>EventLoop\<close> (\<^verbatim>\<open>core/event_loop.cpp\<close>, \<^verbatim>\<open>core/probe\<close>): what is bound and what is armed, the
    skeleton lifecycle.
  \<^item> \<open>PluginLoader\<close>, \<open>Plugins\<close> (\<^verbatim>\<open>core/registry.h\<close>, \<^verbatim>\<open>core/plugin_loader.cpp\<close>, the registration functions):
    loading by name with \<^verbatim>\<open>dlopen\<close>'s reference counts (\<open>component_loader\<close>).
  \<^item> \<open>Daemon\<close> (\<^verbatim>\<open>core/daemon.cpp\<close>): start, the main loop, reload, shutdown; a sink or probe object is its
    address, and the daemon's calls on objects are logged in the order it makes them, beginning
    with their construction (for a sink, with what its factory made of the settings).
    \<open>DaemonSafety\<close> reads the log for calls on destroyed objects, \<open>DaemonLifetime\<close> executes it on a
    heap of objects up to the destruction of the daemon's members (\<open>daemon_teardown\<close>),
    \<open>DaemonDelivery\<close> reads it for the records each sink is given, \<open>DaemonInstances\<close> for the
    settings each running sink has (and what becomes of an instance that failed), \<open>DaemonLatency\<close>
    for how long a record is held back; \<open>DaemonEvents\<close> adds the other end, the hits of the
    tracepoints in one poll, up to the records they make in every loaded sink (\<open>given_to\<close>: what a
    sink was written and what is pending for it); \<open>DaemonWatcher\<close> follows a daemon whose cgroup
    watcher was lost in a reload to the end of its run.
  \<^item> \<open>MainArgs\<close>, \<open>MainProgram\<close> (\<^verbatim>\<open>core/main.cpp\<close>, \<^verbatim>\<open>Daemon::run\<close>): the command line, the bridge from libbpf's
    log, the signal handlers interleaved with the main loop's accesses to their flags, the exit
    code. Its refinement lemma (\<open>run_remaining\<close>) and \<open>program_is_start\<close> carry the theorems about the daemon over
    to every run of the program.
  \<^item> this theory: the properties that span components.

  How the code's effects appear. Mutable objects are records, passed and returned; errors are
  \<^typ>\<open>'a option\<close> or sums, an exception or signal that nothing handles is the end of the process
  (\<open>Terminated\<close> of a sink, \<open>Killed\<close> of \<open>post\<close>, \<open>Parse_Throws\<close> of the JSON parser, no result of
  \<open>start_components\<close> when the batch cannot be allocated); a system call that never returns is
  \<open>Blocks\<close> of \<open>post\<close>, and the worker it happens in takes no further step, like one that has
  ended; undefined behaviour (\<^verbatim>\<open>pop_front\<close> on an empty deque, a read past a
  buffer) is a result of its own. Integers have their width (\<open>u32\<close>, \<open>u64\<close>); durations are
  \<^typ>\<open>int\<close> with the wrap-around of \<^verbatim>\<open>std::chrono\<close>'s 64 bits written out. The two threads of a sink
  are one step per critical section or action between them, in any order; a blocking wait is
  the partial function \<open>wait_until\<close>, so returning is a theorem. That this reading is right
  is proved in \<open>SinkThreads\<close>, where waiting and notifying are steps of their own. The walk of the cgroup tree is
  partial as well, and proved to end for every finite tree. No fuel is used.

  Parameters, for what is not code of the repository: the files, \<^verbatim>\<open>stat\<close>, \<^verbatim>\<open>readdir\<close> and
  \<^verbatim>\<open>glob\<close>; the clocks; the user database; the JSON library (parser, text of a value, number
  formats); libbpf's answers; the network as a script of what each call returns; the plugin
  files. Where a theorem needs their documented behaviour it is a named hypothesis:
  \<open>finite_tree\<close> and \<open>honest_types\<close> (the directory tree), \<open>dump_strict\<close> (the serialiser refuses
  what is not UTF-8), \<open>rings_ok\<close> (an attached skeleton has a ring), \<open>no_broken_pipe\<close> (the peer never closes under a
  write). A timeout of 0 is accepted and means none: that the http sink returns assumes a positive
  one, and \<open>http_silent_server\<close> shows what the other does.

  What the theorems show. Attribution: parsing inverts the documented layout, each cgroup id
  lives its own life cycle, an attribution lasts from creation to the end of the grace
  period, the startup walk ends and builds exactly the map of the tree. Wire and probes: what
  the kernel side writes is what the handler reads, and a handler makes records of complete,
  known events only. Configuration: what the loader accepts, presence means enabled, the
  reload difference is sound and minimal. Pipeline: no record is lost, duplicated or
  reordered, batches are bounded. Sinks: for every interleaving, what the queue holds, what
  was delivered and what was dropped add up; flush and the destructor return with nothing
  left; the two threads exclude each other, never deadlock, lose no wake-up, and a call
  returns within a bounded number of steps; the HTTP client stays in step with the responses. Event loop and plugins: what is
  armed is what is bound, references are balanced. Daemon: one consistent set of instances
  over its whole life, exact effect of a reload, no use of an object after its destruction, every object destroyed once
  and before its plugin is unloaded,
  every record of a run given to every sink that stays, once, in order and within the flush
  interval, and from there on the stream or acknowledged by the server unless counted as
  dropped; every event the kernel side submitted recorded once and in order; every instance
  built from what the daemon has read. Program: no SIGHUP
  lost, a prompt stop, success only on request.
  Some theorems state what goes wrong, and when: cgroups made or removed between the walk and
  the watcher, a watcher lost while re-arming, an instance no reload brings back, a command name
  that is not UTF-8, a peer that closes the connection, a silent server behind a sink whose
  timeout is 0.

  Not modelled: the set-up of logging and the texts logged; signals that arrive before their
  handlers are installed; allocation failure, except of the room the pipeline reserves for its
  batch when it is built (\<open>make_pipeline\<close>); how long a call blocks, beyond whether it returns; a
  different answer of libbpf for the same probe within one reload (the environment of an
  iteration says once which probes can be armed); a failing \<^verbatim>\<open>fwrite\<close>; the build system, the test programs and the integration scripts.
\<close>

section \<open>From a tracepoint to a batch\<close>

text \<open>
  C1. The attribution of a process event, end to end: the kernel reports the creation of a
  job's, step's or task's cgroup, whose path has at most 255 bytes and no NUL, and later an exec
  in it; both cross their ring buffers as bytes. When the creation is handled first, the record
  that reaches the batch carries that job, step and task, the user name, the node, and wall-clock
  time. When the probe's ring is drained first (the two rings are not ordered by time) and the
  resolver has no entry for the id yet, the record has no job and is counted as unattributed.
\<close>

theorem exec_record_attribution:
  assumes "on_mkdir True old created k (Some (slurm_cgroup_path mnt a)) = Some ce"
    and "length old = ST_CGROUP_PATH_LEN" and "slurm_attribution a"
    and "length (slurm_cgroup_path mnt a) \<le> 255" and "NUL \<notin> set (slurm_cgroup_path mnt a)"
    and "on_exec filter_id True ctx = Some e" and "length (ctx_comm ctx) = ST_COMM_LEN"
    and "ctx_cgroup_id ctx = k" and "created \<le> ctx_now ctx"
  shows "\<exists>r. proc_on_event (encode_proc_event padding e @ rest) = Some r
    \<and> (case enrich offset pw r p (watcher_on_event (encode_cgroup_event ce @ rest') res) of
         (r', p', _) \<Rightarrow>
           rec_job_id r' = Some (attr_job_id a)
           \<and> rec_step_id r' = (if attr_step_id a = [] then None else Some (attr_step_id a))
           \<and> rec_task_id r' = attr_task_id a
           \<and> rec_user r' = fst (lookup_user pw (ucast (ctx_uid_gid ctx)) p)
           \<and> rec_node r' = po_node (pl_opt p) \<and> rec_ts_ns r' = ctx_now ctx + offset
           \<and> ps_unattributed (pl_stats p') = ps_unattributed (pl_stats p))
    \<and> (r_entries res k \<noteq> None
       \<or> (case enrich offset pw r p res of
            (r', p', _) \<Rightarrow> rec_job_id r' = None
              \<and> ps_unattributed (pl_stats p') = ps_unattributed (pl_stats p) + 1))"
proof -
  define res1 where "res1 = watcher_on_event (encode_cgroup_event ce @ rest') res"
  have "res1 = on_created k (slurm_cgroup_path mnt a) created res"
    using mkdir_reaches_resolver [OF assms(1,2,5)] assms(4) by (simp add: res1_def)
  then have known: "lookup_attr res1 k (ctx_now ctx) = Some a"
    using assms(9) parse_slurm_path [OF assms(3)] by (simp add: lookup_attr_def on_created_def not_less)
  obtain r where r: "proc_on_event (encode_proc_event padding e @ rest) = Some r"
    "rec_cgroup_id r = k" "rec_ts_ns r = ctx_now ctx" "rec_uid r = Some (ucast (ctx_uid_gid ctx))"
    "rec_user r = None" "rec_job_id r = None" "rec_step_id r = None" "rec_task_id r = None"
    using exec_record [OF assms(6,7)] assms(8) by (simp add: empty_record_def)
  have unknown: "lookup_attr res k (ctx_now ctx) = None" if "r_entries res k = None"
    using that by (simp add: lookup_attr_def)
  show ?thesis
    using enrich_spec [where offset = offset and pw = pw and r = r and p = p and res = res1] enrich_spec [where offset = offset and pw = pw and r = r and p = p and res = res] r known unknown
    unfolding res1_def [symmetric]
    by (cases "r_entries res k") (auto split: prod.splits option.splits)
qed

lemma exec_record_attribution_witness:
  "let a = \<lparr>attr_job_id = 42, attr_step_id = ''0'', attr_task_id = None\<rparr>;
       ce = the (on_mkdir True (replicate 256 NUL) 10 7 (Some (slurm_cgroup_path ''/c'' a)));
       e = the (on_exec 0 True example_task)
   in \<exists>r. proc_on_event (encode_proc_event 0 e) = Some r
      \<and> rec_job_id (fst (enrich 0 (\<lambda>_. None) r example_pipeline
          (watcher_on_event (encode_cgroup_event ce) (new_resolver ''/c'' 1)))) = Some 42"
proof -
  define a where "a = \<lparr>attr_job_id = 42, attr_step_id = ''0'', attr_task_id = None\<rparr>"
  define ce where "ce = the (on_mkdir True (replicate 256 NUL) 10 7 (Some (slurm_cgroup_path ''/c'' a)))"
  define e where "e = the (on_exec 0 True example_task)"
  have "on_mkdir True (replicate 256 NUL) 10 7 (Some (slurm_cgroup_path ''/c'' a)) = Some ce"
    by (simp add: ce_def on_mkdir_def watcher_emit_def)
  moreover have "on_exec 0 True example_task = Some e"
    by (simp add: e_def on_exec_def proc_emit_def)
  moreover have "slurm_attribution a" by (simp add: a_def slurm_attribution_def)
  moreover have "length (slurm_cgroup_path ''/c'' a) \<le> 255" "NUL \<notin> set (slurm_cgroup_path ''/c'' a)"
    "length (ctx_comm example_task) = ST_COMM_LEN" "ctx_cgroup_id example_task = 7"
    "10 \<le> ctx_now example_task"
    unfolding a_def by code_simp+
  ultimately have "\<exists>r. proc_on_event (encode_proc_event 0 e @ []) = Some r
      \<and> rec_job_id (fst (enrich 0 (\<lambda>_. None) r example_pipeline
          (watcher_on_event (encode_cgroup_event ce @ []) (new_resolver ''/c'' 1)))) = Some 42"
    using exec_record_attribution [where old = "replicate 256 NUL" and created = 10 and k = 7
        and mnt = "''/c''" and a = a and ce = ce and filter_id = 0 and ctx = example_task and e = e
        and padding = 0 and rest = "[]" and offset = 0 and pw = "\<lambda>_. None" and p = example_pipeline
        and rest' = "[]" and res = "new_resolver ''/c'' 1"]
    by (fastforce simp: ST_CGROUP_PATH_LEN_def a_def split: prod.splits)
  then show ?thesis by (simp add: Let_def a_def ce_def e_def)
qed

section \<open>From a command name to the end of the process\<close>

text \<open>
  C37. A process may end the daemon: its command name is 15 bytes of its choice, crosses the
  ring buffer and the pipeline unchanged, and if it is not UTF-8 the JSON serialiser throws
  in the worker of a stdout or an http sink, whatever else is in the batch and whatever the
  state of that sink, with nothing of the batch written or posted; nothing catches the exception.
  (The null sink serialises nothing.)
\<close>

theorem command_name_terminates_daemon:
  assumes "dump_strict dump"
    and "on_exec filter_id True ctx = Some e" and "length (ctx_comm ctx) = ST_COMM_LEN"
    and "\<not> utf8 (c_string (ctx_comm ctx) ST_COMM_LEN)"
  shows "\<exists>r. proc_on_event (encode_proc_event padding e @ rest) = Some r
    \<and> (let batch = before @ fst (enrich offset pw r p res) # after in
         ndjson dump batch = None
       \<and> (\<exists>s. stdout_run dump [Write batch, Worker, Worker] (new_stdout_sink max_queued) = Some s
              \<and> \<not> process_alive s)
       \<and> (\<exists>s. http_run dump opt [Write batch, Worker, Worker]
                (new_http_sink (opt\<lparr>ho_max_queued_batches := 1\<rparr>) net) = Some s \<and> \<not> process_alive s)
       \<and> (\<forall>s. sq_worker s = Holding batch \<longrightarrow> (\<exists>t. stdout_worker dump s = Some t
              \<and> \<not> process_alive t \<and> sq_out t = sq_out s \<and> (\<forall>ev. stdout_run dump [ev] t = None)))
       \<and> (\<forall>s. sq_worker s = Holding batch \<longrightarrow> (\<exists>t. http_worker dump opt s = Some t
              \<and> \<not> process_alive t \<and> sq_out t = sq_out s \<and> (\<forall>ev. http_run dump opt [ev] t = None))))"
proof -
  obtain r where r: "proc_on_event (encode_proc_event padding e @ rest) = Some r"
    "rec_comm r = c_string (ctx_comm ctx) ST_COMM_LEN"
    using exec_record [OF assms(2,3)] by simp
  let ?r = "fst (enrich offset pw r p res)"
  have "rec_comm ?r = rec_comm r"
    using enrich_spec [where offset = offset and pw = pw and r = r and p = p and res = res] by (auto split: prod.splits)
  with r assms(4) have bad: "\<not> utf8 (rec_comm ?r)" by simp
  define batch where "batch = before @ ?r # after"
  have "?r \<in> set batch" "batch \<noteq> []" by (simp_all add: batch_def)
  with to_json_comm_not_utf8 [OF assms(1) bad] have none: "ndjson dump batch = None"
    by (auto simp: ndjson_None_iff)
  have "\<exists>s. stdout_run dump [Write batch, Worker, Worker] (new_stdout_sink max_queued) = Some s \<and> \<not> process_alive s"
    using stdout_not_utf8_terminates [OF assms(1) \<open>?r \<in> set batch\<close> bad] by blast
  moreover have "\<exists>s. http_run dump opt [Write batch, Worker, Worker]
      (new_http_sink (opt\<lparr>ho_max_queued_batches := 1\<rparr>) net) = Some s \<and> \<not> process_alive s"
    using none \<open>batch \<noteq> []\<close>
    by (simp add: http_run_def new_http_sink_def new_queue_sink_def sink_exec_def process_alive_def
        sink_write_def sink_worker_def http_deliver_def)
  moreover have "\<exists>t. stdout_worker dump s = Some t \<and> \<not> process_alive t \<and> sq_out t = sq_out s
      \<and> (\<forall>ev. stdout_run dump [ev] t = None)" if "sq_worker s = Holding batch" for s
    using that none
    by (simp add: stdout_worker_def stdout_run_def stdout_deliver_def sink_worker_def sink_exec_def process_alive_def)
  moreover have "\<exists>t. http_worker dump opt s = Some t \<and> \<not> process_alive t \<and> sq_out t = sq_out s
      \<and> (\<forall>ev. http_run dump opt [ev] t = None)" if "sq_worker s = Holding batch" for s
    using that none
    by (simp add: http_worker_def http_run_def http_deliver_def sink_worker_def sink_exec_def process_alive_def)
  ultimately show ?thesis using r(1) none unfolding Let_def batch_def by blast
qed

lemma command_name_terminates_daemon_witness:
  "\<exists>r. proc_on_event (encode_proc_event 0 (the (on_exec 0 True
        (example_task\<lparr>ctx_comm := CHR 0xFF # replicate 15 NUL\<rparr>)))) = Some r
    \<and> (\<exists>s. stdout_run example_dump [Write [fst (enrich 0 (\<lambda>_. None) r example_pipeline (new_resolver [] 0))],
          Worker, Worker] (new_stdout_sink 1024) = Some s \<and> \<not> process_alive s)"
proof -
  let ?ctx = "example_task\<lparr>ctx_comm := CHR 0xFF # replicate 15 NUL\<rparr>"
  have "on_exec 0 True ?ctx = Some (the (on_exec 0 True ?ctx))" by (simp add: on_exec_def proc_emit_def)
  moreover have "length (ctx_comm ?ctx) = ST_COMM_LEN" "\<not> utf8 (c_string (ctx_comm ?ctx) ST_COMM_LEN)"
    by code_simp+
  ultimately show ?thesis
    using command_name_terminates_daemon [OF example_dump_strict, where filter_id = 0 and ctx = ?ctx
        and padding = 0 and rest = "[]" and before = "[]" and offset = 0 and pw = "\<lambda>_. None"
        and p = example_pipeline and res = "new_resolver [] 0" and after = "[]" and max_queued = 1024]
    by (fastforce simp: Let_def)
qed

section \<open>The window at start\<close>

text \<open>The resolver of a daemon that came up is the one the walk built.\<close>

lemma daemon_start_resolver:
  assumes "daemon_start env fs glob conf offset now (new_daemon c path) = Some (True, d)"
  shows "\<exists>root res. d_resolver d = Some res \<and> is_dir fs root
    \<and> resolver_start fs offset (new_resolver root default_grace_ns) = Some (True, res)"
proof -
  from assms obtain root res where root:
    "resolver_start fs offset (new_resolver root default_grace_ns) = Some (True, res)"
    and sc: "start_components env now ((new_daemon c path)\<lparr>d_resolver := Some res\<rparr>) = Some (True, d)"
    by (auto simp: daemon_start_def Let_def split: if_splits option.splits prod.splits)
  have watcher: "d_resolver d' = d_resolver e" if "start_cgroup_watcher env e = (ok, d')" for e ok d'
    using that by (auto simp: start_cgroup_watcher_def Let_def split: if_splits prod.splits)
  have probes: "d_resolver (fold (\<lambda>(i, c). add_probe env i c) xs e) = d_resolver e" for xs e
    by (rule fold_frame) (auto split: prod.split)
  have sinks: "d_resolver (fold (\<lambda>(i, c). add_sink env i c) xs e) = d_resolver e" for xs e
    by (rule fold_frame) (auto split: prod.split)
  from sc have "d_resolver d = Some res"
    by (auto simp: start_components_def make_pipeline_def Let_def sinks probes dest!: watcher split: if_splits prod.splits)
  moreover have "is_dir fs root"
    using root by (auto simp: resolver_start_def new_resolver_def split: if_splits)
  ultimately show ?thesis using root by blast
qed

lemma unknown_run:
  "\<forall>p created. Cgroup_Created k p created \<notin> set evs \<Longrightarrow> foldl (life_step grace k) Unknown evs = Unknown"
proof (induction evs)
  case (Cons ev evs)
  then show ?case by (cases ev) auto
qed simp

text \<open>
  C35. The walk of the cgroup tree comes before the watcher is attached, and what happens in
  between is never made up for. A job cgroup created in the window (its id is no directory's
  at the walk, and its creation is not among the watcher's events) is unattributed for as long
  as it lives; one removed in the window stays in the map for good, whatever the clock says,
  through any events but its removal and a new job cgroup with its id, so that any later
  owner of the id that is no job, whose creation the watcher does report, is taken for that job.
\<close>

theorem startup_window:
  assumes "finite_tree fs weight" and "honest_types fs"
    and "daemon_start env fs glob conf offset now (new_daemon c path) = Some (True, d)"
    and "d_resolver d = Some res"
  shows "((\<forall>p st. fs_stat fs p = Some st \<longrightarrow> st_ino st \<noteq> k)
       \<and> (\<forall>p created. Cgroup_Created k p created \<notin> set evs)
       \<longrightarrow> fst (resolve k ts (resolver_run res evs)) = None)
    \<and> (r_entries res k = Some e \<and> (\<forall>t. Cgroup_Removed k t \<notin> set evs)
       \<and> (\<forall>p created. Cgroup_Created k p created \<in> set evs \<longrightarrow> parse_cgroup_path p = None)
       \<and> e_created_ns e \<le> ts
       \<longrightarrow> fst (resolve k ts (resolver_run res evs)) = Some (e_attr e))"
proof -
  from daemon_start_resolver [OF assms(3)] assms(4) obtain root where root: "is_dir fs root"
    "resolver_start fs offset (new_resolver root default_grace_ns) = Some (True, res)" by auto
  from resolver_start_complete [OF assms(1,2) root(1), of offset default_grace_ns] root(2)
  have walk: "r_entries res k = Some e \<Longrightarrow> \<exists>p. dir_entry fs offset p = Some (k, e)" for e by simp blast
  show ?thesis
  proof (intro conjI impI)
    assume new: "(\<forall>p st. fs_stat fs p = Some st \<longrightarrow> st_ino st \<noteq> k)
      \<and> (\<forall>p created. Cgroup_Created k p created \<notin> set evs)"
    have "r_entries res k = None"
    proof (rule ccontr)
      assume "r_entries res k \<noteq> None"
      with walk obtain p e where "dir_entry fs offset p = Some (k, e)" by auto
      with new show False by (auto simp: dir_entry_def split: option.splits)
    qed
    then have "life_of res k = Unknown" by (simp add: life_of_def)
    then show "fst (resolve k ts (resolver_run res evs)) = None"
      using unknown_run [OF conjunct2 [OF new]] by (simp add: resolve_life life_of_run)
  next
    assume old: "r_entries res k = Some e \<and> (\<forall>t. Cgroup_Removed k t \<notin> set evs)
      \<and> (\<forall>p created. Cgroup_Created k p created \<in> set evs \<longrightarrow> parse_cgroup_path p = None)
      \<and> e_created_ns e \<le> ts"
    with walk have "e_removed_ns e = 0" by (auto simp: dir_entry_def split: option.splits)
    with old have "life_of res k = Live (e_attr e) (e_created_ns e)" by (simp add: life_of_def)
    moreover have "list_all (spares_live k) evs"
      unfolding list_all_iff
    proof
      fix ev assume "ev \<in> set evs"
      with old show "spares_live k ev" by (cases ev) auto
    qed
    ultimately show "fst (resolve k ts (resolver_run res evs)) = Some (e_attr e)"
      using spares_live_run [of k evs] old by (simp add: resolve_life life_of_run not_less)
  qed
qed

lemma startup_window_witness:
  "\<exists>res. d_resolver example_daemon = Some res
    \<and> fst (resolve 9 50 (resolver_run res [Clock_Tick 40, Cgroup_Removed 9 60])) = None
    \<and> fst (resolve 7 (2 ^ 63) (resolver_run res [Clock_Tick (2 ^ 62), Cgroup_Created 7 ''/init.scope'' 60]))
        = Some \<lparr>attr_job_id = 1, attr_step_id = [], attr_task_id = None\<rparr>"
proof -
  note tree = example_tree
  obtain res where res: "d_resolver example_daemon = Some res"
    using is_start_fully_started [OF example_is_start] by (auto simp: fully_started_def)
  have "map_option (\<lambda>r. map_option (\<lambda>e. (e_attr e, e_created_ns e \<le> 2 ^ 63)) (r_entries r 7)) (d_resolver example_daemon)
      = Some (Some (\<lparr>attr_job_id = 1, attr_step_id = [], attr_task_id = None\<rparr>, True))" by code_simp
  with res obtain e where e: "r_entries res 7 = Some e" "e_created_ns e \<le> 2 ^ 63"
    "e_attr e = \<lparr>attr_job_id = 1, attr_step_id = [], attr_task_id = None\<rparr>" by auto
  have "\<forall>p st. fs_stat example_fs p = Some st \<longrightarrow> st_ino st \<noteq> 9" by (auto simp: example_fs_def split: if_splits)
  moreover have "parse_cgroup_path ''/init.scope'' = None" by code_simp
  ultimately show ?thesis using
    startup_window [OF tree example_started [unfolded started_def] res, of 9 "[Clock_Tick 40, Cgroup_Removed 9 60]"]
    startup_window [OF tree example_started [unfolded started_def] res, of 7 "[Clock_Tick (2 ^ 62), Cgroup_Created 7 ''/init.scope'' 60]" _ e]
    e res by simp
qed

section \<open>Reloading the file itself\<close>

text \<open>Whatever the configuration file holds, a reload keeps the daemon consistent.\<close>

lemma reload_file_inv:
  assumes "running_inv d" and "rings_ok env"
    and "load_config_file lib (d_config_path d) content = Some loaded"
  shows "running_inv (reload_config env loaded d)"
proof (cases loaded)
  case (Inl err)
  with assms(1) show ?thesis by (simp add: reload_config_def)
next
  case (Inr c)
  with load_ok [of lib "d_config_path d" content c] reload_inv [OF assms(1), of env c "Inr c"] assms(2,3)
  show ?thesis by simp
qed

end
